(* ===== verification/Prelude.thy ===== *)
theory Prelude
  imports Complex_Main "HOL-Library.Multiset" "HOL-Library.AList" "HOL-Library.Word"
    "HOL-Library.List_Lexorder" "HOL-Library.Char_ord"
begin

text \<open>
  Shared vocabulary of the ArgosFX model: Go's machine integers, Go maps, and the generic
  facts on lists, sorting and lexicographic comparison that several components use.

  \<^item> A Go \<open>int\<close>, \<open>int64\<close> or \<open>time.Duration\<close> is a 64-bit word read by \<open>sint\<close>.
  \<^item> A Go \<open>string\<close> is a list of bytes; \<open>List_Lexorder\<close> and \<open>Char_ord\<close> give it the
    bytewise order that Go's \<open><\<close> and SQLite's BINARY collation use.
  \<^item> A Go \<open>map\<close> is an association list with distinct keys, updated by
    \<open>AList.update\<close> and \<open>AList.delete\<close>. Iteration order is not part of a map's meaning: where
    the code's result could depend on it, the model takes the order as an argument.
\<close>

named_theorems go_simps "rewriting of the Go-level operations of the model"

type_synonym go_int = "64 word"
type_synonym go_string = string

section \<open>Sorted lists\<close>

text \<open>
  In a sorted list, an element that has too few others beside it to leave room for a
  majority inside an interval lies in that interval. The median argument needs both sides.
\<close>

lemma length_filter_le_suffix:
  "\<forall>i < k. i < length xs \<longrightarrow> \<not> P (xs ! i) \<Longrightarrow> length (filter P xs) \<le> length xs - k"
proof (induction xs arbitrary: k)
  case (Cons x xs)
  show ?case
  proof (cases k)
    case 0
    then show ?thesis using length_filter_le [of P "x # xs"] by simp
  next
    case (Suc j)
    with Cons.prems have "\<not> P x" "\<forall>i < j. i < length xs \<longrightarrow> \<not> P (xs ! i)" by fastforce+
    with Cons.IH [of j] Suc show ?thesis by simp
  qed
qed simp

lemma length_filter_le_prefix:
  "\<forall>i. k \<le> i \<longrightarrow> i < length xs \<longrightarrow> \<not> P (xs ! i) \<Longrightarrow> length (filter P xs) \<le> k"
proof (induction xs arbitrary: k)
  case (Cons x xs)
  show ?case
  proof (cases k)
    case 0
    with Cons.prems have "\<forall>y \<in> set (x # xs). \<not> P y" by (metis in_set_conv_nth le0)
    then show ?thesis by (simp add: filter_empty_conv)
  next
    case (Suc j)
    with Cons.prems have "\<forall>i. j \<le> i \<longrightarrow> i < length xs \<longrightarrow> \<not> P (xs ! i)" by fastforce
    with Cons.IH [of j] Suc show ?thesis by (auto simp: le_SucI)
  qed
qed simp

lemma sorted_majority_lower:
  fixes xs :: "'a::linorder list"
  assumes "sorted xs" and "i < length xs" and "length xs - Suc i < length (filter P xs)"
    and "\<And>x. P x \<Longrightarrow> Q x" and "\<And>x y. x \<in> set xs \<Longrightarrow> y \<in> set xs \<Longrightarrow> Q x \<Longrightarrow> x \<le> y \<Longrightarrow> Q y"
  shows "Q (xs ! i)"
proof (rule ccontr)
  assume n: "\<not> Q (xs ! i)"
  have "\<forall>j < Suc i. j < length xs \<longrightarrow> \<not> P (xs ! j)"
    using n assms by (metis less_Suc_eq_le nth_mem sorted_nth_mono)
  from length_filter_le_suffix [OF this] assms(3) show False by simp
qed

lemma sorted_majority_upper:
  fixes xs :: "'a::linorder list"
  assumes "sorted xs" and "i < length xs" and "i < length (filter P xs)"
    and "\<And>x. P x \<Longrightarrow> Q x" and "\<And>x y. x \<in> set xs \<Longrightarrow> y \<in> set xs \<Longrightarrow> Q y \<Longrightarrow> x \<le> y \<Longrightarrow> Q x"
  shows "Q (xs ! i)"
proof (rule ccontr)
  assume n: "\<not> Q (xs ! i)"
  have "\<forall>j. i \<le> j \<longrightarrow> j < length xs \<longrightarrow> \<not> P (xs ! j)"
    using n assms by (metis nth_mem sorted_nth_mono)
  from length_filter_le_prefix [OF this] assms(3) show False by simp
qed

lemma length_filter_sort: "length (filter P (sort xs)) = length (filter P xs)"
  by (metis mset_filter mset_sort size_mset)

lemma sort_cong_mset: "mset xs = mset ys \<Longrightarrow> sort xs = sort (ys :: 'a::linorder list)"
  by (metis mset_sort properties_for_sort sorted_sort)

text \<open>Two stable sorts in a row sort by the second key first, then by the first one.\<close>

lemma sorted_wrt_groups:
  fixes f :: "'a \<Rightarrow> 'b::linorder"
  assumes "sorted (map f xs)" and "\<And>k. sorted_wrt Q (filter (\<lambda>x. f x = k) xs)"
  shows "sorted_wrt (\<lambda>x y. f x < f y \<or> f x = f y \<and> Q x y) xs"
  using assms
proof (induction xs)
  case (Cons x xs)
  have "sorted_wrt Q (filter (\<lambda>y. f y = k) xs)" for k
    using Cons.prems(2) [of k] by (cases "f x = k") auto
  moreover have "f x < f y \<or> f x = f y \<and> Q x y" if "y \<in> set xs" for y
    using Cons.prems(1) Cons.prems(2) [of "f x"] that by (fastforce simp: le_less)
  ultimately show ?case using Cons by simp
qed simp

lemma sort_key_sort_key:
  fixes f :: "'a \<Rightarrow> 'b::linorder" and g :: "'a \<Rightarrow> 'c::linorder"
  assumes "distinct (map g xs)"
  shows "sorted_wrt (\<lambda>x y. f x < f y \<or> f x = f y \<and> g x < g y) (sort_key f (sort_key g xs))"
proof (rule sorted_wrt_groups)
  have "distinct (map g (sort_key g xs))"
    using assms by (simp add: distinct_map)
  then have "sorted_wrt (\<lambda>x y. g x < g y) (sort_key g xs)"
    by (metis sorted_sort_key sorted_wrt_map strict_sorted_iff)
  then show "sorted_wrt (\<lambda>x y. g x < g y) (filter (\<lambda>x. f x = k) (sort_key f (sort_key g xs)))" for k
    by (simp add: sort_key_stable sorted_wrt_filter)
qed simp

section \<open>Small integers\<close>

lemma sint_of_int_small: "- (2 ^ 63) \<le> k \<Longrightarrow> k < 2 ^ 63 \<Longrightarrow> sint (word_of_int k :: go_int) = k"
  by (simp only: signed_of_int) (simp add: signed_take_bit_int_eq_self)

section \<open>Lookup by a unique key\<close>

lemma find_unique_key: "distinct (map f xs) \<Longrightarrow> x \<in> set xs \<Longrightarrow> find (\<lambda>y. f y = f x) xs = Some x"
  by (induction xs) force+

lemma find_key_None: "find (\<lambda>y. f y = k) xs = None \<longleftrightarrow> k \<notin> f ` set xs"
  by (auto simp: find_None_iff)

end
