(* ===== verification/GoTime.thy ===== *)
theory GoTime
  imports Prelude "HOL-Library.Monad_Syntax"
begin

text \<open>
  What the program uses of Go's \<open>time\<close> package. A \<open>time.Time\<close> is an \<open>int\<close>: nanoseconds
  since the zero time, 0001-01-01T00:00:00Z; a \<open>time.Duration\<close> is a 64-bit word of
  nanoseconds. The database keeps times as RFC 3339 text and compares the text, so the theory
  has the calendar, the formatter and the parser, and shows that

  \<^item> formatting is strictly monotone in the second for the years 1 to 9999
    (\<open>fmt_rfc3339_less\<close>), so comparing the text compares the times to the second;
  \<^item> parsing what was formatted gives the time truncated to the second (\<open>parse_fmt_rfc3339\<close>);
  \<^item> the \<open>2006-01-02\<close> form identifies the UTC day (\<open>fmt_day_eq\<close>).
\<close>

section \<open>Instants and durations\<close>

type_synonym time = int
type_synonym duration = go_int

definition ns_per_sec :: int where
  "ns_per_sec = 1000000000"

abbreviation second :: duration where "second \<equiv> 1000000000"
abbreviation minute :: duration where "minute \<equiv> 60000000000"
abbreviation hour :: duration where "hour \<equiv> 3600000000000"

definition zero_time :: time where
  "zero_time = 0"

definition is_zero :: "time \<Rightarrow> bool" where
  "is_zero t \<longleftrightarrow> t = zero_time"

definition time_add :: "time \<Rightarrow> duration \<Rightarrow> time" where
  "time_add t d = t + sint d"

text \<open>\<open>t.Sub(u)\<close> saturates at the ends of the duration range.\<close>

definition time_sub :: "time \<Rightarrow> time \<Rightarrow> duration" where
  "time_sub t u = word_of_int (max (- (2 ^ 63)) (min (2 ^ 63 - 1) (t - u)))"

text \<open>\<open>t.Truncate(d)\<close> rounds down to a multiple of \<open>d\<close> since the zero time.\<close>

definition time_truncate :: "time \<Rightarrow> duration \<Rightarrow> time" where
  "time_truncate t d = (if sint d \<le> 0 then t else t - t mod sint d)"

text \<open>\<open>t.Unix()\<close>: whole seconds since 1970.\<close>

definition time_unix :: "time \<Rightarrow> int" where
  "time_unix t = t div ns_per_sec - 62135596800"

definition to_second :: "time \<Rightarrow> time" where
  "to_second t = t - t mod ns_per_sec"

section \<open>Calendar\<close>

definition is_leap :: "int \<Rightarrow> bool" where
  "is_leap y \<longleftrightarrow> y mod 4 = 0 \<and> (y mod 100 \<noteq> 0 \<or> y mod 400 = 0)"

text \<open>Days from 0001-01-01 to January 1st of year \<open>y\<close>.\<close>

definition days_before_year :: "int \<Rightarrow> int" where
  "days_before_year y = 365 * (y - 1) + (y - 1) div 4 - (y - 1) div 100 + (y - 1) div 400"

definition leap_day :: "int \<Rightarrow> int" where
  "leap_day y = (if is_leap y then 1 else 0)"

definition days_before_month :: "int \<Rightarrow> int \<Rightarrow> int" where
  "days_before_month y m =
     (if m = 1 then 0 else if m = 2 then 31
      else leap_day y + (if m = 3 then 59 else if m = 4 then 90 else if m = 5 then 120
        else if m = 6 then 151 else if m = 7 then 181 else if m = 8 then 212
        else if m = 9 then 243 else if m = 10 then 273 else if m = 11 then 304 else 334))"

definition days_in_month :: "int \<Rightarrow> int \<Rightarrow> int" where
  "days_in_month y m =
     (if m = 2 then 28 + leap_day y
      else if m = 4 \<or> m = 6 \<or> m = 9 \<or> m = 11 then 30 else 31)"

definition days_of_civil :: "int \<Rightarrow> int \<Rightarrow> int \<Rightarrow> int" where
  "days_of_civil y m d = days_before_year y + days_before_month y m + (d - 1)"

text \<open>The year and the day of the year, from 400-, 100-, 4- and 1-year cycles.\<close>

definition year_yday :: "int \<Rightarrow> int \<times> int" where
  "year_yday n =
     (let a = n div 146097; r = n mod 146097;
          c = min 3 (r div 36524); r2 = r - 36524 * c;
          q = r2 div 1461; r3 = r2 mod 1461;
          b = min 3 (r3 div 365)
      in (400 * a + 100 * c + 4 * q + b + 1, r3 - 365 * b))"

definition month_of_yday :: "int \<Rightarrow> int \<Rightarrow> int" where
  "month_of_yday y k =
     (if k < 31 then 1
      else let k' = k - leap_day y in
        if k' < 59 then 2 else if k' < 90 then 3 else if k' < 120 then 4 else if k' < 151 then 5
        else if k' < 181 then 6 else if k' < 212 then 7 else if k' < 243 then 8
        else if k' < 273 then 9 else if k' < 304 then 10 else if k' < 334 then 11 else 12)"

definition civil_of_days :: "int \<Rightarrow> int \<times> int \<times> int" where
  "civil_of_days n =
     (let (y, k) = year_yday n; m = month_of_yday y k
      in (y, m, k - days_before_month y m + 1))"

definition day_number :: "time \<Rightarrow> int" where
  "day_number t = t div (86400 * ns_per_sec)"

definition sec_of_day :: "time \<Rightarrow> int" where
  "sec_of_day t = (t div ns_per_sec) mod 86400"

subsection \<open>Years\<close>

lemma div_pred:
  fixes y k :: int
  assumes "0 < k"
  shows "y div k - (y - 1) div k = (if y mod k = 0 then 1 else 0)"
proof (cases "y mod k = 0")
  case True
  then obtain q where y: "y = k * q" by (metis mod_eq_0_iff_dvd dvdE)
  then have "y - 1 = k * (q - 1) + (k - 1)" by (simp add: algebra_simps)
  then have "(y - 1) div k = q - 1" by (rule int_div_pos_eq) (use assms in auto)
  with True assms y show ?thesis by simp
next
  case False
  then have "0 < y mod k" using assms by (metis pos_mod_sign order_le_less)
  moreover have "y mod k < k" using assms by simp
  moreover have "y - 1 = k * (y div k) + (y mod k - 1)" by simp
  ultimately have "(y - 1) div k = y div k" by (intro int_div_pos_eq [of _ k _ "y mod k - 1"]) auto
  with False show ?thesis by simp
qed

lemma days_before_year_Suc:
  "days_before_year (y + 1) = days_before_year y + 365 + leap_day y"
proof -
  have sub: "y mod 400 = 0 \<Longrightarrow> y mod 100 = 0" "y mod 100 = 0 \<Longrightarrow> y mod 4 = 0"
    using mod_mod_cancel [of 100 400 y] mod_mod_cancel [of 4 100 y] by simp_all
  have gen: "365 * y + A - B + C = 365 * (y - 1) + A' - B' + C' + 365 + (if P \<and> (\<not> Q \<or> R) then 1 else 0)"
    if "A - A' = (if P then 1 else 0)" "B - B' = (if Q then 1 else 0)" "C - C' = (if R then 1 else 0)"
      "R \<Longrightarrow> Q" "Q \<Longrightarrow> P" for A A' B B' C C' :: int and P Q R
    using that by (auto split: if_splits)
  have "days_before_year (y + 1) = 365 * y + y div 4 - y div 100 + y div 400"
    by (simp add: days_before_year_def)
  also have "\<dots> = days_before_year y + 365
      + (if y mod 4 = 0 \<and> (y mod 100 \<noteq> 0 \<or> y mod 400 = 0) then 1 else 0)"
    unfolding days_before_year_def
    by (rule gen [OF div_pred [of 4 y] div_pred [of 100 y] div_pred [of 400 y] sub]) simp_all
  finally show ?thesis unfolding leap_day_def is_leap_def .
qed

lemma leap_day_bounds: "0 \<le> leap_day y" "leap_day y \<le> 1"
  by (auto simp: leap_day_def)

lemma days_before_year_mono: "y \<le> z \<Longrightarrow> days_before_year y \<le> days_before_year z"
proof (induction z rule: int_ge_induct)
  case (step z)
  then show ?case using leap_day_bounds [of z] by (simp add: days_before_year_Suc)
qed simp

lemma days_before_year_strict:
  assumes "y < z"
  shows "days_before_year y + 365 + leap_day y \<le> days_before_year z"
  using days_before_year_mono [of "y + 1" z] assms by (simp add: days_before_year_Suc)

lemma days_before_year_decomp:
  assumes "0 \<le> c" "c \<le> 3" "0 \<le> q" "q \<le> 24" "0 \<le> b" "b \<le> 3"
  shows "days_before_year (400 * a + 100 * c + 4 * q + b + 1)
    = 146097 * a + 36524 * c + 1461 * q + 365 * b"
proof -
  let ?w = "400 * a + 100 * c + 4 * q + b"
  have "?w div 4 = 100 * a + 25 * c + q"
    by (rule int_div_pos_eq [where r = b]) (use assms in simp_all)
  moreover have "?w div 100 = 4 * a + c"
    by (rule int_div_pos_eq [where r = "4 * q + b"]) (use assms in simp_all)
  moreover have "?w div 400 = a"
    by (rule int_div_pos_eq [where r = "100 * c + 4 * q + b"]) (use assms in simp_all)
  ultimately show ?thesis by (simp add: days_before_year_def)
qed

lemma leap_day_decomp:
  assumes "0 \<le> c" "c \<le> 3" "0 \<le> q" "q \<le> 24"
  shows "leap_day (400 * a + 100 * c + 4 * q + 3 + 1) = (if q = 24 \<and> c \<noteq> 3 then 0 else 1)"
proof -
  define y where "y = 400 * a + 100 * c + 4 * q + 4"
  have "y = 4 * (100 * a + 25 * c + q + 1)" by (simp add: y_def)
  then have "y mod 4 = 0" by (metis mod_mult_self1_is_0)
  moreover have "y mod 100 = 0 \<longleftrightarrow> q = 24"
  proof -
    have "y = (4 * q + 4) + 100 * (4 * a + c)" by (simp add: y_def)
    then have "y mod 100 = (4 * q + 4) mod 100" by (metis mod_mult_self2)
    moreover have "4 * q + 4 = 100 \<or> 0 < 4 * q + 4 \<and> 4 * q + 4 < 100" "4 * q + 4 = 100 \<longleftrightarrow> q = 24"
      using assms by linarith+
    ultimately show ?thesis by (metis mod_pos_pos_trivial mod_self less_imp_le less_irrefl)
  qed
  moreover have "y mod 400 = 0 \<longleftrightarrow> q = 24 \<and> c = 3"
  proof -
    have "y = (100 * c + 4 * q + 4) + 400 * a" by (simp add: y_def)
    then have "y mod 400 = (100 * c + 4 * q + 4) mod 400" by (metis mod_mult_self2)
    moreover have "100 * c + 4 * q + 4 = 400 \<or> 0 < 100 * c + 4 * q + 4 \<and> 100 * c + 4 * q + 4 < 400"
      "100 * c + 4 * q + 4 = 400 \<longleftrightarrow> q = 24 \<and> c = 3"
      using assms by linarith+
    ultimately show ?thesis by (metis mod_pos_pos_trivial mod_self less_imp_le less_irrefl)
  qed
  ultimately have "leap_day y = (if q = 24 \<and> c \<noteq> 3 then 0 else 1)" by (simp add: leap_day_def is_leap_def)
  then show ?thesis by (simp add: y_def add.assoc)
qed

text \<open>The quotient capped at 3, and the rest: one cycle step of \<open>year_yday\<close>.\<close>

lemma capped_div:
  fixes r k :: int
  assumes "0 < k" and "0 \<le> r" and "r < 4 * k + e" and "0 \<le> e"
  defines "c \<equiv> min 3 (r div k)"
  shows "0 \<le> c" and "c \<le> 3" and "0 \<le> r - k * c" and "r - k * c < k + e"
    and "c \<noteq> 3 \<Longrightarrow> r - k * c < k"
proof -
  have d: "r = k * (r div k) + r mod k" "0 \<le> r mod k" "r mod k < k" "0 \<le> r div k"
    using assms(1,2) by (simp_all add: pos_imp_zdiv_nonneg_iff)
  have "0 \<le> c \<and> c \<le> 3 \<and> 0 \<le> r - k * c \<and> r - k * c < k + e \<and> (c \<noteq> 3 \<longrightarrow> r - k * c < k)"
  proof (cases "r div k \<le> 3")
    case True
    then have "c = r div k" by (simp add: c_def)
    with d True assms(4) show ?thesis by (simp add: minus_mult_div_eq_mod)
  next
    case False
    then have "c = 3" by (simp add: c_def)
    moreover have "k * 3 \<le> k * (r div k)" using False assms(1) by (intro mult_left_mono) auto
    then have "k * 3 \<le> r" using d(1,2) by linarith
    ultimately show ?thesis using assms(3) by simp
  qed
  then show "0 \<le> c" "c \<le> 3" "0 \<le> r - k * c" "r - k * c < k + e" "c \<noteq> 3 \<Longrightarrow> r - k * c < k"
    by blast+
qed

lemma year_yday:
  assumes "year_yday n = (y, k)"
  shows "n = days_before_year y + k" and "0 \<le> k" and "k < 365 + leap_day y"
proof -
  define a where "a = n div 146097"
  define r where "r = n mod 146097"
  define c where "c = min 3 (r div 36524)"
  define r2 where "r2 = r - 36524 * c"
  define q where "q = r2 div 1461"
  define r3 where "r3 = r2 mod 1461"
  define b where "b = min 3 (r3 div 365)"
  have "year_yday n = (400 * a + 100 * c + 4 * q + b + 1, r3 - 365 * b)"
    by (simp only: year_yday_def Let_def a_def r_def c_def r2_def q_def r3_def b_def)
  then have y: "y = 400 * a + 100 * c + 4 * q + b + 1" and k: "k = r3 - 365 * b"
    using assms by simp_all
  have n: "n = 146097 * a + r" by (simp add: a_def r_def)
  have r: "0 \<le> r" "r < 146097" by (simp_all add: r_def)
  have c: "0 \<le> c" "c \<le> 3" "0 \<le> r2" "r2 < 36525" "c \<noteq> 3 \<Longrightarrow> r2 < 36524"
    using capped_div [of 36524 r 1] r by (simp_all add: c_def r2_def)
  have r2: "r2 = 1461 * q + r3" by (simp add: q_def r3_def)
  have r3: "0 \<le> r3" "r3 < 1461" by (simp_all add: r3_def)
  have q: "0 \<le> q" "q \<le> 24" using c r2 r3 by linarith+
  have b: "0 \<le> b" "b \<le> 3" "0 \<le> k" "b \<noteq> 3 \<Longrightarrow> k < 365" "b = 3 \<Longrightarrow> k < 366"
    using capped_div [of 365 r3 1] r3 by (simp_all add: b_def k)
  show "n = days_before_year y + k"
    using days_before_year_decomp [OF c(1,2) q b(1,2), of a] n r2
    by (simp add: y k r2_def)
  show "0 \<le> k" by (rule b)
  show "k < 365 + leap_day y"
  proof (cases "b = 3")
    case False
    with b leap_day_bounds [of y] show ?thesis by linarith
  next
    case True
    with leap_day_decomp [OF c(1,2) q, of a] have l: "leap_day y = (if q = 24 \<and> c \<noteq> 3 then 0 else 1)"
      by (simp add: y)
    show ?thesis
    proof (cases "q = 24 \<and> c \<noteq> 3")
      case True
      with c r2 k \<open>b = 3\<close> l show ?thesis by simp
    next
      case False
      with b True l show ?thesis by simp
    qed
  qed
qed

subsection \<open>Months and dates\<close>

lemma month_of_yday:
  assumes "0 \<le> k" and "k < 365 + leap_day y"
  shows "1 \<le> month_of_yday y k" and "month_of_yday y k \<le> 12"
    and "days_before_month y (month_of_yday y k) \<le> k"
    and "k < days_before_month y (month_of_yday y k) + days_in_month y (month_of_yday y k)"
  using assms leap_day_bounds [of y]
  by (simp_all add: month_of_yday_def days_before_month_def days_in_month_def Let_def)

lemma month_of_yday_count:
  "month_of_yday y k = 1 + (if 31 \<le> k then 1 else 0)
     + (\<Sum>b \<leftarrow> [59, 90, 120, 151, 181, 212, 243, 273, 304, 334]. if b + leap_day y \<le> k then 1 else 0)"
  using leap_day_bounds [of y] by (simp add: month_of_yday_def Let_def)

lemma month_of_yday_mono: "k \<le> k' \<Longrightarrow> month_of_yday y k \<le> month_of_yday y k'"
  unfolding month_of_yday_count by (intro add_mono sum_list_mono) auto

lemma civil_of_days:
  assumes "civil_of_days n = (y, m, d)"
  shows "days_of_civil y m d = n" and "1 \<le> m" and "m \<le> 12" and "1 \<le> d" and "d \<le> days_in_month y m"
proof -
  obtain k where yk: "year_yday n = (y, k)"
    using assms by (auto simp: civil_of_days_def Let_def split: prod.splits)
  with assms have m: "m = month_of_yday y k" and d: "d = k - days_before_month y m + 1"
    by (auto simp: civil_of_days_def Let_def)
  note y = year_yday [OF yk]
  note mm = month_of_yday [OF y(2,3)]
  show "days_of_civil y m d = n" using y(1) by (simp add: days_of_civil_def d)
  show "1 \<le> m" "m \<le> 12" using mm by (simp_all add: m)
  show "1 \<le> d" "d \<le> days_in_month y m" using mm by (simp_all add: d m)
qed

lemma days_in_month_le: "days_in_month y m \<le> 31"
  using leap_day_bounds [of y] by (simp add: days_in_month_def)

text \<open>The date of a later day is lexicographically later.\<close>

lemma civil_of_days_mono:
  assumes "n < n'" and "civil_of_days n = (y, m, d)" and "civil_of_days n' = (y', m', d')"
  shows "y < y' \<or> y = y' \<and> (m < m' \<or> m = m' \<and> d < d')"
proof -
  obtain k k' where yk: "year_yday n = (y, k)" "year_yday n' = (y', k')"
    using assms by (auto simp: civil_of_days_def Let_def split: prod.splits)
  with assms have m: "m = month_of_yday y k" "m' = month_of_yday y' k'"
    and d: "d = k - days_before_month y m + 1" "d' = k' - days_before_month y' m' + 1"
    by (auto simp: civil_of_days_def Let_def)
  note y = year_yday [OF yk(1)] year_yday [OF yk(2)]
  have "y \<le> y'"
    using days_before_year_strict [of y' y] y assms(1) by linarith
  moreover have "m \<le> m' \<and> (m = m' \<longrightarrow> d < d')" if "y = y'"
    using y assms(1) that month_of_yday_mono [of k k' y] by (auto simp: m d)
  ultimately show ?thesis by linarith
qed

lemma civil_of_days_year:
  assumes "0 \<le> n" and "n < 3652059" and "civil_of_days n = (y, m, d)"
  shows "1 \<le> y" and "y \<le> 9999"
proof -
  obtain k where yk: "year_yday n = (y, k)"
    using assms by (auto simp: civil_of_days_def Let_def split: prod.splits)
  note y = year_yday [OF yk]
  show "1 \<le> y"
  proof (rule ccontr)
    assume "\<not> 1 \<le> y"
    then have "days_before_year y + 365 + leap_day y \<le> days_before_year 1"
      by (intro days_before_year_strict) simp
    also have "days_before_year 1 = 0" by (simp add: days_before_year_def)
    finally show False using y assms(1) by linarith
  qed
  show "y \<le> 9999"
  proof (rule ccontr)
    assume "\<not> y \<le> 9999"
    then have "days_before_year 10000 \<le> days_before_year y"
      by (intro days_before_year_mono) simp
    moreover have "days_before_year 10000 = 3652059" by (simp add: days_before_year_def)
    ultimately show False using y assms(2) by linarith
  qed
qed

section \<open>Digits\<close>

definition digit :: "nat \<Rightarrow> char" where
  "digit n = char_of (48 + n)"

definition is_digit :: "char \<Rightarrow> bool" where
  "is_digit c \<longleftrightarrow> 48 \<le> (of_char c :: nat) \<and> (of_char c :: nat) \<le> 57"

definition digit_val :: "char \<Rightarrow> nat" where
  "digit_val c = of_char c - 48"

text \<open>Exactly \<open>w\<close> decimal digits, and decimal digits as many as needed.\<close>

primrec pad :: "nat \<Rightarrow> nat \<Rightarrow> string" where
  "pad 0 n = []"
| "pad (Suc w) n = pad w (n div 10) @ [digit (n mod 10)]"

fun decimal :: "nat \<Rightarrow> string" where
  "decimal n = (if n < 10 then [digit n] else decimal (n div 10) @ [digit (n mod 10)])"

declare decimal.simps [simp del]

definition pad_min :: "nat \<Rightarrow> nat \<Rightarrow> string" where
  "pad_min w n = (if n < 10 ^ w then pad w n else decimal n)"

definition fmt_year :: "int \<Rightarrow> string" where
  "fmt_year y = (if y < 0 then ''-'' @ pad_min 4 (nat (- y)) else pad_min 4 (nat y))"

lemma of_char_digit: "n < 10 \<Longrightarrow> of_char (digit n) = 48 + n"
  by (simp add: digit_def)

lemma digit_simps [simp]:
  assumes "n < 10"
  shows "is_digit (digit n)" and "digit_val (digit n) = n"
  using assms by (simp_all add: is_digit_def digit_val_def of_char_digit)

lemma digit_less: "a < 10 \<Longrightarrow> b < 10 \<Longrightarrow> digit a < digit b \<longleftrightarrow> a < b"
  by (simp add: less_char_def of_char_digit)

lemma digit_eq: "a < 10 \<Longrightarrow> b < 10 \<Longrightarrow> digit a = digit b \<longleftrightarrow> a = b"
  by (metis digit_simps(2))

lemma length_pad [simp]: "length (pad w n) = w"
  by (induction w arbitrary: n) auto

lemma append_less_append:
  fixes xs ys :: "'a::linorder list"
  assumes "length xs = length ys"
  shows "xs @ us < ys @ vs \<longleftrightarrow> xs < ys \<or> xs = ys \<and> us < vs"
  using assms by (induction xs ys rule: list_induct2) auto

lemma append_less_appendI:
  fixes xs ys :: "'a::linorder list"
  shows "xs < ys \<Longrightarrow> length xs = length ys \<Longrightarrow> xs @ us < ys @ vs"
  by (simp add: append_less_append)

lemma pad_less: "a < 10 ^ w \<Longrightarrow> b < 10 ^ w \<Longrightarrow> a < b \<Longrightarrow> pad w a < pad w b"
proof (induction w arbitrary: a b)
  case (Suc w)
  show ?case
  proof (cases "a div 10 = b div 10")
    case True
    then have "a mod 10 < b mod 10" using Suc.prems(3) by (metis div_mult_mod_eq nat_add_left_cancel_less)
    with True show ?thesis by (simp add: append_less_append digit_less)
  next
    case False
    then have "a div 10 < b div 10" using Suc.prems(3) by (meson div_le_mono le_neq_implies_less less_imp_le)
    then have "pad w (a div 10) < pad w (b div 10)" using Suc by simp
    then show ?thesis by (simp add: append_less_append)
  qed
qed simp

section \<open>RFC 3339 text\<close>

text \<open>\<open>t.Format("2006-01-02")\<close> and \<open>t.Format(time.RFC3339)\<close> of a UTC time.\<close>

definition fmt_date :: "int \<times> int \<times> int \<Rightarrow> string" where
  "fmt_date = (\<lambda>(y, m, d). fmt_year y @ ''-'' @ pad 2 (nat m) @ ''-'' @ pad 2 (nat d))"

definition fmt_day :: "time \<Rightarrow> string" where
  "fmt_day t = fmt_date (civil_of_days (day_number t))"

definition fmt_hms :: "int \<Rightarrow> int \<Rightarrow> int \<Rightarrow> string" where
  "fmt_hms h m s = pad 2 (nat h) @ '':'' @ pad 2 (nat m) @ '':'' @ pad 2 (nat s)"

definition fmt_clock :: "int \<Rightarrow> string" where
  "fmt_clock s = fmt_hms (s div 3600) (s div 60 mod 60) (s mod 60)"

definition fmt_rfc3339 :: "time \<Rightarrow> string" where
  "fmt_rfc3339 t = fmt_day t @ ''T'' @ fmt_clock (sec_of_day t) @ ''Z''"

text \<open>The times of the years 1 to 9999.\<close>

definition fmt_range :: "time \<Rightarrow> bool" where
  "fmt_range t \<longleftrightarrow> 0 \<le> t \<and> t < 3652059 * (86400 * ns_per_sec)"

lemma fmt_range_day: "fmt_range t \<Longrightarrow> 0 \<le> day_number t \<and> day_number t < 3652059"
proof -
  assume "fmt_range t"
  then have "0 \<le> t" "t < 3652059 * 86400000000000"
    by (simp_all add: fmt_range_def ns_per_sec_def)
  moreover have "t = t div 86400000000000 * 86400000000000 + t mod 86400000000000"
    "0 \<le> t mod 86400000000000" "t mod 86400000000000 < 86400000000000" by simp_all
  ultimately have "0 \<le> t div 86400000000000 \<and> t div 86400000000000 < 3652059" by linarith
  then show ?thesis by (simp add: day_number_def ns_per_sec_def)
qed

lemma sec_of_day_bounds: "0 \<le> sec_of_day t" "sec_of_day t < 86400"
  by (simp_all add: sec_of_day_def)

lemma second_number: "t div ns_per_sec = 86400 * day_number t + sec_of_day t"
proof -
  have "day_number t = t div ns_per_sec div 86400"
    by (simp add: day_number_def ns_per_sec_def div_mult2_eq' flip: zdiv_zmult2_eq)
  then show ?thesis by (simp add: sec_of_day_def)
qed

subsection \<open>Monotonicity\<close>

lemma fmt_year_pad: "1 \<le> y \<Longrightarrow> y \<le> 9999 \<Longrightarrow> fmt_year y = pad 4 (nat y) \<and> nat y < 10 ^ 4"
  by (simp add: fmt_year_def pad_min_def nat_less_iff)

lemma length_fmt_year [simp]: "1 \<le> y \<Longrightarrow> y \<le> 9999 \<Longrightarrow> length (fmt_year y) = 4"
  by (simp add: fmt_year_pad)

lemma length_fmt_date: "1 \<le> y \<Longrightarrow> y \<le> 9999 \<Longrightarrow> length (fmt_date (y, m, d)) = 10"
  by (simp add: fmt_date_def)

lemma fmt_year_less:
  assumes "1 \<le> y" "y' \<le> 9999" "y < y'"
  shows "fmt_year y < fmt_year y'"
proof -
  have "pad 4 (nat y) < pad 4 (nat y')"
    using assms fmt_year_pad [of y] fmt_year_pad [of y'] by (intro pad_less) auto
  with assms show ?thesis using fmt_year_pad [of y] fmt_year_pad [of y'] by simp
qed

lemma fmt_date_less:
  assumes "1 \<le> y" "y' \<le> 9999" "1 \<le> m" "m' \<le> 12" "1 \<le> d" "d' \<le> 31" "m \<le> 12" "1 \<le> m'"
    and lex: "y < y' \<or> y = y' \<and> (m < m' \<or> m = m' \<and> d < d')"
  shows "fmt_date (y, m, d) < fmt_date (y', m', d')"
proof -
  have l: "length (fmt_year y) = length (fmt_year y')"
    using assms by auto
  have "m < m' \<Longrightarrow> pad 2 (nat m) < pad 2 (nat m')"
    "d < d' \<Longrightarrow> pad 2 (nat d) < pad 2 (nat d')"
    using assms by (auto intro!: pad_less)
  with lex fmt_year_less [of y y'] assms show ?thesis
    by (auto simp: fmt_date_def append_less_append [OF l] append_less_append)
qed

lemma civil_facts:
  assumes "fmt_range t"
  obtains y m d where "civil_of_days (day_number t) = (y, m, d)"
    "days_of_civil y m d = day_number t"
    "1 \<le> y" "y \<le> 9999" "1 \<le> m" "m \<le> 12" "1 \<le> d" "d \<le> days_in_month y m" "d \<le> 31"
proof -
  obtain y m d where c: "civil_of_days (day_number t) = (y, m, d)"
    by (metis prod_cases3)
  show ?thesis
    using that [OF c civil_of_days(1) [OF c]] civil_of_days [OF c] days_in_month_le [of y m]
      civil_of_days_year [OF _ _ c] fmt_range_day [OF assms] by fastforce
qed

lemma fmt_day_less:
  assumes "fmt_range t" "fmt_range u" "day_number t < day_number u"
  shows "fmt_day t < fmt_day u"
proof -
  obtain y m d where t: "civil_of_days (day_number t) = (y, m, d)"
    "1 \<le> y" "y \<le> 9999" "1 \<le> m" "m \<le> 12" "1 \<le> d" "d \<le> 31"
    using assms(1) by (rule civil_facts)
  obtain y' m' d' where u: "civil_of_days (day_number u) = (y', m', d')"
    "1 \<le> y'" "y' \<le> 9999" "1 \<le> m'" "m' \<le> 12" "1 \<le> d'" "d' \<le> 31"
    using assms(2) by (rule civil_facts)
  from civil_of_days_mono [OF assms(3) t(1) u(1)] t u show ?thesis
    by (simp add: fmt_day_def fmt_date_less)
qed

lemma length_fmt_day: "fmt_range t \<Longrightarrow> length (fmt_day t) = 10"
  by (erule civil_facts) (simp add: fmt_day_def length_fmt_date)

lemma fmt_day_eq:
  assumes "fmt_range t" "fmt_range u"
  shows "fmt_day t = fmt_day u \<longleftrightarrow> day_number t = day_number u"
  using fmt_day_less [OF assms] fmt_day_less [OF assms(2,1)]
  by (metis fmt_day_def less_irrefl linorder_neqE)

lemma hms:
  fixes s :: int
  shows "s = 3600 * (s div 3600) + 60 * (s div 60 mod 60) + s mod 60"
proof -
  have "s div 3600 = s div 60 div 60" by (simp flip: zdiv_zmult2_eq)
  moreover have "s = 60 * (s div 60) + s mod 60" "s div 60 = 60 * (s div 60 div 60) + s div 60 mod 60"
    by simp_all
  ultimately show ?thesis by linarith
qed

lemma pad2_less: "0 \<le> a \<Longrightarrow> a < b \<Longrightarrow> b < 100 \<Longrightarrow> pad 2 (nat a) < pad 2 (nat b)"
  by (rule pad_less) auto

lemma fmt_hms_less:
  assumes "3600 * h + 60 * m + x < 3600 * h' + 60 * m' + x'"
    and "0 \<le> h" "h' < 24" "0 \<le> m" "m < 60" "0 \<le> x" "x < 60"
    and "0 \<le> m'" "m' < 60" "0 \<le> x'" "x' < 60"
  shows "fmt_hms h m x < fmt_hms h' m' x'"
proof -
  have "h < h' \<or> h = h' \<and> m < m' \<or> h = h' \<and> m = m' \<and> x < x'"
    using assms by linarith
  with assms pad2_less [of h h'] pad2_less [of m m'] pad2_less [of x x'] show ?thesis
    by (auto simp: fmt_hms_def append_less_append)
qed

lemma fmt_clock_less:
  assumes "0 \<le> s" "s < s'" "s' < 86400"
  shows "fmt_clock s < fmt_clock s'"
  unfolding fmt_clock_def
proof (rule fmt_hms_less)
  show "3600 * (s div 3600) + 60 * (s div 60 mod 60) + s mod 60
      < 3600 * (s' div 3600) + 60 * (s' div 60 mod 60) + s' mod 60"
    using assms(2) by (simp only: flip: hms)
  show "0 \<le> s div 3600" "s' div 3600 < 24" using assms by linarith+
qed simp_all

lemma length_fmt_clock [simp]: "length (fmt_clock s) = 8"
  by (simp add: fmt_clock_def fmt_hms_def)

lemma fmt_rfc3339_less_imp:
  assumes "fmt_range t" "fmt_range u" "t div ns_per_sec < u div ns_per_sec"
  shows "fmt_rfc3339 t < fmt_rfc3339 u"
proof (cases "day_number t < day_number u")
  case True
  with assms show ?thesis
    by (simp add: fmt_rfc3339_def append_less_append length_fmt_day fmt_day_less)
next
  case False
  with assms(3) have d: "day_number t = day_number u" "sec_of_day t < sec_of_day u"
    using sec_of_day_bounds [of t] sec_of_day_bounds [of u] second_number [of t] second_number [of u]
    by linarith+
  then have "fmt_day t = fmt_day u" by (simp add: fmt_day_def)
  moreover have "fmt_clock (sec_of_day t) < fmt_clock (sec_of_day u)"
    using d sec_of_day_bounds by (intro fmt_clock_less)
  ultimately show ?thesis by (simp add: fmt_rfc3339_def append_less_append)
qed

lemma fmt_rfc3339_cong: "t div ns_per_sec = u div ns_per_sec \<Longrightarrow> fmt_rfc3339 t = fmt_rfc3339 u"
proof -
  assume "t div ns_per_sec = u div ns_per_sec"
  then have e: "86400 * day_number t + sec_of_day t = 86400 * day_number u + sec_of_day u"
    by (simp only: second_number)
  then have "day_number t = day_number u"
    using sec_of_day_bounds [of t] sec_of_day_bounds [of u] by linarith
  with e show ?thesis by (simp add: fmt_rfc3339_def fmt_day_def)
qed

lemma fmt_rfc3339_less:
  assumes "fmt_range t" "fmt_range u"
  shows "fmt_rfc3339 t < fmt_rfc3339 u \<longleftrightarrow> t div ns_per_sec < u div ns_per_sec"
  using fmt_rfc3339_less_imp [OF assms] fmt_rfc3339_less_imp [OF assms(2,1)] fmt_rfc3339_cong
  by (metis less_asym linorder_neqE less_irrefl)

lemma fmt_rfc3339_le:
  assumes "fmt_range t" "fmt_range u"
  shows "fmt_rfc3339 t \<le> fmt_rfc3339 u \<longleftrightarrow> t div ns_per_sec \<le> u div ns_per_sec"
  using fmt_rfc3339_less [OF assms(2,1)] by (metis leD leI)

lemma fmt_rfc3339_eq:
  assumes "fmt_range t" "fmt_range u"
  shows "fmt_rfc3339 t = fmt_rfc3339 u \<longleftrightarrow> t div ns_per_sec = u div ns_per_sec"
  using fmt_rfc3339_less [OF assms] fmt_rfc3339_less [OF assms(2,1)] fmt_rfc3339_cong
  by (metis less_irrefl linorder_neqE)

subsection \<open>Parsing\<close>

text \<open>
  \<open>time.Parse(time.RFC3339, s)\<close>: a four-digit year, two-digit month and day, an hour of one
  or two digits, two-digit minute and second, an optional fraction after \<open>.\<close> or \<open>,\<close> (cut to
  nanoseconds), and \<open>Z\<close> or an offset \<open>+hh:mm\<close>. Nothing may follow.
\<close>

definition guard_ok :: "bool \<Rightarrow> unit option" where
  "guard_ok b = (if b then Some () else None)"

fun num2 :: "bool \<Rightarrow> string \<Rightarrow> (nat \<times> string) option" where
  "num2 fixed [] = None"
| "num2 fixed [c] = (if is_digit c \<and> \<not> fixed then Some (digit_val c, []) else None)"
| "num2 fixed (c # d # r) =
     (if \<not> is_digit c then None
      else if is_digit d then Some (10 * digit_val c + digit_val d, r)
      else if fixed then None else Some (digit_val c, d # r))"

fun num4 :: "string \<Rightarrow> (nat \<times> string) option" where
  "num4 (a # b # c # d # r) =
     (if is_digit a \<and> is_digit b \<and> is_digit c \<and> is_digit d
      then Some (1000 * digit_val a + 100 * digit_val b + 10 * digit_val c + digit_val d, r)
      else None)"
| "num4 _ = None"

fun lit :: "char \<Rightarrow> string \<Rightarrow> string option" where
  "lit c (x # xs) = (if x = c then Some xs else None)"
| "lit c [] = None"

definition digits_val :: "string \<Rightarrow> nat" where
  "digits_val ds = foldl (\<lambda>n c. 10 * n + digit_val c) 0 ds"

definition parse_frac :: "string \<Rightarrow> nat \<times> string" where
  "parse_frac r = (case r of
       p # d # _ \<Rightarrow>
         if (p = CHR ''.'' \<or> p = CHR '','') \<and> is_digit d
         then let ds = takeWhile is_digit (tl r); used = take 9 ds
              in (digits_val used * 10 ^ (9 - length used), drop (length ds) (tl r))
         else (0, r)
     | _ \<Rightarrow> (0, r))"

definition parse_zone :: "string \<Rightarrow> (int \<times> string) option" where
  "parse_zone r = (case r of
       [] \<Rightarrow> None
     | c # r1 \<Rightarrow>
         if c = CHR ''Z'' then Some (0, r1)
         else if c = CHR ''+'' \<or> c = CHR ''-'' then do {
           (h, r2) \<leftarrow> num2 True r1;
           r3 \<leftarrow> lit (CHR '':'') r2;
           (m, r4) \<leftarrow> num2 True r3;
           guard_ok (h \<le> 24 \<and> m \<le> 60);
           Some ((if c = CHR ''+'' then 1 else - 1) * (int h * 60 + int m) * 60, r4)
         } else None)"

definition civil_time :: "int \<Rightarrow> int \<Rightarrow> int \<Rightarrow> int \<Rightarrow> int \<Rightarrow> int \<Rightarrow> time" where
  "civil_time y mo d h mi s =
     (86400 * days_of_civil y mo d + (3600 * h + 60 * mi + s)) * ns_per_sec"

definition parse_rfc3339 :: "string \<Rightarrow> time option" where
  "parse_rfc3339 s0 = do {
     (y, s1) \<leftarrow> num4 s0;
     s2 \<leftarrow> lit (CHR ''-'') s1;
     (mo, s3) \<leftarrow> num2 True s2;
     guard_ok (1 \<le> mo \<and> mo \<le> 12);
     s4 \<leftarrow> lit (CHR ''-'') s3;
     (d, s5) \<leftarrow> num2 True s4;
     s6 \<leftarrow> lit (CHR ''T'') s5;
     (h, s7) \<leftarrow> num2 False s6;
     guard_ok (h < 24);
     s8 \<leftarrow> lit (CHR '':'') s7;
     (mi, s9) \<leftarrow> num2 True s8;
     guard_ok (mi < 60);
     s10 \<leftarrow> lit (CHR '':'') s9;
     (sec, s11) \<leftarrow> num2 True s10;
     guard_ok (sec < 60);
     let (ns, s12) = parse_frac s11 in do {
       (off, s13) \<leftarrow> parse_zone s12;
       guard_ok (s13 = []);
       guard_ok (1 \<le> d \<and> int d \<le> days_in_month (int y) (int mo));
       Some (civil_time (int y) (int mo) (int d) (int h) (int mi) (int sec) + int ns - off * ns_per_sec)
     }
   }"

text \<open>The zero time on a parse error, as in \<open>t, _ := time.Parse(...)\<close>.\<close>

definition parse_or_zero :: "string \<Rightarrow> time" where
  "parse_or_zero s = (case parse_rfc3339 s of Some t \<Rightarrow> t | None \<Rightarrow> zero_time)"

lemma pad2: "n < 100 \<Longrightarrow> pad 2 n = [digit (n div 10), digit (n mod 10)]"
  by (simp add: numeral_2_eq_2)

lemma pad4:
  assumes "n < 10000"
  shows "pad 4 n = [digit (n div 10 div 10 div 10), digit (n div 10 div 10 mod 10),
      digit (n div 10 mod 10), digit (n mod 10)]"
    and "n div 10 div 10 div 10 < 10"
proof -
  have "n div 10 < 1000" using assms by (intro less_mult_imp_div_less) simp
  then have "n div 10 div 10 < 100" by (intro less_mult_imp_div_less) simp
  then show less: "n div 10 div 10 div 10 < 10" by (intro less_mult_imp_div_less) simp
  have four: "(4::nat) = Suc (Suc (Suc (Suc 0)))" by simp
  show "pad 4 n = [digit (n div 10 div 10 div 10), digit (n div 10 div 10 mod 10),
      digit (n div 10 mod 10), digit (n mod 10)]"
    by (simp only: four pad.simps append.simps mod_less [OF less])
qed

lemma num2_pad [simp]: "n < 100 \<Longrightarrow> num2 f (pad 2 n @ r) = Some (n, r)"
  by (simp add: pad2)

lemma num4_pad:
  assumes "n < 10000"
  shows "num4 (pad 4 n @ r) = Some (n, r)"
proof -
  define a where "a = n div 10"
  define b where "b = a div 10"
  have "n = 10 * a + n mod 10" "a = 10 * b + a mod 10" "b = 10 * (b div 10) + b mod 10"
    by (simp_all add: a_def b_def)
  then have "1000 * (b div 10) + 100 * (b mod 10) + 10 * (a mod 10) + n mod 10 = n"
    by linarith
  with pad4 [OF assms] show ?thesis by (simp flip: a_def b_def)
qed

lemma guard_ok_simps [simp]: "guard_ok True = Some ()" "guard_ok False = None"
  by (simp_all add: guard_ok_def)

lemma parse_fmt_rfc3339:
  assumes "fmt_range t"
  shows "parse_rfc3339 (fmt_rfc3339 t) = Some (to_second t)"
proof -
  obtain y m d where c: "civil_of_days (day_number t) = (y, m, d)"
    "days_of_civil y m d = day_number t"
    "1 \<le> y" "y \<le> 9999" "1 \<le> m" "m \<le> 12" "1 \<le> d" "d \<le> days_in_month y m" "d \<le> 31"
    using assms by (rule civil_facts)
  define s where "s = sec_of_day t"
  define h mi x where "h = s div 3600" and "mi = s div 60 mod 60" and "x = s mod 60"
  have s: "s = 3600 * h + 60 * mi + x"
    using hms [of s] by (simp add: h_def mi_def x_def)
  have b: "0 \<le> mi" "mi < 60" "0 \<le> x" "x < 60" by (simp_all add: mi_def x_def)
  have hb: "0 \<le> h" "h < 24" using s b sec_of_day_bounds [of t] s_def by linarith+
  have yy: "fmt_year y = pad 4 (nat y)" "nat y < 10000" using fmt_year_pad c by auto
  have nat: "nat m < 100" "nat d < 100" "nat h < 100" "nat mi < 100" "nat x < 100"
    "nat h < 24" "nat mi < 60" "nat x < 60" "1 \<le> nat m" "nat m \<le> 12" "1 \<le> nat d"
    using c b hb by auto
  have "fmt_rfc3339 t = pad 4 (nat y) @ ''-'' @ pad 2 (nat m) @ ''-'' @ pad 2 (nat d)
    @ ''T'' @ pad 2 (nat h) @ '':'' @ pad 2 (nat mi) @ '':'' @ pad 2 (nat x) @ ''Z''"
    by (simp add: fmt_rfc3339_def fmt_day_def fmt_date_def c yy fmt_clock_def fmt_hms_def
      flip: s_def h_def mi_def x_def)
  moreover have "civil_time y m d h mi x = to_second t"
    using second_number [of t] s
    by (simp add: civil_time_def c to_second_def minus_mod_eq_div_mult flip: s_def)
  ultimately show ?thesis using nat c b hb
    by (simp add: parse_rfc3339_def num4_pad [OF yy(2)] parse_frac_def parse_zone_def)
qed

lemma parse_or_zero_fmt: "fmt_range t \<Longrightarrow> parse_or_zero (fmt_rfc3339 t) = to_second t"
  by (simp add: parse_or_zero_def parse_fmt_rfc3339)

lemma to_second_div [simp]: "to_second t div ns_per_sec = t div ns_per_sec"
  by (simp add: to_second_def ns_per_sec_def minus_mod_eq_div_mult)

lemma to_second_range: "fmt_range t \<Longrightarrow> fmt_range (to_second t)"
proof -
  assume "fmt_range t"
  then have "0 \<le> t div ns_per_sec" by (simp add: fmt_range_def ns_per_sec_def pos_imp_zdiv_nonneg_iff)
  moreover have "to_second t = t div ns_per_sec * ns_per_sec"
    by (simp add: to_second_def minus_mod_eq_div_mult)
  moreover have "to_second t \<le> t" by (simp add: to_second_def ns_per_sec_def)
  ultimately show ?thesis using \<open>fmt_range t\<close> by (simp add: fmt_range_def ns_per_sec_def)
qed

lemma fmt_to_second [simp]: "fmt_rfc3339 (to_second t) = fmt_rfc3339 t"
  by (rule fmt_rfc3339_cong) simp

lemma to_second_idem [simp]: "to_second (to_second t) = to_second t"
  by (simp add: to_second_def)

text \<open>Comparing the text is comparing the times cut to the second.\<close>

lemma to_second_le: "to_second t \<le> to_second u \<longleftrightarrow> t div ns_per_sec \<le> u div ns_per_sec"
  by (simp add: to_second_def minus_mod_eq_div_mult ns_per_sec_def)

lemma fmt_le_iff:
  "fmt_range t \<Longrightarrow> fmt_range u \<Longrightarrow> fmt_rfc3339 t \<le> fmt_rfc3339 u \<longleftrightarrow> to_second t \<le> to_second u"
  by (simp add: fmt_rfc3339_le to_second_le)

lemma fmt_less_iff:
  "fmt_range t \<Longrightarrow> fmt_range u \<Longrightarrow> fmt_rfc3339 t < fmt_rfc3339 u \<longleftrightarrow> to_second t < to_second u"
  using fmt_le_iff [of u t] by (simp add: not_le [symmetric])

lemma to_second_mono: "t \<le> u \<Longrightarrow> to_second t \<le> to_second u"
  by (simp add: to_second_le zdiv_mono1 ns_per_sec_def)

end
