(* ===== verification/Float64.thy ===== *)
theory Float64
  imports Prelude
begin

text \<open>
  Go's \<open>float64\<close>: IEEE-754 binary64 with round-to-nearest-even, executable.
  A finite value is kept as the exact rational it stands for (\<open>Fin q\<close>; \<open>Fin 0\<close> is
  \<open>+0\<close>), so \<open>rndq\<close> is the only place where precision is lost. The theory gives

  \<^item> the rounding function (\<open>rne\<close>, \<open>bexp\<close>, \<open>ulp\<close>, \<open>rndq\<close>) and its laws: it is
    monotone, odd, idempotent, exact on short dyadic rationals and accurate to half an ulp;
  \<^item> the operations the program uses (\<open>fadd\<close>, \<open>fsub\<close>, \<open>fmul\<close>, \<open>fdiv\<close>, \<open>fabs\<close>
    and the comparisons), with their infinities, NaN and signed zeros;
  \<^item> the total order \<open>sort.Float64s\<close> sorts by, as an instance of \<open>linorder\<close>.
\<close>

section \<open>Rounding of rationals\<close>

text \<open>Round to the nearest integer, ties to even.\<close>

definition rne :: "rat \<Rightarrow> int" where
  "rne x = (let k = \<lfloor>x\<rfloor>; r = x - of_int k
            in if r < 1/2 \<or> (r = 1/2 \<and> even k) then k else k + 1)"

text \<open>The integer part of the binary logarithm, by repeated halving.\<close>

function ilog2 :: "int \<Rightarrow> nat" where
  "ilog2 n = (if n \<le> 1 then 0 else Suc (ilog2 (n div 2)))"
  by pat_completeness auto
termination
  by (relation "measure nat") auto

declare ilog2.simps [simp del]

text \<open>\<open>bexp x\<close> is the binary exponent of \<open>x\<close>: \<open>2 ^ bexp x \<le> \<bar>x\<bar> < 2 ^ (bexp x + 1)\<close>.\<close>

definition bexp :: "rat \<Rightarrow> int" where
  "bexp x = (let (p, q) = quotient_of \<bar>x\<bar>; e = int (ilog2 p) - int (ilog2 q)
             in if 2 powi e \<le> \<bar>x\<bar> then e else e - 1)"

text \<open>Spacing of binary64 around \<open>x\<close>: 53 significant bits, subnormals from \<open>2 ^ (-1074)\<close>.\<close>

definition ulp_exp :: "rat \<Rightarrow> int" where
  "ulp_exp x = max (bexp x - 52) (- 1074)"

definition ulp :: "rat \<Rightarrow> rat" where
  "ulp x = 2 powi ulp_exp x"

definition rndq :: "rat \<Rightarrow> rat" where
  "rndq x = (if x = 0 then 0 else of_int (rne (x / ulp x)) * ulp x)"

subsection \<open>Rounding to integers\<close>

lemma rne_of_int [simp]: "rne (of_int k) = k"
  by (simp add: rne_def)

lemma rne_zero [simp]: "rne 0 = 0"
  by (simp add: rne_def)

lemma rne_near: "\<bar>of_int (rne x) - x\<bar> \<le> 1/2"
proof -
  have "0 \<le> x - of_int \<lfloor>x\<rfloor>" "x - of_int \<lfloor>x\<rfloor> < 1"
    by linarith+
  then show ?thesis by (auto simp: rne_def Let_def)
qed

lemma rne_mono:
  assumes "x \<le> y"
  shows "rne x \<le> rne y"
proof (cases "\<lfloor>x\<rfloor> = \<lfloor>y\<rfloor>")
  case True
  with assms show ?thesis by (auto simp: rne_def Let_def)
next
  case False
  with assms have "\<lfloor>x\<rfloor> + 1 \<le> \<lfloor>y\<rfloor>"
    using floor_mono [of x y] by linarith
  moreover have "rne x \<le> \<lfloor>x\<rfloor> + 1" "\<lfloor>y\<rfloor> \<le> rne y"
    by (auto simp: rne_def Let_def)
  ultimately show ?thesis by linarith
qed

lemma rne_ge_int: "of_int k \<le> x \<Longrightarrow> k \<le> rne x"
  using rne_mono [of "of_int k" x] by simp

lemma rne_le_int: "x \<le> of_int k \<Longrightarrow> rne x \<le> k"
  using rne_mono [of x "of_int k"] by simp

lemma rne_minus: "rne (- x) = - rne x"
proof (cases "x = of_int \<lfloor>x\<rfloor>")
  case True
  then show ?thesis by (metis of_int_minus rne_of_int)
next
  case False
  then have f: "\<lfloor>- x\<rfloor> = - \<lfloor>x\<rfloor> - 1" by linarith
  have "(- x) - of_int \<lfloor>- x\<rfloor> = 1 - (x - of_int \<lfloor>x\<rfloor>)"
    by (simp add: f)
  then show ?thesis by (auto simp: rne_def Let_def f)
qed

subsection \<open>Binary exponents\<close>

lemma ilog2_bounds: "0 < n \<Longrightarrow> 2 ^ ilog2 n \<le> n \<and> n < 2 * 2 ^ ilog2 n"
proof (induction n rule: ilog2.induct)
  case (1 n)
  show ?case
  proof (cases "n \<le> 1")
    case True
    with 1 show ?thesis by (simp add: ilog2.simps)
  next
    case False
    with 1 have "2 ^ ilog2 (n div 2) \<le> n div 2 \<and> n div 2 < 2 * 2 ^ ilog2 (n div 2)"
      by simp
    with False show ?thesis by (auto simp: ilog2.simps [of n])
  qed
qed

lemma ilog2_bounds_rat:
  assumes "0 < n"
  shows "2 ^ ilog2 n \<le> (of_int n :: rat)" and "of_int n < (2 * 2 ^ ilog2 n :: rat)"
proof -
  have "(of_int (2 ^ ilog2 n) :: rat) \<le> of_int n" "(of_int n :: rat) < of_int (2 * 2 ^ ilog2 n)"
    using ilog2_bounds [OF assms] by (simp_all only: of_int_le_iff of_int_less_iff)
  then show "2 ^ ilog2 n \<le> (of_int n :: rat)" "of_int n < (2 * 2 ^ ilog2 n :: rat)"
    by simp_all
qed

lemma powi2_pos [simp]: "0 < (2::rat) powi e"
  by simp

lemma powi2_mono: "a \<le> b \<Longrightarrow> (2::rat) powi a \<le> 2 powi b"
  by (simp add: power_int_increasing)

lemma powi2_strict: "a < b \<Longrightarrow> (2::rat) powi a < 2 powi b"
  by (simp add: power_int_strict_increasing)

lemma powi2_less_cancel: "(2::rat) powi a < 2 powi b \<Longrightarrow> a < b"
  using powi2_mono [of b a] by (meson leD not_le_imp_less)

lemma powi2_shift: "(2::rat) powi (a + int n) = 2 ^ n * 2 powi a"
  by (simp add: power_int_add)

lemma powi2_Suc: "(2::rat) powi (a + 1) = 2 * 2 powi a"
  by (simp add: power_int_add)

lemma bexp_bounds:
  assumes "x \<noteq> 0"
  shows "2 powi bexp x \<le> \<bar>x\<bar>" and "\<bar>x\<bar> < 2 powi (bexp x + 1)"
proof -
  obtain p q where pq: "quotient_of \<bar>x\<bar> = (p, q)" by fastforce
  then have q: "0 < q" and x: "\<bar>x\<bar> = of_int p / of_int q"
    by (auto dest: quotient_of_denom_pos quotient_of_div)
  from assms x q have p: "0 < p"
    by (metis divide_nonpos_pos leI of_int_0_less_iff of_int_le_0_iff zero_less_abs_iff leD)
  let ?P = "(2::rat) ^ ilog2 p" and ?Q = "(2::rat) ^ ilog2 q"
  define e where "e = int (ilog2 p) - int (ilog2 q)"
  have e: "2 powi e = ?P / ?Q"
    by (simp add: e_def power_int_diff)
  have P: "?P \<le> of_int p" "of_int p < 2 * ?P"
    by (rule ilog2_bounds_rat [OF p])+
  have Q: "?Q \<le> of_int q" "of_int q < 2 * ?Q"
    by (rule ilog2_bounds_rat [OF q])+
  have lo: "2 powi (e - 1) \<le> \<bar>x\<bar>"
  proof -
    have "2 powi (e - 1) = ?P / (2 * ?Q)"
      by (simp add: power_int_diff e)
    also have "\<dots> \<le> of_int p / of_int q"
      using P Q p q by (intro frac_le) auto
    finally show ?thesis by (simp add: x)
  qed
  have hi: "\<bar>x\<bar> < 2 powi (e + 1)"
  proof -
    have "of_int p / of_int q < (2 * ?P) / ?Q"
      using P Q p q by (intro frac_less) auto
    then show ?thesis by (simp add: x e powi2_Suc)
  qed
  show "2 powi bexp x \<le> \<bar>x\<bar>" "\<bar>x\<bar> < 2 powi (bexp x + 1)"
    using lo hi by (auto simp: bexp_def pq Let_def simp flip: e_def)
qed

lemma bexp_unique:
  assumes "2 powi e \<le> \<bar>x\<bar>" and "\<bar>x\<bar> < 2 powi (e + 1)"
  shows "bexp x = e"
proof -
  have "x \<noteq> 0" using assms(1) by (metis abs_zero leD powi2_pos)
  note b = bexp_bounds [OF this]
  have "2 powi e < (2::rat) powi (bexp x + 1)" "2 powi bexp x < (2::rat) powi (e + 1)"
    using assms b by (meson le_less_trans)+
  then show ?thesis by (auto dest!: powi2_less_cancel)
qed

lemma bexp_mono:
  assumes "x \<noteq> 0" and "\<bar>x\<bar> \<le> \<bar>y\<bar>"
  shows "bexp x \<le> bexp y"
proof -
  have "y \<noteq> 0" using assms by auto
  have "(2::rat) powi bexp x < 2 powi (bexp y + 1)"
    using bexp_bounds [OF assms(1)] bexp_bounds [OF \<open>y \<noteq> 0\<close>] assms(2) by linarith
  then show ?thesis by (auto dest!: powi2_less_cancel)
qed

lemma bexp_minus [simp]: "bexp (- x) = bexp x"
  by (simp add: bexp_def)

lemma ulp_minus [simp]: "ulp (- x) = ulp x"
  by (simp add: ulp_def ulp_exp_def)

lemma ulp_pos [simp]: "0 < ulp x"
  by (simp add: ulp_def)

lemma ulp_nonzero [simp]: "ulp x \<noteq> 0"
  using ulp_pos [of x] by (metis less_irrefl)

subsection \<open>The rounding function\<close>

lemma rndq_zero [simp]: "rndq 0 = 0"
  by (simp add: rndq_def)

lemma rndq_minus: "rndq (- x) = - rndq x"
proof -
  have "- x / ulp x = - (x / ulp x)" by simp
  then show ?thesis by (simp only: rndq_def ulp_minus rne_minus) simp
qed

lemma rndq_abs: "rndq \<bar>x\<bar> = \<bar>rndq x\<bar>"
proof -
  have pos: "0 \<le> y \<Longrightarrow> 0 \<le> rndq y" for y
    using rne_ge_int [of 0 "y / ulp y"] by (simp add: rndq_def less_imp_le zero_le_mult_iff)
  show ?thesis
  proof (cases "0 \<le> x")
    case True
    with pos [of x] show ?thesis by simp
  next
    case False
    with pos [of "- x"] show ?thesis by (simp add: rndq_minus)
  qed
qed

lemma rndq_nonneg: "0 \<le> x \<Longrightarrow> 0 \<le> rndq x"
  using rndq_abs [of x] by simp

lemma rndq_nonpos: "x \<le> 0 \<Longrightarrow> rndq x \<le> 0"
  using rndq_nonneg [of "- x"] by (simp add: rndq_minus)

text \<open>A multiple of the spacing separates its two sides.\<close>

lemma rndq_ge_mult:
  assumes "x \<noteq> 0" and "of_int k * ulp x \<le> x"
  shows "of_int k * ulp x \<le> rndq x"
proof -
  have "of_int k \<le> x / ulp x" using assms(2) by (simp add: pos_le_divide_eq)
  then have "k \<le> rne (x / ulp x)" by (rule rne_ge_int)
  then show ?thesis using assms(1) by (simp add: rndq_def)
qed

lemma rndq_le_mult:
  assumes "x \<noteq> 0" and "x \<le> of_int k * ulp x"
  shows "rndq x \<le> of_int k * ulp x"
proof -
  have "x / ulp x \<le> of_int k" using assms(2) by (simp add: pos_divide_le_eq)
  then have "rne (x / ulp x) \<le> k" by (rule rne_le_int)
  then show ?thesis using assms(1) by (simp add: rndq_def)
qed

text \<open>Powers of two at or above the spacing are integer multiples of it.\<close>

lemma powi2_mult_ulp:
  assumes "ulp_exp x \<le> e"
  shows "2 powi e = of_int (2 ^ nat (e - ulp_exp x)) * ulp x"
proof -
  have "(2::rat) powi e = 2 powi (ulp_exp x + int (nat (e - ulp_exp x)))"
    using assms by simp
  also have "\<dots> = 2 ^ nat (e - ulp_exp x) * ulp x"
    by (simp only: powi2_shift ulp_def)
  finally show ?thesis by simp
qed

lemma rndq_mono_pos:
  assumes "0 < x" and "x \<le> y"
  shows "rndq x \<le> rndq y"
proof (cases "ulp_exp x = ulp_exp y")
  case True
  then have u: "ulp x = ulp y" by (simp add: ulp_def)
  have "rne (x / ulp y) \<le> rne (y / ulp y)"
    using assms(2) by (intro rne_mono divide_right_mono) (auto intro: less_imp_le)
  with assms u show ?thesis by (simp add: rndq_def)
next
  case False
  have "bexp x \<le> bexp y" using assms by (intro bexp_mono) auto
  with False have b: "bexp x < bexp y" and uy: "ulp_exp y = bexp y - 52"
    by (auto simp: ulp_exp_def max_def split: if_splits)
  then have ux: "ulp_exp x \<le> bexp y"
    by (auto simp: ulp_exp_def)
  have "\<bar>x\<bar> < 2 powi (bexp x + 1)" using assms by (intro bexp_bounds) auto
  also have "\<dots> \<le> 2 powi bexp y" using b by (intro powi2_mono) auto
  finally have "x \<le> of_int (2 ^ nat (bexp y - ulp_exp x)) * ulp x"
    using powi2_mult_ulp [OF ux] assms by simp
  then have 1: "rndq x \<le> 2 powi bexp y"
    using rndq_le_mult assms(1) powi2_mult_ulp [OF ux] by (metis less_irrefl)
  have "2 powi bexp y \<le> \<bar>y\<bar>" using assms by (intro bexp_bounds) auto
  moreover have uy': "ulp_exp y \<le> bexp y" using uy by simp
  ultimately have "of_int (2 ^ nat (bexp y - ulp_exp y)) * ulp y \<le> y"
    using powi2_mult_ulp [OF uy'] assms by simp
  then have "2 powi bexp y \<le> rndq y"
    using rndq_ge_mult assms powi2_mult_ulp [OF uy'] by (metis leD)
  with 1 show ?thesis by (rule order_trans)
qed

lemma rndq_mono:
  assumes "x \<le> y"
  shows "rndq x \<le> rndq y"
proof -
  consider "0 < x" | "x \<le> 0" "0 \<le> y" | "y < 0" by linarith
  then show ?thesis
  proof cases
    case 1
    with assms show ?thesis by (intro rndq_mono_pos)
  next
    case 2
    then show ?thesis by (meson order_trans rndq_nonneg rndq_nonpos)
  next
    case 3
    with assms have "rndq (- y) \<le> rndq (- x)" by (intro rndq_mono_pos) auto
    then show ?thesis by (simp add: rndq_minus)
  qed
qed

text \<open>The mantissa fits in 53 bits, so rounded values are fixed points.\<close>

lemma mantissa_bound:
  assumes "x \<noteq> 0"
  shows "\<bar>x / ulp x\<bar> < 2 ^ 53"
proof -
  have "\<bar>x\<bar> < 2 powi (bexp x + 1)" using assms by (rule bexp_bounds)
  also have "\<dots> \<le> 2 powi (ulp_exp x + int 53)"
    by (intro powi2_mono) (simp add: ulp_exp_def)
  also have "\<dots> = 2 ^ 53 * ulp x"
    by (simp only: powi2_shift ulp_def)
  finally show ?thesis by (simp add: abs_divide pos_divide_less_eq)
qed

lemma rndq_short:
  assumes "x = of_int k * 2 powi e" and "\<bar>k\<bar> \<le> 2 ^ 53" and "- 1074 \<le> e"
  shows "rndq x = x"
proof (cases "x = 0")
  case False
  have "\<bar>x\<bar> \<le> 2 ^ 53 * 2 powi e"
    using assms(1,2) by (simp add: abs_mult flip: of_int_abs)
  also have "\<dots> = 2 powi (e + 53)" by (simp add: power_int_add)
  finally have "(2::rat) powi bexp x \<le> 2 powi (e + 53)"
    using bexp_bounds(1) [OF False] by linarith
  then have be: "bexp x \<le> e + 53" by (metis leI leD powi2_strict)
  have "\<exists>j. x = of_int j * ulp x"
  proof (cases "ulp_exp x \<le> e")
    case True
    then show ?thesis
      using assms(1) powi2_mult_ulp [OF True] by (metis mult.assoc of_int_mult)
  next
    case False
    with be assms(3) have b: "bexp x = e + 53" and u: "ulp_exp x = e + 1"
      by (auto simp: ulp_exp_def max_def split: if_splits)
    have "2 powi (e + 53) \<le> \<bar>x\<bar>" using bexp_bounds(1) [OF \<open>x \<noteq> 0\<close>] b by simp
    then have "2 ^ 53 * 2 powi e \<le> of_int \<bar>k\<bar> * (2 powi e :: rat)"
      using assms(1) by (simp add: power_int_add abs_mult)
    then have "(2 ^ 53 :: rat) \<le> of_int \<bar>k\<bar>" by simp
    with assms(2) have "\<bar>k\<bar> = 2 ^ 53"
      by (metis numeral_power_le_of_int_cancel_iff order_antisym)
    then have k: "k = (if 0 \<le> k then 2 ^ 52 else - (2 ^ 52)) * 2" by auto
    have "ulp x = 2 * 2 powi e" by (simp add: ulp_def u powi2_Suc)
    then show ?thesis
      using assms(1) k by (metis mult.assoc of_int_mult of_int_numeral)
  qed
  then obtain j where "x / ulp x = of_int j" by (metis nonzero_mult_div_cancel_right ulp_nonzero)
  then have "rne (x / ulp x) = j" by simp
  with False \<open>x / ulp x = of_int j\<close> show ?thesis
    by (simp add: rndq_def) (metis nonzero_eq_divide_eq ulp_nonzero)
qed simp

lemma rndq_form:
  obtains k e where "rndq x = of_int k * 2 powi e" "\<bar>k\<bar> \<le> 2 ^ 53" "- 1074 \<le> e"
proof (cases "x = 0")
  case True
  then show ?thesis using that [of 0 0] by simp
next
  case False
  let ?k = "rne (x / ulp x)"
  have "\<bar>x / ulp x\<bar> < of_int (2 ^ 53)" using mantissa_bound [OF False] by simp
  then have "x / ulp x \<le> of_int (2 ^ 53)" "of_int (- (2 ^ 53)) \<le> x / ulp x"
    unfolding of_int_minus by linarith+
  then have "\<bar>?k\<bar> \<le> 2 ^ 53" using rne_le_int rne_ge_int by (metis abs_leI minus_le_iff)
  moreover have "rndq x = of_int ?k * 2 powi ulp_exp x" using False by (simp add: rndq_def ulp_def)
  ultimately show ?thesis using that by (simp add: ulp_exp_def)
qed

lemma rndq_idem [simp]: "rndq (rndq x) = rndq x"
  by (rule rndq_form [of x]) (metis rndq_short)

lemma rndq_double:
  assumes "rndq q = q"
  shows "rndq (2 * q) = 2 * q"
proof -
  obtain k e where "rndq q = of_int k * 2 powi e" "\<bar>k\<bar> \<le> 2 ^ 53" "- 1074 \<le> e"
    by (rule rndq_form)
  with assms show ?thesis
    by (intro rndq_short [of _ k "e + 1"]) (auto simp: powi2_Suc)
qed

lemma rndq_of_int: "\<bar>k\<bar> \<le> 2 ^ 53 \<Longrightarrow> rndq (of_int k) = of_int k"
  by (rule rndq_short [of _ k 0]) auto

text \<open>Half an ulp of error, and so a relative error of at most \<open>2 ^ (-53)\<close> for normal results.\<close>

lemma rndq_error: "\<bar>rndq x - x\<bar> \<le> ulp x / 2"
proof (cases "x = 0")
  case False
  have "rndq x - x = (of_int (rne (x / ulp x)) - x / ulp x) * ulp x"
    using False by (simp add: rndq_def left_diff_distrib)
  then have "\<bar>rndq x - x\<bar> = \<bar>of_int (rne (x / ulp x)) - x / ulp x\<bar> * ulp x"
    by (simp add: abs_mult less_imp_le)
  also have "\<dots> \<le> 1/2 * ulp x"
    by (intro mult_right_mono rne_near) (simp add: less_imp_le)
  finally show ?thesis by simp
qed (simp add: less_imp_le)

lemma rndq_relative:
  assumes "2 powi (- 1022) \<le> \<bar>x\<bar>"
  shows "\<bar>rndq x - x\<bar> \<le> \<bar>x\<bar> / 2 ^ 53"
proof -
  have "x \<noteq> 0" using assms by (metis abs_zero leD powi2_pos)
  have "(2::rat) powi (- 1022) < 2 powi (bexp x + 1)"
    using assms bexp_bounds(2) [OF \<open>x \<noteq> 0\<close>] by (rule le_less_trans)
  then have "- 1022 < bexp x + 1" by (rule powi2_less_cancel)
  then have "bexp x = ulp_exp x + int 52" by (simp add: ulp_exp_def)
  then have "2 powi bexp x = 2 ^ 52 * ulp x"
    by (simp only: powi2_shift ulp_def)
  with bexp_bounds(1) [OF \<open>x \<noteq> 0\<close>] have "ulp x / 2 \<le> \<bar>x\<bar> / 2 ^ 53" by simp
  with rndq_error [of x] show ?thesis by (rule order_trans)
qed

section \<open>Binary64 values and operations\<close>

datatype f64 = NaN | PInf | NInf | NZero | Fin rat

primrec fval :: "f64 \<Rightarrow> rat" where
  "fval NaN = 0"
| "fval PInf = 0"
| "fval NInf = 0"
| "fval NZero = 0"
| "fval (Fin q) = q"

primrec ffinite :: "f64 \<Rightarrow> bool" where
  "ffinite NaN = False"
| "ffinite PInf = False"
| "ffinite NInf = False"
| "ffinite NZero = True"
| "ffinite (Fin q) = True"

definition finf :: "f64 \<Rightarrow> bool" where
  "finf v \<longleftrightarrow> v = PInf \<or> v = NInf"

text \<open>The sign bit.\<close>

definition fsign :: "f64 \<Rightarrow> bool" where
  "fsign v \<longleftrightarrow> v = NInf \<or> v = NZero \<or> fval v < 0"

text \<open>Results of this size or more overflow; half of it bounds what can be doubled.\<close>

definition f64_lim :: rat where
  "f64_lim = 2 powi 1024"

definition f64_half_lim :: rat where
  "f64_half_lim = 2 powi 1023"

lemma f64_half_lim_double: "f64_lim = 2 * f64_half_lim"
  using powi2_Suc [of 1023] by (simp only: f64_lim_def f64_half_lim_def) simp

lemma f64_lim_code [code]: "f64_lim = 179769313486231590772930519078902473361797697894230657273430081157732675805500963132708477322407536021120113879871393357658789768814416622492847430639474124377767893424865485276302219601246094119453082952085005768838150682342462881473913110540827237163350510684586298239947245938479716304835356329624224137216"
  by (simp add: f64_lim_def)

lemma f64_lim_pos [simp]: "0 < f64_lim" "0 < f64_half_lim"
  by (simp_all only: f64_lim_def f64_half_lim_def powi2_pos)

text \<open>The rationals that are binary64 values, and the values the type is meant to hold.\<close>

definition fin_ok :: "rat \<Rightarrow> bool" where
  "fin_ok q \<longleftrightarrow> rndq q = q \<and> \<bar>q\<bar> < f64_lim"

definition wff :: "f64 \<Rightarrow> bool" where
  "wff v \<longleftrightarrow> fin_ok (fval v)"

text \<open>Round an exact result; the flag is the sign of a result that is or rounds to zero.\<close>

definition mkf :: "bool \<Rightarrow> rat \<Rightarrow> f64" where
  "mkf neg x = (let y = rndq x
     in if y = 0 then (if neg then NZero else Fin 0)
        else if f64_lim \<le> y then PInf
        else if y \<le> - f64_lim then NInf
        else Fin y)"

definition f64_of_int :: "int \<Rightarrow> f64" where
  "f64_of_int n = mkf False (of_int n)"

definition f64_const :: "rat \<Rightarrow> f64" where
  "f64_const q = mkf False q"

definition fneg :: "f64 \<Rightarrow> f64" where
  "fneg v = (case v of NaN \<Rightarrow> NaN | PInf \<Rightarrow> NInf | NInf \<Rightarrow> PInf | NZero \<Rightarrow> Fin 0
     | Fin q \<Rightarrow> if q = 0 then NZero else Fin (- q))"

definition fabs :: "f64 \<Rightarrow> f64" where
  "fabs v = (if fsign v then fneg v else v)"

definition fadd :: "f64 \<Rightarrow> f64 \<Rightarrow> f64" where
  "fadd a b =
     (if a = NaN \<or> b = NaN then NaN
      else if finf a then (if finf b \<and> a \<noteq> b then NaN else a)
      else if finf b then b
      else mkf (a = NZero \<and> b = NZero) (fval a + fval b))"

definition fsub :: "f64 \<Rightarrow> f64 \<Rightarrow> f64" where
  "fsub a b = fadd a (fneg b)"

definition fmul :: "f64 \<Rightarrow> f64 \<Rightarrow> f64" where
  "fmul a b =
     (if a = NaN \<or> b = NaN then NaN
      else if finf a \<or> finf b
        then (if (ffinite a \<and> fval a = 0) \<or> (ffinite b \<and> fval b = 0) then NaN
              else if fsign a = fsign b then PInf else NInf)
      else mkf (fsign a \<noteq> fsign b) (fval a * fval b))"

definition fdiv :: "f64 \<Rightarrow> f64 \<Rightarrow> f64" where
  "fdiv a b =
     (if a = NaN \<or> b = NaN \<or> (finf a \<and> finf b) then NaN
      else if finf a then (if fsign a = fsign b then PInf else NInf)
      else if finf b then (if fsign a = fsign b then Fin 0 else NZero)
      else if fval b = 0
        then (if fval a = 0 then NaN else if fsign a = fsign b then PInf else NInf)
      else mkf (fsign a \<noteq> fsign b) (fval a / fval b))"

text \<open>The comparisons \<open><\<close>, \<open>==\<close> and \<open><=\<close> of Go: false on NaN, blind to the sign of zero.\<close>

primrec frank :: "f64 \<Rightarrow> nat" where
  "frank NaN = 0"
| "frank NInf = 1"
| "frank NZero = 2"
| "frank (Fin q) = 2"
| "frank PInf = 3"

definition flt :: "f64 \<Rightarrow> f64 \<Rightarrow> bool" where
  "flt a b \<longleftrightarrow> a \<noteq> NaN \<and> b \<noteq> NaN
     \<and> (frank a < frank b \<or> frank a = frank b \<and> fval a < fval b)"

definition feq :: "f64 \<Rightarrow> f64 \<Rightarrow> bool" where
  "feq a b \<longleftrightarrow> a \<noteq> NaN \<and> b \<noteq> NaN \<and> frank a = frank b \<and> fval a = fval b"

definition fle :: "f64 \<Rightarrow> f64 \<Rightarrow> bool" where
  "fle a b \<longleftrightarrow> flt a b \<or> feq a b"

text \<open>Conversion to an integer type truncates towards zero; it is only used in range.\<close>

definition f64_to_int :: "f64 \<Rightarrow> int" where
  "f64_to_int v = (if fval v < 0 then \<lceil>fval v\<rceil> else \<lfloor>fval v\<rfloor>)"

text \<open>
  The order \<open>sort.Float64s\<close> sorts by: NaN first, then by value. The two zeros are equal
  for Go and may come out in either order; the instance puts \<open>-0\<close> first.
\<close>

instantiation f64 :: linorder
begin

definition less_eq_f64 :: "f64 \<Rightarrow> f64 \<Rightarrow> bool" where
  "less_eq_f64 a b \<longleftrightarrow> frank a < frank b \<or> frank a = frank b
     \<and> (fval a < fval b \<or> fval a = fval b \<and> (a = b \<or> a = NZero))"

definition less_f64 :: "f64 \<Rightarrow> f64 \<Rightarrow> bool" where
  "less_f64 a b \<longleftrightarrow> a \<le> b \<and> \<not> b \<le> (a::f64)"

instance
proof
  fix a b c :: f64
  show "(a < b) = (a \<le> b \<and> \<not> b \<le> a)" by (rule less_f64_def)
  show "a \<le> a" by (simp add: less_eq_f64_def)
  show "a \<le> b \<Longrightarrow> b \<le> c \<Longrightarrow> a \<le> c"
    by (cases a; cases b; cases c) (auto simp: less_eq_f64_def)
  show "a \<le> b \<Longrightarrow> b \<le> a \<Longrightarrow> a = b"
    by (cases a; cases b) (auto simp: less_eq_f64_def)
  show "a \<le> b \<or> b \<le> a"
    by (cases a; cases b) (auto simp: less_eq_f64_def)
qed

end

lemmas f64_class_defs = finf_def fsign_def
lemmas f64_cmp_defs = flt_def feq_def fle_def

subsection \<open>Laws\<close>

lemma fin_ok_zero [simp]: "fin_ok 0"
  by (simp add: fin_ok_def)

lemma wff_simps [simp]:
  "wff NaN" "wff PInf" "wff NInf" "wff NZero" "wff (Fin q) = fin_ok q"
  by (simp_all add: wff_def)

lemma wff_mkf [simp]: "wff (mkf s x)"
  by (auto simp: mkf_def Let_def fin_ok_def abs_if)

lemma wff_ops [simp]:
  shows "wff a \<Longrightarrow> wff (fneg a)" "wff a \<Longrightarrow> wff (fabs a)"
    "wff a \<Longrightarrow> wff b \<Longrightarrow> wff (fadd a b)" "wff a \<Longrightarrow> wff b \<Longrightarrow> wff (fsub a b)"
    "wff (fmul a b)" "wff (fdiv a b)" "wff (f64_of_int n)" "wff (f64_const q)"
proof -
  show neg: "wff a \<Longrightarrow> wff (fneg a)" for a
    by (cases a) (auto simp: fneg_def fin_ok_def rndq_minus)
  show "wff a \<Longrightarrow> wff (fabs a)" by (simp add: fabs_def neg)
  show add: "wff a \<Longrightarrow> wff b \<Longrightarrow> wff (fadd a b)" for a b by (simp add: fadd_def)
  show "wff a \<Longrightarrow> wff b \<Longrightarrow> wff (fsub a b)" by (simp add: fsub_def neg add)
qed (simp_all add: fmul_def fdiv_def f64_of_int_def f64_const_def)

lemma ffinite_not [simp]: "ffinite v \<Longrightarrow> v \<noteq> NaN" "ffinite v \<Longrightarrow> \<not> finf v"
  by (auto simp: finf_def)

lemma Fin_not_finf [simp]: "\<not> finf (Fin q)" "\<not> finf NZero" "finf PInf" "finf NInf" "\<not> finf NaN"
  by (simp_all add: finf_def)

lemma frank_finite [simp]: "ffinite v \<Longrightarrow> frank v = 2"
  by (cases v) auto

lemma fle_finite: "ffinite a \<Longrightarrow> ffinite b \<Longrightarrow> fle a b \<longleftrightarrow> fval a \<le> fval b"
  by (auto simp: f64_cmp_defs)

lemma flt_finite: "ffinite a \<Longrightarrow> ffinite b \<Longrightarrow> flt a b \<longleftrightarrow> fval a < fval b"
  by (auto simp: f64_cmp_defs)

lemma le_imp_fval_le: "ffinite a \<Longrightarrow> ffinite b \<Longrightarrow> a \<le> b \<Longrightarrow> fval a \<le> fval b"
  by (auto simp: less_eq_f64_def)

text \<open>Results bounded by a binary64 value do not overflow.\<close>

lemma mkf_finite:
  assumes "\<bar>x\<bar> \<le> q" and "fin_ok q"
  shows "ffinite (mkf s x)" and "fval (mkf s x) = rndq x"
proof -
  have "\<bar>rndq x\<bar> \<le> q"
    using rndq_mono [OF assms(1)] assms(2) by (simp add: rndq_abs fin_ok_def)
  with assms(2) have "\<bar>rndq x\<bar> < f64_lim" unfolding fin_ok_def by linarith
  then show "ffinite (mkf s x)" "fval (mkf s x) = rndq x"
    by (auto simp: mkf_def Let_def)
qed

lemma fin_ok_of_int: "\<bar>k\<bar> \<le> 2 ^ 53 \<Longrightarrow> fin_ok (of_int k)"
proof -
  assume "\<bar>k\<bar> \<le> 2 ^ 53"
  then have "\<bar>of_int k :: rat\<bar> \<le> of_int (2 ^ 53)" by (simp only: of_int_le_iff flip: of_int_abs)
  also have "\<dots> = 2 powi (0 + int 53)" by (simp only: powi2_shift) simp
  also have "\<dots> < f64_lim" unfolding f64_lim_def by (rule powi2_strict) simp
  finally show ?thesis using \<open>\<bar>k\<bar> \<le> 2 ^ 53\<close> by (simp add: fin_ok_def rndq_of_int)
qed

text \<open>Values for which the sum of two does not overflow.\<close>

definition moderate :: "f64 \<Rightarrow> bool" where
  "moderate v \<longleftrightarrow> ffinite v \<and> wff v \<and> \<bar>fval v\<bar> < f64_half_lim"

lemma moderate_finite [simp]: "moderate v \<Longrightarrow> ffinite v"
  by (simp add: moderate_def)

lemma fin_ok_double:
  assumes "fin_ok q" and "\<bar>q\<bar> < f64_half_lim"
  shows "fin_ok (2 * q)"
proof -
  from assms show ?thesis by (simp add: fin_ok_def rndq_double f64_half_lim_double)
qed

text \<open>The midpoint \<open>(a + b) / 2\<close>, computed in binary64, stays between its arguments.\<close>

lemma fmid_between:
  assumes "moderate a" and "moderate b" and "fval a \<le> fval b"
  defines "m \<equiv> fdiv (fadd a b) (Fin 2)"
  shows "ffinite m" and "wff m" and "fval a \<le> fval m" and "fval m \<le> fval b"
proof -
  let ?x = "fval a" and ?y = "fval b"
  have ok: "fin_ok ?x" "fin_ok ?y" "\<bar>?x\<bar> < f64_half_lim" "\<bar>?y\<bar> < f64_half_lim"
    using assms by (auto simp: moderate_def wff_def)
  define q where "q = max \<bar>?x\<bar> \<bar>?y\<bar>"
  have q: "fin_ok q" "fin_ok (2 * q)"
    using ok fin_ok_double [of q] by (auto simp: q_def max_def fin_ok_def rndq_abs)
  have sum: "\<bar>?x + ?y\<bar> \<le> 2 * q" by (auto simp: q_def)
  define s where "s = fadd a b"
  have s: "ffinite s" "fval s = rndq (?x + ?y)"
    using assms mkf_finite [OF sum q(2)] by (simp_all add: s_def fadd_def)
  have "rndq (2 * ?x) \<le> fval s" "fval s \<le> rndq (2 * ?y)"
    unfolding s using assms(3) by (auto intro: rndq_mono)
  then have b: "?x \<le> fval s / 2" "fval s / 2 \<le> ?y"
    using ok by (simp_all add: rndq_double fin_ok_def)
  then have half: "\<bar>fval s / 2\<bar> \<le> q" by (auto simp: q_def)
  have "m = mkf (fsign s \<noteq> fsign (Fin 2)) (fval s / 2)"
    using s by (simp add: m_def fdiv_def Fin_not_finf flip: s_def)
  then have m: "ffinite m" "fval m = rndq (fval s / 2)"
    using mkf_finite [OF half q(1)] by simp_all
  show "ffinite m" by (fact m)
  show "wff m" by (simp add: m_def)
  have "rndq ?x \<le> fval m" "fval m \<le> rndq ?y"
    unfolding m using b by (auto intro: rndq_mono)
  then show "?x \<le> fval m" "fval m \<le> ?y"
    using ok by (simp_all add: fin_ok_def)
qed

text \<open>
  Quotients of values far from the ends of the range: finite, of the right sign, and with a
  relative error of at most \<open>2 ^ (-53)\<close>. Every exchange rate there is lies in this range.
\<close>

definition sane :: "f64 \<Rightarrow> bool" where
  "sane v \<longleftrightarrow> ffinite v \<and> 2 powi (- 500) \<le> fval v \<and> fval v \<le> 2 powi 500"

lemma saneD: "sane v \<Longrightarrow> ffinite v" "sane v \<Longrightarrow> 0 < fval v"
  using powi2_pos [of "- 500"] by (auto simp: sane_def simp del: powi2_pos)

lemma powi2_add: "(2::rat) powi (a + b) = 2 powi a * 2 powi b"
  by (simp add: power_int_add)

lemma fdiv_sane:
  assumes "sane a" and "sane b"
  shows "ffinite (fdiv a b)" and "\<bar>fval (fdiv a b) - fval a / fval b\<bar> \<le> fval a / fval b / 2 ^ 53"
    and "0 < fval (fdiv a b)"
proof -
  let ?x = "fval a / fval b"
  note pos = saneD(2) [OF assms(1)] saneD(2) [OF assms(2)]
  then have xpos: "0 < ?x" by simp
  have "2 powi (- 500 + - 500) * fval b \<le> 2 powi (- 500 + - 500) * 2 powi 500"
    using assms(2) by (intro mult_left_mono) (auto simp: sane_def less_imp_le)
  also have "\<dots> = 2 powi (- 500)" by (simp only: flip: powi2_add) simp
  also have "\<dots> \<le> fval a" using assms(1) by (simp add: sane_def)
  finally have lo: "2 powi (- 1000) \<le> ?x" using pos by (simp add: pos_le_divide_eq)
  have "fval a \<le> 2 powi 500" using assms(1) by (simp add: sane_def)
  also have "\<dots> = 2 powi (500 + 500) * 2 powi (- 500)" by (simp only: flip: powi2_add) simp
  also have "\<dots> \<le> 2 powi (500 + 500) * fval b"
    using assms(2) by (intro mult_left_mono) (auto simp: sane_def less_imp_le)
  finally have hi: "?x \<le> 2 powi 1000" using pos by (simp add: pos_divide_le_eq)
  have "rndq (2 powi 1000) = 2 powi 1000" by (rule rndq_short [of _ 1 1000]) simp_all
  moreover have "(2::rat) powi 1000 < f64_lim" unfolding f64_lim_def by (rule powi2_strict) simp
  ultimately have ok: "fin_ok (2 powi 1000)" using powi2_pos [of 1000] by (simp add: fin_ok_def)
  have ab: "\<bar>?x\<bar> \<le> 2 powi 1000" using hi xpos by simp
  have d: "fdiv a b = mkf (fsign a \<noteq> fsign b) ?x"
    using saneD(1) [OF assms(1)] saneD(1) [OF assms(2)] pos by (simp add: fdiv_def)
  note m = mkf_finite [OF ab ok, of "fsign a \<noteq> fsign b"]
  show "ffinite (fdiv a b)" unfolding d by (rule m)
  have "(2::rat) powi (- 1022) \<le> 2 powi (- 1000)" by (rule powi2_mono) simp
  with lo xpos have "2 powi (- 1022) \<le> \<bar>?x\<bar>" by linarith
  from rndq_relative [OF this] show err: "\<bar>fval (fdiv a b) - ?x\<bar> \<le> ?x / 2 ^ 53"
    unfolding d m using xpos by simp
  have "?x / 2 ^ 53 < ?x" using xpos by simp
  with err show "0 < fval (fdiv a b)" by linarith
qed

end
