(* ===== verification/GoValues.thy ===== *)
theory GoValues
  imports Float64
begin

text \<open>
  Go values the packages exchange: strings (\<open>strings.ToUpper\<close>, \<open>strings.EqualFold\<close>), the
  dynamic values of a decoded document (\<open>map[string]any\<close>), results with an error, and maps.

  A Go map is an association list with distinct keys. The interface \<open>finite_map\<close> states what
  clients rely on; it is interpreted on the list operations, and the components that keep a
  map (the response cache, the metrics registry, the source tables) use it from there.
\<close>

section \<open>Strings\<close>

text \<open>
  Case mapping of the ASCII letters. Currency codes are ASCII; bytes outside ASCII are left
  as they are, where Go would map the code points they encode.
\<close>

definition upper_char :: "char \<Rightarrow> char" where
  "upper_char c = (let n = of_char c :: nat in if 97 \<le> n \<and> n \<le> 122 then char_of (n - 32) else c)"

definition to_upper :: "string \<Rightarrow> string" where
  "to_upper s = map upper_char s"

definition equal_fold :: "string \<Rightarrow> string \<Rightarrow> bool" where
  "equal_fold a b \<longleftrightarrow> to_upper a = to_upper b"

lemma upper_char_idem [simp]: "upper_char (upper_char c) = upper_char c"
proof (cases "97 \<le> (of_char c :: nat) \<and> (of_char c :: nat) \<le> 122")
  case True
  then have "(of_char c - 32 :: nat) < 256" by linarith
  with True have "of_char (upper_char c) = (of_char c - 32 :: nat)"
    by (simp add: upper_char_def)
  with True have "\<not> 97 \<le> (of_char (upper_char c) :: nat)" by linarith
  then show ?thesis by (simp add: upper_char_def [of "upper_char c"])
qed (auto simp: upper_char_def)

lemma to_upper_idem [simp]: "to_upper (to_upper s) = to_upper s"
  by (simp add: to_upper_def)

lemma length_to_upper [simp]: "length (to_upper s) = length s"
  by (simp add: to_upper_def)

lemma to_upper_Nil [simp]: "to_upper s = [] \<longleftrightarrow> s = []" "to_upper [] = []"
  by (simp_all add: to_upper_def)

text \<open>\<open>strings.Split\<close> at one byte, and \<open>strings.Join\<close>.\<close>

fun split_at :: "char \<Rightarrow> string \<Rightarrow> string list" where
  "split_at c [] = [[]]"
| "split_at c (x # xs) =
     (if x = c then [] # split_at c xs
      else case split_at c xs of [] \<Rightarrow> [[x]] | w # ws \<Rightarrow> (x # w) # ws)"

fun Join :: "string list \<Rightarrow> string \<Rightarrow> string" where
  "Join [] sep = []"
| "Join [s] sep = s"
| "Join (s # t # ss) sep = s @ sep @ Join (t # ss) sep"

lemma split_at_plain: "c \<notin> set s \<Longrightarrow> split_at c s = [s]"
  by (induction s) auto

lemma split_at_append: "c \<notin> set s \<Longrightarrow> split_at c (s @ c # t) = s # split_at c t"
  by (induction s) auto

lemma split_Join:
  "ss \<noteq> [] \<Longrightarrow> \<forall>s \<in> set ss. c \<notin> set s \<Longrightarrow> split_at c (Join ss [c]) = ss"
proof (induction ss)
  case (Cons s ss)
  then show ?case by (cases ss) (simp_all add: split_at_plain split_at_append)
qed simp

section \<open>Dynamic values\<close>

datatype anyval =
    AnyNil
  | AnyBool bool
  | AnyInt int
  | AnyFloat f64
  | AnyString string
  | AnyList "anyval list"
  | AnyMap "(string \<times> anyval) list"

text \<open>A \<open>map[string]any\<close>, which may be nil.\<close>

type_synonym any_map = "(string \<times> anyval) list option"

section \<open>Maps\<close>

type_synonym ('k, 'v) go_map = "('k \<times> 'v) list"

definition map_get :: "('k, 'v) go_map \<Rightarrow> 'k \<Rightarrow> 'v option" where
  "map_get m k = map_of m k"

definition map_set :: "'k \<Rightarrow> 'v \<Rightarrow> ('k, 'v) go_map \<Rightarrow> ('k, 'v) go_map" where
  "map_set k v m = AList.update k v m"

definition map_del :: "'k \<Rightarrow> ('k, 'v) go_map \<Rightarrow> ('k, 'v) go_map" where
  "map_del k m = AList.delete k m"

definition map_len :: "('k, 'v) go_map \<Rightarrow> nat" where
  "map_len m = length m"

definition map_wf :: "('k, 'v) go_map \<Rightarrow> bool" where
  "map_wf m \<longleftrightarrow> distinct (map fst m)"

text \<open>The interface: a finite map seen through its lookup function.\<close>

locale finite_map =
  fixes empty :: 'm
    and get :: "'m \<Rightarrow> 'k \<Rightarrow> 'v option"
    and put :: "'k \<Rightarrow> 'v \<Rightarrow> 'm \<Rightarrow> 'm"
    and del :: "'k \<Rightarrow> 'm \<Rightarrow> 'm"
    and len :: "'m \<Rightarrow> nat"
    and wf :: "'m \<Rightarrow> bool"
  assumes get_empty: "get empty = Map.empty"
    and get_put: "wf m \<Longrightarrow> get (put k v m) = (get m)(k \<mapsto> v)"
    and get_del: "wf m \<Longrightarrow> get (del k m) = (get m)(k := None)"
    and len_card: "wf m \<Longrightarrow> len m = card (dom (get m))"
    and finite_dom: "wf m \<Longrightarrow> finite (dom (get m))"
    and wf_empty: "wf empty"
    and wf_put: "wf m \<Longrightarrow> wf (put k v m)"
    and wf_del: "wf m \<Longrightarrow> wf (del k m)"
begin

lemmas specs = get_empty get_put get_del wf_empty wf_put wf_del

lemma get_put_same: "wf m \<Longrightarrow> get (put k v m) k = Some v"
  by (simp add: get_put)

lemma get_put_other: "wf m \<Longrightarrow> k \<noteq> k' \<Longrightarrow> get (put k v m) k' = get m k'"
  by (simp add: get_put)

lemma len_put: "wf m \<Longrightarrow> len (put k v m) = (if get m k = None then Suc (len m) else len m)"
  by (simp add: len_card wf_put get_put finite_dom card_insert_if domIff)

lemma len_del: "wf m \<Longrightarrow> len (del k m) = (if get m k = None then len m else len m - 1)"
proof -
  assume w: "wf m"
  have "dom (get (del k m)) = dom (get m) - {k}" using w by (auto simp: get_del)
  with w show ?thesis
    by (auto simp: len_card wf_del finite_dom card_Diff_singleton_if domIff)
qed

text \<open>A map built by a loop that writes one entry per element: the last write of a key stays.\<close>

lemma wf_fold: "wf m \<Longrightarrow> wf (fold (\<lambda>x. put (f x) (g x)) xs m)"
  by (induction xs arbitrary: m) (simp_all add: wf_put)

lemma get_fold:
  assumes "wf m"
  shows "get (fold (\<lambda>x. put (f x) (g x)) xs m) k =
    (if k \<in> f ` set xs then Some (g (last (filter (\<lambda>x. f x = k) xs))) else get m k)"
  using assms
proof (induction xs arbitrary: m)
  case (Cons x xs)
  show ?case
  proof (cases "k \<in> f ` set xs")
    case True
    then have "filter (\<lambda>x. f x = k) xs \<noteq> []" by (auto simp: filter_empty_conv)
    with True show ?thesis by (simp add: Cons wf_put)
  next
    case False
    then have "filter (\<lambda>x. f x = k) xs = []" by (auto simp: filter_empty_conv)
    with False show ?thesis by (auto simp: Cons wf_put get_put)
  qed
qed simp

lemma get_fold_Some:
  assumes "wf m" and "get (fold (\<lambda>x. put (f x) (g x)) xs m) k = Some v"
  shows "(\<exists>x \<in> set xs. f x = k \<and> v = g x) \<or> get m k = Some v"
proof (cases "k \<in> f ` set xs")
  case True
  then have "filter (\<lambda>x. f x = k) xs \<noteq> []" by (auto simp: filter_empty_conv)
  from last_in_set [OF this] True assms show ?thesis by (auto simp: get_fold)
qed (use assms in \<open>simp add: get_fold\<close>)

lemma dom_fold: "wf m \<Longrightarrow> dom (get (fold (\<lambda>x. put (f x) (g x)) xs m)) = f ` set xs \<union> dom (get m)"
  by (auto simp: get_fold dom_def split: if_splits)

lemma len_empty: "len empty = 0"
  by (simp add: len_card wf_empty get_empty)

end

lemmas map_defs = map_get_def map_set_def map_del_def map_len_def map_wf_def

interpretation gm: finite_map "[]" map_get map_set map_del map_len map_wf
proof unfold_locales
  fix m :: "('k, 'v) go_map" and k v
  show "map_get ([] :: ('k, 'v) go_map) = Map.empty" by (simp add: map_defs fun_eq_iff)
  show "map_wf ([] :: ('k, 'v) go_map)" by (simp add: map_defs)
  assume "map_wf m"
  then show "map_get (map_set k v m) = (map_get m)(k \<mapsto> v)"
    and "map_get (map_del k m) = (map_get m)(k := None)"
    and "map_wf (map_set k v m)" and "map_wf (map_del k m)"
    by (simp_all add: map_defs fun_eq_iff update_conv delete_conv distinct_update distinct_delete)
  show "map_len m = card (dom (map_get m))"
    using \<open>map_wf m\<close> distinct_card [of "map fst m"]
    by (simp add: map_defs dom_map_of_conv_image_fst map_get_def [abs_def])
  show "finite (dom (map_get m))" by (simp add: map_get_def [abs_def] finite_dom_map_of)
qed

end
