(* ===== verification/Provider.thy ===== *)
theory Provider
  imports GoTime GoValues
begin

text \<open>
  \<^verbatim>\<open>internal/provider/provider.go\<close>: a reading of a rate service and the interface of a provider.
  A provider is its name, its type and what \<open>Fetch\<close>, called at a time, returns for a base and a
  list of quotes, so every behaviour of a rate service is covered; the adapters are implementations of it. The
  errors are those the adapters report; the text of an error of the JSON decoder is left out.
\<close>

record fetched =
  f_Base :: string
  f_Quote :: string
  f_Rate :: f64
  f_FetchedAt :: time
  f_ProviderTS :: string

datatype fetch_error =
    InvalidRequest string
  | RequestFailed string string
  | BadStatus string int string
  | DecodeFailed string
  | BaseMismatch string string string
  | ServiceError string
  | NoResult string
  | ZeroRate string

record provider_impl =
  pv_Name :: string
  pv_Type :: string
  pv_Fetch :: "time \<Rightarrow> string \<Rightarrow> string list \<Rightarrow> fetch_error + fetched list"

end
