(* ===== verification/Config.thy ===== *)
theory Config
  imports GoTime GoValues
begin

text \<open>
  \<^verbatim>\<open>internal/config/config.go\<close>: the configuration file, its defaults and its validation, and
  the list of currencies of the environment. The file system, the YAML library and the
  environment are arguments: \<open>read_file\<close> gives the bytes of a file or an error, \<open>yaml\<close> the
  decoded structure or an error, \<open>env\<close> the value of a variable (empty when it is unset).
\<close>

section \<open>Trimming and splitting strings\<close>

text \<open>The UTF-8 encodings of the code points that \<open>unicode.IsSpace\<close> accepts.\<close>

definition white_spaces :: "string list" where
  "white_spaces =
     [[CHR 0x09], [CHR 0x0A], [CHR 0x0B], [CHR 0x0C], [CHR 0x0D], '' '', [CHR 0xC2, CHR 0x85], [CHR 0xC2, CHR 0xA0],
      [CHR 0xE1, CHR 0x9A, CHR 0x80]]
     @ map (\<lambda>n. [CHR 0xE2, CHR 0x80, char_of n]) ([128..<139 :: nat] @ [168, 169, 175])
     @ [[CHR 0xE2, CHR 0x81, CHR 0x9F], [CHR 0xE3, CHR 0x80, CHR 0x80]]"

definition strip_with :: "(string \<Rightarrow> string) \<Rightarrow> string \<Rightarrow> string option" where
  "strip_with orient s =
     map_option (\<lambda>w. drop (length w) s) (find (\<lambda>w. take (length w) s = orient w) white_spaces)"

lemma white_spaces_nonempty: "w \<in> set white_spaces \<Longrightarrow> 0 < length w"
  by (auto simp: white_spaces_def)

lemma strip_with_shorter: "strip_with orient s = Some s' \<Longrightarrow> (\<And>w. length (orient w) = length w) \<Longrightarrow> length s' < length s"
proof -
  assume a: "strip_with orient s = Some s'" and len: "\<And>w. length (orient w) = length w"
  then obtain w where f: "find (\<lambda>w. take (length w) s = orient w) white_spaces = Some w" and s': "s' = drop (length w) s"
    by (auto simp: strip_with_def)
  from f have w: "w \<in> set white_spaces" "take (length w) s = orient w"
    by (auto simp: find_Some_iff)
  have "length w \<le> length s" using arg_cong [OF w(2), of length] len [of w] by simp
  moreover have "0 < length w" using w(1) by (rule white_spaces_nonempty)
  ultimately show ?thesis unfolding s' length_drop by linarith
qed

function trim_left :: "string \<Rightarrow> string" where
  "trim_left s = (case strip_with id s of None \<Rightarrow> s | Some s' \<Rightarrow> trim_left s')"
  by auto
termination
  by (relation "measure length") (auto dest: strip_with_shorter)

text \<open>The right end is trimmed on the reversed string.\<close>

function trim_right_rev :: "string \<Rightarrow> string" where
  "trim_right_rev s = (case strip_with rev s of None \<Rightarrow> s | Some s' \<Rightarrow> trim_right_rev s')"
  by auto
termination
  by (relation "measure length") (auto dest: strip_with_shorter)

declare trim_left.simps [simp del] trim_right_rev.simps [simp del]

definition TrimSpace :: "string \<Rightarrow> string" where
  "TrimSpace s = rev (trim_right_rev (rev (trim_left s)))"

section \<open>The configuration\<close>

record server_cfg =
  cs_Listen :: string

record cache_cfg =
  cc_ComputeTTLSeconds :: go_int
  cc_HTTPCacheMaxAgeSec :: go_int

record aggregator_cfg =
  ca_OutlierTolerancePct :: f64
  ca_MinProviders :: go_int
  ca_MaxAgeSeconds :: go_int
  ca_RetentionDays :: go_int

record provider_cfg =
  cp_Name :: string
  cp_Type :: string
  cp_Config :: any_map
  cp_Priority :: go_int
  cp_CallsPerDay :: "go_int option"
  cp_ScheduleCron :: string
  cp_Enabled :: bool
  cp_Extra :: any_map

record config =
  cf_Server :: server_cfg
  cf_Cache :: cache_cfg
  cf_Aggregator :: aggregator_cfg
  cf_Providers :: "provider_cfg list"

type_synonym currencies = "(string, unit) go_map"

text \<open>\<open>if x <= 0 { x = v }\<close>, for integers and for floats (a NaN stays).\<close>

definition default_int :: "go_int \<Rightarrow> go_int \<Rightarrow> go_int" where
  "default_int v x = (if sint x \<le> 0 then v else x)"

definition default_float :: "f64 \<Rightarrow> f64 \<Rightarrow> f64" where
  "default_float v x = (if fle x (Fin 0) then v else x)"

definition applyDefaults :: "config \<Rightarrow> config" where
  "applyDefaults c =
     (let ttl = default_int 60 (cc_ComputeTTLSeconds (cf_Cache c)); a = cf_Aggregator c
      in c\<lparr>cf_Cache := \<lparr>cc_ComputeTTLSeconds = ttl,
             cc_HTTPCacheMaxAgeSec = default_int ttl (cc_HTTPCacheMaxAgeSec (cf_Cache c))\<rparr>,
           cf_Aggregator := \<lparr>ca_OutlierTolerancePct = default_float (Fin 2) (ca_OutlierTolerancePct a),
             ca_MinProviders = default_int 1 (ca_MinProviders a),
             ca_MaxAgeSeconds = default_int 86400 (ca_MaxAgeSeconds a),
             ca_RetentionDays = default_int 365 (ca_RetentionDays a)\<rparr>\<rparr>)"

datatype config_error = ListenRequired | NameRequired nat | TypeRequired nat string | DuplicateName nat string
  | ReadConfig string | ParseConfig string | CurrenciesRequired | InvalidCode string

fun validate_providers :: "nat \<Rightarrow> (string, bool) go_map \<Rightarrow> provider_cfg list \<Rightarrow> config_error option" where
  "validate_providers i seen [] = None"
| "validate_providers i seen (p # ps) =
     (if cp_Name p = [] then Some (NameRequired i)
      else if cp_Type p = [] then Some (TypeRequired i (cp_Name p))
      else if map_get seen (cp_Name p) = Some True then Some (DuplicateName i (cp_Name p))
      else validate_providers (Suc i) (map_set (cp_Name p) True seen) ps)"

definition Validate :: "config \<Rightarrow> config_error option" where
  "Validate c = (if cs_Listen (cf_Server c) = [] then Some ListenRequired
     else validate_providers 0 [] (cf_Providers c))"

definition Load :: "(string \<Rightarrow> string + string) \<Rightarrow> (string \<Rightarrow> string + config) \<Rightarrow> string \<Rightarrow> config_error + config" where
  "Load read_file yaml path =
     (case read_file path of
        Inl e \<Rightarrow> Inl (ReadConfig e)
      | Inr b \<Rightarrow> (case yaml b of
          Inl e \<Rightarrow> Inl (ParseConfig e)
        | Inr c0 \<Rightarrow> (let c = applyDefaults c0
                    in case Validate c of Some e \<Rightarrow> Inl e | None \<Rightarrow> Inr c)))"

text \<open>The loop of \<open>LoadCurrencies\<close>; on an error the caller discards the codes read so far.\<close>

fun load_codes :: "string list \<Rightarrow> currencies \<Rightarrow> config_error + currencies" where
  "load_codes [] out = Inr out"
| "load_codes (code0 # codes) out =
     (let code = TrimSpace (to_upper code0)
      in if code = [] then load_codes codes out
         else if length code \<noteq> 3 then Inl (InvalidCode code)
         else load_codes codes (map_set code () out))"

definition LoadCurrencies :: "(string \<Rightarrow> string) \<Rightarrow> config_error + currencies" where
  "LoadCurrencies env =
     (let raw = TrimSpace (env ''ARGOSFX_CURRENCIES'')
      in if raw = [] then Inl CurrenciesRequired
         else case load_codes (split_at CHR '','' raw) [] of
                Inl e \<Rightarrow> Inl e
              | Inr out \<Rightarrow> Inr (if map_get out ''USD'' = None then map_set ''USD'' () out else out))"

definition ComputeTTL :: "cache_cfg \<Rightarrow> duration" where
  "ComputeTTL c = cc_ComputeTTLSeconds c * second"

definition HTTPMaxAge :: "cache_cfg \<Rightarrow> duration" where
  "HTTPMaxAge c = cc_HTTPCacheMaxAgeSec c * second"

definition MaxAge :: "aggregator_cfg \<Rightarrow> duration" where
  "MaxAge a = ca_MaxAgeSeconds a * second"

definition IsEnabled :: "provider_cfg \<Rightarrow> bool" where
  "IsEnabled p = cp_Enabled p"

section \<open>Loading a configuration\<close>

text \<open>What is wrong with a provider that follows providers with the names \<open>before\<close>.\<close>

definition provider_problem :: "string set \<Rightarrow> nat \<Rightarrow> provider_cfg \<Rightarrow> config_error option" where
  "provider_problem before i p =
     (if cp_Name p = [] then Some (NameRequired i)
      else if cp_Type p = [] then Some (TypeRequired i (cp_Name p))
      else if cp_Name p \<in> before then Some (DuplicateName i (cp_Name p)) else None)"

lemma validate_providers_problem:
  assumes "map_wf seen"
  shows "validate_providers i seen ps = Some e \<longleftrightarrow>
    (\<exists>k < length ps. provider_problem ({n. map_get seen n = Some True} \<union> cp_Name ` set (take k ps)) (i + k) (ps ! k) = Some e
      \<and> (\<forall>j < k. provider_problem ({n. map_get seen n = Some True} \<union> cp_Name ` set (take j ps)) (i + j) (ps ! j) = None))"
    (is "?L i seen ps \<longleftrightarrow> ?R i seen ps")
  using assms
proof (induction ps arbitrary: i seen)
  case (Cons p ps)
  let ?seen = "map_set (cp_Name p) True seen" and ?S = "{n. map_get seen n = Some True}"
  have S: "{n. map_get ?seen n = Some True} = insert (cp_Name p) ?S"
    by (auto simp: gm.get_put [OF Cons.prems])
  show ?case
  proof (cases "provider_problem ?S i p")
    case None
    then have "?L i seen (p # ps) \<longleftrightarrow> ?L (Suc i) ?seen ps"
      by (auto simp: provider_problem_def split: if_splits)
    also have "\<dots> \<longleftrightarrow> ?R (Suc i) ?seen ps" by (rule Cons.IH [OF gm.wf_put [OF Cons.prems]])
    also have "\<dots> \<longleftrightarrow> ?R i seen (p # ps)"
    proof -
      have *: "insert (cp_Name p) ?S \<union> A = ?S \<union> insert (cp_Name p) A" for A by auto
      show ?thesis unfolding S * length_Cons Ex_less_Suc2 All_less_Suc2 by (simp add: None)
    qed
    finally show ?thesis .
  next
    case (Some x)
    then have "validate_providers i seen (p # ps) = Some x"
      by (auto simp: provider_problem_def split: if_splits)
    with Some show ?thesis by (auto simp: nth_Cons' intro: exI [of _ 0])
  qed
qed simp

lemma validate_providers_None:
  assumes "map_wf seen"
  shows "validate_providers i seen ps = None \<longleftrightarrow> (\<forall>p \<in> set ps. cp_Name p \<noteq> [] \<and> cp_Type p \<noteq> []
    \<and> map_get seen (cp_Name p) \<noteq> Some True) \<and> distinct (map cp_Name ps)"
  using assms
proof (induction ps arbitrary: i seen)
  case (Cons p ps)
  show ?case using Cons.IH [OF gm.wf_put [OF Cons.prems, of "cp_Name p" True], of "Suc i"]
    by (auto simp: gm.get_put [OF Cons.prems] image_iff split: if_splits)
qed simp

lemma sint_default: "0 < sint v \<Longrightarrow> 0 < sint (default_int v x)" "0 < sint x \<Longrightarrow> default_int v x = x"
  by (simp_all add: default_int_def)

lemma default_float_simps: "\<not> fle (default_float (Fin 2) x) (Fin 0)" "\<not> fle x (Fin 0) \<Longrightarrow> default_float v x = x"
  by (auto simp: default_float_def fle_def flt_def feq_def)

lemma applyDefaults_idem: "applyDefaults (applyDefaults c) = applyDefaults c"
  by (simp add: applyDefaults_def Let_def sint_default default_float_simps)

lemma seconds_exact:
  fixes n :: go_int
  assumes "0 < sint n" and "sint n \<le> 9223372036"
  shows "sint (n * second) = sint n * ns_per_sec"
proof -
  define N where "N = sint n"
  have N: "0 < N" "N \<le> 9223372036" using assms by (simp_all only: N_def)
  have "n * second = word_of_int (N * 1000000000)" by (simp add: N_def)
  moreover have "sint (word_of_int (N * 1000000000) :: go_int) = N * 1000000000"
    by (rule sint_of_int_small) (use N in simp_all)
  ultimately show ?thesis unfolding N_def [symmetric] ns_per_sec_def by (simp only:)
qed

text \<open>
  C32: a configuration that loads is one the program can run with. Loading succeeds only when the
  file can be read and parsed; the result is what the file says with the defaults filled in, it
  has a listening address, its providers have distinct names and a type each, and every
  interval, limit and tolerance is positive (the tolerance may also be not a number). Its
  durations are the configured seconds as long as these stay below 292 years.
\<close>

theorem load_yields_valid_config:
  assumes "Load read_file yaml path = Inr c"
  shows "(\<exists>b c0. read_file path = Inr b \<and> yaml b = Inr c0 \<and> c = applyDefaults c0)
    \<and> cs_Listen (cf_Server c) \<noteq> [] \<and> distinct (map cp_Name (cf_Providers c))
    \<and> (\<forall>p \<in> set (cf_Providers c). cp_Name p \<noteq> [] \<and> cp_Type p \<noteq> [])
    \<and> (\<forall>n \<in> {cc_ComputeTTLSeconds (cf_Cache c), cc_HTTPCacheMaxAgeSec (cf_Cache c), ca_MinProviders (cf_Aggregator c),
           ca_MaxAgeSeconds (cf_Aggregator c), ca_RetentionDays (cf_Aggregator c)}. 0 < sint n)
    \<and> (ca_OutlierTolerancePct (cf_Aggregator c) = NaN \<or> flt (Fin 0) (ca_OutlierTolerancePct (cf_Aggregator c)))
    \<and> applyDefaults c = c
    \<and> (sint (cc_ComputeTTLSeconds (cf_Cache c)) \<le> 9223372036 \<longrightarrow>
         sint (ComputeTTL (cf_Cache c)) = sint (cc_ComputeTTLSeconds (cf_Cache c)) * ns_per_sec)
    \<and> (sint (ca_MaxAgeSeconds (cf_Aggregator c)) \<le> 9223372036 \<longrightarrow>
         sint (MaxAge (cf_Aggregator c)) = sint (ca_MaxAgeSeconds (cf_Aggregator c)) * ns_per_sec)"
proof -
  from assms obtain b c0 where c: "read_file path = Inr b" "yaml b = Inr c0" "c = applyDefaults c0" "Validate c = None"
    by (auto simp: Load_def Let_def split: sum.splits option.splits)
  then have v: "cs_Listen (cf_Server c) \<noteq> []" "validate_providers 0 [] (cf_Providers c) = None"
    by (auto simp: Validate_def split: if_splits)
  have pos: "\<forall>n \<in> {cc_ComputeTTLSeconds (cf_Cache c), cc_HTTPCacheMaxAgeSec (cf_Cache c), ca_MinProviders (cf_Aggregator c),
           ca_MaxAgeSeconds (cf_Aggregator c), ca_RetentionDays (cf_Aggregator c)}. 0 < sint n"
    by (simp add: c(3) applyDefaults_def Let_def sint_default)
  have "\<not> fle (ca_OutlierTolerancePct (cf_Aggregator c)) (Fin 0)"
    by (simp add: c(3) applyDefaults_def Let_def default_float_simps)
  then have tol: "ca_OutlierTolerancePct (cf_Aggregator c) = NaN \<or> flt (Fin 0) (ca_OutlierTolerancePct (cf_Aggregator c))"
    by (cases "ca_OutlierTolerancePct (cf_Aggregator c)") (auto simp: fle_def flt_def feq_def)
  from v(2) have "(\<forall>p \<in> set (cf_Providers c). cp_Name p \<noteq> [] \<and> cp_Type p \<noteq> []) \<and> distinct (map cp_Name (cf_Providers c))"
    by (simp add: validate_providers_None gm.wf_empty)
  then show ?thesis
    using c v(1) pos tol applyDefaults_idem [of c0] seconds_exact [of "cc_ComputeTTLSeconds (cf_Cache c)"]
      seconds_exact [of "ca_MaxAgeSeconds (cf_Aggregator c)"]
    unfolding ComputeTTL_def MaxAge_def by blast
qed

definition sample_config :: config where
  "sample_config = \<lparr>cf_Server = \<lparr>cs_Listen = '':8080''\<rparr>,
     cf_Cache = \<lparr>cc_ComputeTTLSeconds = 0, cc_HTTPCacheMaxAgeSec = 30\<rparr>,
     cf_Aggregator = \<lparr>ca_OutlierTolerancePct = Fin (- 1), ca_MinProviders = 2, ca_MaxAgeSeconds = 0, ca_RetentionDays = 0\<rparr>,
     cf_Providers = [\<lparr>cp_Name = ''a'', cp_Type = ''yahoo'', cp_Config = None, cp_Priority = 1, cp_CallsPerDay = None,
       cp_ScheduleCron = [], cp_Enabled = True, cp_Extra = None\<rparr>]\<rparr>"

lemma Load_sample: "Load (\<lambda>_. Inr []) (\<lambda>_. Inr sample_config) ''config.yaml'' = Inr (applyDefaults sample_config)"
  by (simp add: Load_def Let_def Validate_def applyDefaults_def sample_config_def map_defs)

theorem load_yields_valid_config_witness:
  "applyDefaults (applyDefaults sample_config) = applyDefaults sample_config
   \<and> sint (ComputeTTL (cf_Cache (applyDefaults sample_config))) = 60 * ns_per_sec"
proof -
  have "sint (cc_ComputeTTLSeconds (cf_Cache (applyDefaults sample_config))) = 60"
    by (simp add: applyDefaults_def sample_config_def default_int_def)
  with load_yields_valid_config [OF Load_sample] show ?thesis by simp
qed

text \<open>
  What loading refuses. Once the file is read and parsed, loading fails exactly when the
  listening address is missing or some provider has no name, no type or the name of an earlier
  one; the error is that of the first such provider and carries its index.
\<close>

theorem load_reports_first_problem:
  assumes "read_file path = Inr b" and "yaml b = Inr c0"
  shows "Load read_file yaml path = Inl e \<longleftrightarrow>
    (if cs_Listen (cf_Server c0) = [] then e = ListenRequired
     else \<exists>k < length (cf_Providers c0).
       provider_problem (cp_Name ` set (take k (cf_Providers c0))) k (cf_Providers c0 ! k) = Some e
       \<and> (\<forall>j < k. provider_problem (cp_Name ` set (take j (cf_Providers c0))) j (cf_Providers c0 ! j) = None))"
proof -
  have "Load read_file yaml path = Inl e \<longleftrightarrow> Validate (applyDefaults c0) = Some e"
    using assms by (simp add: Load_def Let_def split: option.split)
  also have "\<dots> \<longleftrightarrow> (if cs_Listen (cf_Server c0) = [] then e = ListenRequired
      else validate_providers 0 [] (cf_Providers c0) = Some e)"
    by (auto simp: Validate_def applyDefaults_def Let_def)
  finally show ?thesis
    using validate_providers_problem [OF gm.wf_empty, of 0 "cf_Providers c0" e] by (simp add: gm.get_empty)
qed

theorem load_reports_first_problem_witness:
  "Load (\<lambda>_. Inr []) (\<lambda>_. Inr (sample_config\<lparr>cf_Providers := cf_Providers sample_config @ cf_Providers sample_config\<rparr>)) ''c''
     = Inl (DuplicateName 1 ''a'')"
  by (subst load_reports_first_problem [OF refl refl])
    (simp add: sample_config_def provider_problem_def Ex_less_Suc2 All_less_Suc2)

section \<open>The currencies\<close>

lemma load_codes_result:
  assumes "map_wf out"
  shows "case find (\<lambda>c. length c \<noteq> 3) (filter (\<lambda>c. c \<noteq> []) (map (\<lambda>c. TrimSpace (to_upper c)) cs)) of
      Some c \<Rightarrow> load_codes cs out = Inl (InvalidCode c)
    | None \<Rightarrow> \<exists>m. load_codes cs out = Inr m \<and> map_wf m
        \<and> dom (map_get m) = dom (map_get out) \<union> set (filter (\<lambda>c. c \<noteq> []) (map (\<lambda>c. TrimSpace (to_upper c)) cs))"
  using assms
proof (induction cs arbitrary: out)
  case (Cons c cs)
  show ?case using Cons.IH [OF Cons.prems] Cons.IH [OF gm.wf_put [OF Cons.prems, of "TrimSpace (to_upper c)" "()"]]
    by (auto simp: Let_def gm.get_put [OF Cons.prems] split: option.splits)
qed simp

text \<open>
  C33: the currencies are those the variable lists. The value is trimmed, split at commas, every
  part put in upper case and trimmed, and empty parts are dropped. An empty value is an error, a
  part that is not three bytes long is the error reported for the first such part, and otherwise
  the allowed currencies are exactly the parts and \<open>USD\<close>.
\<close>

theorem currencies_exact:
  "case (TrimSpace (env ''ARGOSFX_CURRENCIES''),
         filter (\<lambda>c. c \<noteq> []) (map (\<lambda>c. TrimSpace (to_upper c))
           (split_at CHR '','' (TrimSpace (env ''ARGOSFX_CURRENCIES''))))) of
     (raw, codes) \<Rightarrow>
       LoadCurrencies env = Inl CurrenciesRequired \<and> raw = []
     \<or> (\<exists>c. LoadCurrencies env = Inl (InvalidCode c) \<and> raw \<noteq> [] \<and> find (\<lambda>c. length c \<noteq> 3) codes = Some c)
     \<or> (\<exists>m. LoadCurrencies env = Inr m \<and> map_wf m \<and> raw \<noteq> [] \<and> find (\<lambda>c. length c \<noteq> 3) codes = None
          \<and> dom (map_get m) = insert ''USD'' (set codes))"
proof -
  define raw where "raw = TrimSpace (env ''ARGOSFX_CURRENCIES'')"
  define codes where "codes = filter (\<lambda>c. c \<noteq> []) (map (\<lambda>c. TrimSpace (to_upper c)) (split_at CHR '','' raw))"
  have "LoadCurrencies env = Inl CurrenciesRequired \<and> raw = []
     \<or> (\<exists>c. LoadCurrencies env = Inl (InvalidCode c) \<and> raw \<noteq> [] \<and> find (\<lambda>c. length c \<noteq> 3) codes = Some c)
     \<or> (\<exists>m. LoadCurrencies env = Inr m \<and> map_wf m \<and> raw \<noteq> [] \<and> find (\<lambda>c. length c \<noteq> 3) codes = None
          \<and> dom (map_get m) = insert ''USD'' (set codes))" (is ?res)
  proof (cases "raw = []")
    case True
    then show ?res by (simp add: LoadCurrencies_def raw_def)
  next
    case False
    have L: "LoadCurrencies env = (case load_codes (split_at CHR '','' raw) [] of Inl e \<Rightarrow> Inl e
        | Inr out \<Rightarrow> Inr (if map_get out ''USD'' = None then map_set ''USD'' () out else out))"
      using False by (simp add: LoadCurrencies_def raw_def Let_def)
    note r = load_codes_result [OF gm.wf_empty, of "split_at CHR '','' raw", folded codes_def]
    show ?res
    proof (cases "find (\<lambda>c. length c \<noteq> 3) codes")
      case (Some c)
      with r L False show ?res by simp
    next
      case None
      with r obtain m where m: "load_codes (split_at CHR '','' raw) [] = Inr m" "map_wf m" "dom (map_get m) = set codes"
        by (auto simp: gm.get_empty)
      show ?res
      proof (cases "map_get m ''USD''")
        case n: None
        then show ?res using m L False None
          by (auto simp: gm.wf_put gm.get_put intro!: exI [of _ "map_set ''USD'' () m"])
      next
        case (Some u)
        then have "''USD'' \<in> set codes" using m(3) by auto
        with Some m L False None show ?res by auto
      qed
    qed
  qed
  then show ?thesis unfolding raw_def codes_def prod.case .
qed


section \<open>Round trip\<close>

definition letter :: "char \<Rightarrow> bool" where
  "letter c \<longleftrightarrow> 65 \<le> (of_char c :: nat) \<and> (of_char c :: nat) \<le> 90 \<or> 97 \<le> (of_char c :: nat) \<and> (of_char c :: nat) \<le> 122"

lemma letter_simps [simp]: "\<not> letter CHR '',''" "letter (upper_char c) \<longleftrightarrow> letter c"
proof -
  show "\<not> letter CHR '',''" by (simp add: letter_def)
  show "letter (upper_char c) \<longleftrightarrow> letter c"
  proof (cases "97 \<le> (of_char c :: nat) \<and> (of_char c :: nat) \<le> 122")
    case True
    then have "(of_char c - 32 :: nat) < 256" by linarith
    with True show ?thesis by (auto simp: upper_char_def letter_def)
  qed (auto simp: upper_char_def)
qed

lemma white_space_ends: "w \<in> set white_spaces \<Longrightarrow> \<not> letter (hd w) \<and> \<not> letter (last w)"
  by (auto simp: white_spaces_def letter_def upt_rec)

lemma strip_with_letter:
  assumes "s \<noteq> []" and "letter (hd s)" and "\<And>w. orient w = w \<or> orient w = rev w"
  shows "strip_with orient s = None"
proof -
  have "take (length w) s \<noteq> orient w" if w: "w \<in> set white_spaces" for w
  proof
    assume t: "take (length w) s = orient w"
    have ne: "w \<noteq> []" using white_spaces_nonempty [OF w] by simp
    then have "hd s = hd (orient w)" using t [symmetric] assms(1) by (cases s; cases w) simp_all
    then have "hd s = hd w \<or> hd s = last w" using assms(3) [of w] ne by (auto simp: hd_rev)
    then show False using white_space_ends [OF w] assms(2) by auto
  qed
  then show ?thesis by (auto simp: strip_with_def find_None_iff)
qed

lemma TrimSpace_letters:
  assumes "s \<noteq> []" and "letter (hd s)" and "letter (last s)"
  shows "TrimSpace s = s"
proof -
  have "trim_left s = s"
    using strip_with_letter [of s id] assms by (subst trim_left.simps) simp
  moreover have "trim_right_rev (rev s) = rev s"
    using strip_with_letter [of "rev s" rev] assms by (subst trim_right_rev.simps) (simp add: hd_rev)
  ultimately show ?thesis by (simp add: TrimSpace_def)
qed

definition is_code :: "string \<Rightarrow> bool" where
  "is_code c \<longleftrightarrow> length c = 3 \<and> (\<forall>x \<in> set c. letter x)"

lemma is_code_ends:
  assumes "is_code c"
  shows "c \<noteq> []" "letter (hd c)" "letter (last c)" "CHR '','' \<notin> set c" "TrimSpace (to_upper c) = to_upper c"
proof -
  show c: "c \<noteq> []" using assms by (auto simp: is_code_def)
  then have "hd c \<in> set c" "last c \<in> set c" by simp_all
  then show ends: "letter (hd c)" "letter (last c)" using assms unfolding is_code_def by blast+
  show "CHR '','' \<notin> set c" using assms by (auto simp: is_code_def)
  show "TrimSpace (to_upper c) = to_upper c"
    by (rule TrimSpace_letters) (use c ends in \<open>simp_all add: to_upper_def hd_map last_map\<close>)
qed

lemma Join_ends:
  "ss \<noteq> [] \<Longrightarrow> \<forall>s \<in> set ss. is_code s \<Longrightarrow>
    Join ss '','' \<noteq> [] \<and> letter (hd (Join ss '','')) \<and> letter (last (Join ss '',''))"
proof (induction ss)
  case (Cons s ss)
  then have "s \<noteq> []" "letter (hd s)" "letter (last s)" using is_code_ends [of s] by auto
  then show ?case using Cons by (cases ss) auto
qed simp

text \<open>
  A list of currency codes survives the environment variable. Joining codes of three letters
  with commas, in any case and order, and loading the result allows exactly these codes in upper
  case, and \<open>USD\<close>.
\<close>

theorem currencies_roundtrip:
  assumes "codes \<noteq> []" and "\<forall>c \<in> set codes. is_code c" and "env ''ARGOSFX_CURRENCIES'' = Join codes '',''"
  shows "\<exists>m. LoadCurrencies env = Inr m \<and> map_wf m \<and> dom (map_get m) = insert ''USD'' (to_upper ` set codes)"
proof -
  have ends: "Join codes '','' \<noteq> []" "letter (hd (Join codes '',''))" "letter (last (Join codes '',''))"
    using Join_ends [OF assms(1,2)] by auto
  have "\<forall>c \<in> set codes. CHR '','' \<notin> set c" using assms(2) is_code_ends(4) by blast
  then have split: "split_at CHR '','' (TrimSpace (Join codes '','')) = codes"
    using TrimSpace_letters [OF ends] split_Join [OF assms(1)] by simp
  have up: "map (\<lambda>c. TrimSpace (to_upper c)) codes = map to_upper codes"
    using assms(2) is_code_ends(5) by auto
  have ne: "filter (\<lambda>c. c \<noteq> []) (map to_upper codes) = map to_upper codes"
    using assms(2) by (auto simp: filter_id_conv is_code_def)
  have "find (\<lambda>c. length c \<noteq> 3) (map to_upper codes) = None"
    using assms(2) by (auto simp: find_None_iff is_code_def)
  then obtain m where "load_codes codes [] = Inr m" "map_wf m" "dom (map_get m) = to_upper ` set codes"
    using load_codes_result [OF gm.wf_empty, of codes] unfolding up ne by (auto simp: gm.get_empty)
  then show ?thesis
    using TrimSpace_letters [OF ends] split ends(1) assms(3)
    by (auto simp: LoadCurrencies_def Let_def gm.wf_put gm.get_put insert_absorb domI)
qed

theorem currencies_roundtrip_witness:
  "\<exists>m. LoadCurrencies (\<lambda>_. ''eur,JPY'') = Inr m \<and> dom (map_get m) = {''USD'', ''EUR'', ''JPY''}"
proof -
  have "\<forall>c \<in> set [''eur'', ''JPY'']. is_code c" by (simp add: is_code_def letter_def)
  then obtain m where m: "LoadCurrencies (\<lambda>_. ''eur,JPY'') = Inr m"
      "dom (map_get m) = insert ''USD'' (to_upper ` set [''eur'', ''JPY''])"
    using currencies_roundtrip [of "[''eur'', ''JPY'']" "\<lambda>_. ''eur,JPY''"] by fastforce
  have "to_upper ''eur'' = ''EUR''" "to_upper ''JPY'' = ''JPY''" by code_simp+
  with m(2) have "dom (map_get m) = {''USD'', ''EUR'', ''JPY''}" by simp
  with m(1) show ?thesis by blast
qed

end
