(* ===== verification/Strconv.thy ===== *)
theory Strconv
  imports GoTime Float64
begin

text \<open>
  What the program uses of Go's \<open>strconv\<close>: the shortest decimal text of a float in the formats
  \<open>'e'\<close>, \<open>'f'\<close> and \<open>'g'\<close>, unsigned integers in decimal, and reading a decimal number back.
  The theory shows that the text of a float reads back as that float (\<open>number_FormatFloat\<close>):
  the shortest text by its definition, and the fallback because 17 digits always identify a
  binary64 value.
\<close>

section \<open>Shortest decimals\<close>

text \<open>The integer part of the decimal logarithm.\<close>

function ilog10 :: "int \<Rightarrow> nat" where
  "ilog10 n = (if n < 10 then 0 else Suc (ilog10 (n div 10)))"
  by pat_completeness auto
termination
  by (relation "measure nat") auto

declare ilog10.simps [simp del]

definition dexp :: "rat \<Rightarrow> int" where
  "dexp x = (let (p, q) = quotient_of x; e = int (ilog10 p) - int (ilog10 q)
             in if 10 powi e \<le> x then e else e - 1)"

text \<open>
  The decimals with \<open>n\<close> digits around \<open>x\<close>: the nearest one, and the one on the other side,
  each a coefficient of \<open>10 powi k\<close>. The nearest comes first; at a power of two only the other
  one may read back as \<open>x\<close>.
\<close>

definition near_decimal :: "nat \<Rightarrow> rat \<Rightarrow> (int \<times> int) option" where
  "near_decimal n x =
     (let k = dexp x + 1 - int n; y = x / 10 powi k; c = rne y;
          c' = (if c = \<lfloor>y\<rfloor> then c + 1 else c - 1)
      in if rndq (of_int c * 10 powi k) = x then Some (c, k)
         else if rndq (of_int c' * 10 powi k) = x then Some (c', k) else None)"

definition shortest :: "rat \<Rightarrow> int \<times> int" where
  "shortest x =
     (case find (\<lambda>n. near_decimal n x \<noteq> None) [1..<17] of
        Some n \<Rightarrow> the (near_decimal n x)
      | None \<Rightarrow> (let k = dexp x - 16 in (rne (x / 10 powi k), k)))"

text \<open>The digits without trailing zeros and the position of the decimal point before them.\<close>

definition strip_zeros :: "string \<Rightarrow> string" where
  "strip_zeros s = rev (dropWhile (\<lambda>c. c = CHR ''0'') (rev s))"

definition decimal_slice :: "rat \<Rightarrow> string \<times> int" where
  "decimal_slice x =
     (if x = 0 then ([], 0)
      else let (c, k) = shortest x; ds = decimal (nat c) in (strip_zeros ds, int (length ds) + k))"

section \<open>Formats\<close>

text \<open>\<open>%e\<close> with all digits: at least two digits of exponent.\<close>

definition zeros :: "nat \<Rightarrow> string" where
  "zeros n = replicate n CHR ''0''"

definition frac_text :: "string \<Rightarrow> string" where
  "frac_text fp = (if fp = [] then [] else CHR ''.'' # fp)"

definition exp_sign :: "int \<Rightarrow> string" where
  "exp_sign e = (if e < 0 then ''e-'' else ''e+'')"

definition exp_digits :: "int \<Rightarrow> string" where
  "exp_digits e = (if \<bar>e\<bar> < 10 then ''0'' @ decimal (nat \<bar>e\<bar>) else decimal (nat \<bar>e\<bar>))"

definition fmt_e :: "string \<times> int \<Rightarrow> string" where
  "fmt_e d = (case d of (ds, dp) \<Rightarrow>
     let first = (case ds of [] \<Rightarrow> ''0'' | c # _ \<Rightarrow> [c]); e = (if ds = [] then 0 else dp - 1)
     in first @ frac_text (tl ds) @ exp_sign e @ exp_digits e)"

text \<open>\<open>%f\<close> with as many decimals as the digits need.\<close>

definition fmt_f :: "string \<times> int \<Rightarrow> string" where
  "fmt_f d = (case d of (ds, dp) \<Rightarrow>
     let n = nat dp
     in (if 0 < dp then take n ds @ zeros (n - length ds) else ''0'')
        @ (if int (length ds) - dp \<le> 0 then []
           else CHR ''.'' # (if 0 < dp then drop n ds else zeros (nat (- dp)) @ ds)))"

definition fmt_g :: "string \<times> int \<Rightarrow> string" where
  "fmt_g d = (if snd d - 1 < - 4 \<or> 6 \<le> snd d - 1 then fmt_e d else fmt_f d)"

text \<open>\<open>FormatFloat(v, fmt, -1, 64)\<close>: the format is applied to the magnitude.\<close>

definition FormatFloat :: "(string \<times> int \<Rightarrow> string) \<Rightarrow> f64 \<Rightarrow> string" where
  "FormatFloat fmt v =
     (case v of NaN \<Rightarrow> ''NaN'' | PInf \<Rightarrow> ''+Inf'' | NInf \<Rightarrow> ''-Inf''
      | NZero \<Rightarrow> ''-'' @ fmt (decimal_slice 0)
      | Fin q \<Rightarrow> (if q < 0 then ''-'' else []) @ fmt (decimal_slice \<bar>q\<bar>))"

definition FormatUint :: "64 word \<Rightarrow> string" where
  "FormatUint n = decimal (unat n)"

section \<open>Numbers\<close>

text \<open>
  A decimal number: its sign, the digits before and after the point and the exponent. The
  value is exact; \<open>parse_float\<close> rounds it and fails when it overflows.
\<close>

definition scan_sign :: "string \<Rightarrow> bool \<times> string" where
  "scan_sign s = (case s of c # r \<Rightarrow> if c = CHR ''-'' then (True, r) else if c = CHR ''+'' then (False, r) else (False, s)
     | [] \<Rightarrow> (False, s))"

definition scan_exp :: "string \<Rightarrow> int" where
  "scan_exp s = (case s of c # r \<Rightarrow>
       if c = CHR ''e'' \<or> c = CHR ''E''
       then let (neg, ds) = scan_sign r; e = int (digits_val (takeWhile is_digit ds)) in if neg then - e else e
       else 0
     | [] \<Rightarrow> 0)"

definition scan_frac :: "string \<Rightarrow> string \<times> string" where
  "scan_frac s = (case s of c # r \<Rightarrow> if c = CHR ''.'' then (takeWhile is_digit r, dropWhile is_digit r) else ([], s)
     | [] \<Rightarrow> ([], s))"

definition number_magnitude :: "string \<Rightarrow> rat" where
  "number_magnitude s =
     (let ip = takeWhile is_digit s; (fp, r) = scan_frac (dropWhile is_digit s)
      in of_nat (digits_val (ip @ fp)) * 10 powi (scan_exp r - int (length fp)))"

definition parse_float :: "string \<Rightarrow> f64 option" where
  "parse_float s =
     (let (neg, r) = scan_sign s; m = number_magnitude r; v = mkf neg (if neg then - m else m)
      in if finf v then None else Some v)"

section \<open>The shortest decimal identifies the float\<close>

lemma ilog10_bounds: "0 < n \<Longrightarrow> 10 ^ ilog10 n \<le> n \<and> n < 10 * 10 ^ ilog10 n"
proof (induction n rule: ilog10.induct)
  case (1 n)
  show ?case
  proof (cases "n < 10")
    case True
    with 1 show ?thesis by (simp add: ilog10.simps)
  next
    case False
    with 1 have "10 ^ ilog10 (n div 10) \<le> n div 10 \<and> n div 10 < 10 * 10 ^ ilog10 (n div 10)" by simp
    with False show ?thesis by (auto simp: ilog10.simps [of n])
  qed
qed

lemma powi10_pos [simp]: "0 < (10::rat) powi e"
  by simp

lemma powi10_Suc: "(10::rat) powi (a + 1) = 10 * 10 powi a"
  by (simp add: power_int_add)

lemma dexp_bounds:
  assumes "0 < x"
  shows "10 powi dexp x \<le> x" and "x < 10 powi (dexp x + 1)"
proof -
  obtain p q where pq: "quotient_of x = (p, q)" by fastforce
  then have q: "0 < q" and x: "x = of_int p / of_int q"
    by (auto dest: quotient_of_denom_pos quotient_of_div)
  from assms x q have p: "0 < p" by (metis divide_nonpos_pos leI of_int_0_less_iff of_int_le_0_iff leD)
  let ?P = "(10::rat) ^ ilog10 p" and ?Q = "(10::rat) ^ ilog10 q"
  define e where "e = int (ilog10 p) - int (ilog10 q)"
  have e: "10 powi e = ?P / ?Q" by (simp add: e_def power_int_diff)
  have bounds: "10 ^ ilog10 n \<le> (of_int n :: rat) \<and> of_int n < (10 * 10 ^ ilog10 n :: rat)" if "0 < n" for n
  proof -
    have "(of_int (10 ^ ilog10 n) :: rat) \<le> of_int n" "(of_int n :: rat) < of_int (10 * 10 ^ ilog10 n)"
      using ilog10_bounds [OF that] by (simp_all only: of_int_le_iff of_int_less_iff)
    then show ?thesis by simp
  qed
  note P = bounds [OF p] and Q = bounds [OF q]
  have lo: "10 powi (e - 1) \<le> x"
  proof -
    have "10 powi (e - 1) = ?P / (10 * ?Q)" by (simp add: power_int_diff e)
    also have "\<dots> \<le> of_int p / of_int q" using P Q p q by (intro frac_le) auto
    finally show ?thesis by (simp add: x)
  qed
  have hi: "x < 10 powi (e + 1)"
  proof -
    have "of_int p / of_int q < (10 * ?P) / ?Q" using P Q p q by (intro frac_less) auto
    then show ?thesis by (simp add: x e powi10_Suc)
  qed
  show "10 powi dexp x \<le> x" "x < 10 powi (dexp x + 1)"
    using lo hi by (auto simp: dexp_def pq Let_def simp flip: e_def)
qed

lemma rne_unique: "\<bar>x - of_int m\<bar> < 1/2 \<Longrightarrow> rne x = m"
proof -
  assume "\<bar>x - of_int m\<bar> < 1/2"
  with rne_near [of x] have "\<bar>of_int (rne x) - (of_int m :: rat)\<bar> < 1" by linarith
  then have "\<bar>of_int (rne x - m) :: rat\<bar> < of_int 1" by simp
  then have "\<bar>rne x - m\<bar> < 1" by (simp only: of_int_less_iff flip: of_int_abs)
  then show ?thesis by simp
qed

lemma rndq_near_grid:
  assumes "y \<noteq> 0" and "x = of_int m * ulp y" and "\<bar>y - x\<bar> < ulp y / 2"
  shows "rndq y = x"
proof -
  have "\<bar>y / ulp y - of_int m\<bar> * ulp y = \<bar>y - x\<bar>"
    unfolding assms(2)
    by (metis abs_mult abs_of_pos left_diff_distrib nonzero_eq_divide_eq ulp_nonzero ulp_pos)
  with assms(3) have "\<bar>y / ulp y - of_int m\<bar> * ulp y < (1/2) * ulp y" by simp
  then have "\<bar>y / ulp y - of_int m\<bar> < 1/2" by (simp only: mult_less_cancel_right_pos ulp_pos)
  then have "rne (y / ulp y) = m" by (rule rne_unique)
  with assms(1,2) show ?thesis by (simp add: rndq_def)
qed

text \<open>A value within half an ulp of a float, or a quarter below a power of two, rounds to it.\<close>

lemma rndq_near:
  assumes x: "0 < x" "rndq x = x" and y: "0 < y" "\<bar>y - x\<bar> < ulp x / 2"
    and low: "x = 2 powi bexp x \<Longrightarrow> \<bar>y - x\<bar> < ulp x / 4"
  shows "rndq y = x"
proof -
  have xg: "x = of_int (rne (x / ulp x)) * ulp x" using x by (simp add: rndq_def)
  note xb = bexp_bounds [of x] and yb = bexp_bounds [of y]
  have hi: "y < 2 powi (bexp x + 1)"
  proof (cases "bexp x + 1 < - 1074")
    case True
    have "0 < (of_int (rne (x / ulp x)) :: rat)"
      using xg x(1) by (metis mult_nonpos_nonneg leD leI less_imp_le ulp_pos)
    then have "1 \<le> (of_int (rne (x / ulp x)) :: rat)" by simp
    then have "1 * ulp x \<le> of_int (rne (x / ulp x)) * ulp x" by (intro mult_right_mono) (simp_all add: less_imp_le)
    then have "ulp x \<le> x" using xg by simp
    moreover have "(2::rat) powi (bexp x + 1) \<le> ulp x"
      unfolding ulp_def ulp_exp_def using True by (intro powi2_mono) simp
    ultimately show ?thesis using xb x(1) by simp
  next
    case False
    define n where "n = nat (bexp x + 1 - ulp_exp x)"
    have "(2::rat) powi (bexp x + 1) = 2 powi (ulp_exp x + int n)"
      using False by (simp add: n_def ulp_exp_def)
    then have top: "2 powi (bexp x + 1) = of_int (2 ^ n) * ulp x" by (simp only: powi2_shift ulp_def) simp
    have "of_int (rne (x / ulp x)) * ulp x < of_int (2 ^ n) * ulp x" using xb(2) x(1) xg top by simp
    then have "rne (x / ulp x) < 2 ^ n" by (simp only: mult_less_cancel_right_pos ulp_pos of_int_less_iff)
    then have "rne (x / ulp x) + 1 \<le> 2 ^ n" by simp
    then have "of_int (rne (x / ulp x) + 1) * ulp x \<le> of_int (2 ^ n) * ulp x"
      by (simp only: mult_le_cancel_right_pos ulp_pos of_int_le_iff)
    then have "x + ulp x \<le> 2 powi (bexp x + 1)" using xg top by (simp add: distrib_right)
    with y(2) ulp_pos [of x] show ?thesis by linarith
  qed
  show ?thesis
  proof (cases "2 powi bexp x \<le> y")
    case True
    then have "bexp y = bexp x" using hi y(1) by (intro bexp_unique) auto
    then have "ulp y = ulp x" by (simp add: ulp_def ulp_exp_def)
    then show ?thesis using rndq_near_grid [of y x "rne (x / ulp x)"] xg y by simp
  next
    case False
    show ?thesis
    proof (cases "- 1074 < bexp x - 52")
      case small: False
      have "bexp y \<le> bexp x" using False xb(1) x(1) y(1) by (intro bexp_mono) auto
      then have "ulp y = ulp x" using small by (simp add: ulp_def ulp_exp_def)
      then show ?thesis using rndq_near_grid [of y x "rne (x / ulp x)"] xg y by simp
    next
      case normal: True
      have u: "2 powi bexp x = of_int (2 ^ 52) * ulp x"
        using normal powi2_shift [of "bexp x - 52" 52] by (simp add: ulp_def ulp_exp_def)
      have "of_int (rne (x / ulp x)) * ulp x < of_int (2 ^ 52 + 1) * ulp x"
      proof -
        have "x < 2 powi bexp x + ulp x" using False y(2) ulp_pos [of x] by linarith
        with u xg show ?thesis by (simp add: distrib_right)
      qed
      then have "rne (x / ulp x) \<le> 2 ^ 52" by (simp only: mult_less_cancel_right_pos ulp_pos of_int_less_iff)
      then have "of_int (rne (x / ulp x)) * ulp x \<le> of_int (2 ^ 52) * ulp x"
        by (simp only: mult_le_cancel_right_pos ulp_pos of_int_le_iff)
      then have pw: "x = 2 powi bexp x" using xg u xb(1) x(1) by simp
      note q = low [OF pw]
      have "bexp y = bexp x - 1"
      proof (rule bexp_unique)
        show "\<bar>y\<bar> < 2 powi (bexp x - 1 + 1)" using False y(1) by simp
        have "(2::rat) powi (bexp x - 1) = 2 powi bexp x / 2" using powi2_Suc [of "bexp x - 1"] by simp
        moreover have "ulp x / 4 \<le> 2 powi bexp x / 2" using u ulp_pos [of x] by simp
        ultimately show "2 powi (bexp x - 1) \<le> \<bar>y\<bar>" using q pw y(1) by linarith
      qed
      then have "ulp y = ulp x / 2"
        using normal powi2_Suc [of "bexp x - 53"] by (simp add: ulp_def ulp_exp_def)
      then have "ulp x = 2 * ulp y" by simp
      then have "x = of_int (2 * rne (x / ulp x)) * ulp y" "\<bar>y - x\<bar> < ulp y / 2"
        using xg q by (simp, linarith)
      with y(1) show ?thesis by (intro rndq_near_grid [where m = "2 * rne (x / ulp x)"]) auto
    qed
  qed
qed

text \<open>Seventeen digits are always enough.\<close>

lemma seventeen_digits:
  fixes x :: rat
  assumes x: "0 < x" "rndq x = x"
  defines "T \<equiv> 10 powi (dexp x - 16)"
  shows "rndq (of_int (rne (x / T)) * T) = x"
proof -
  have T: "0 < T" by (simp add: T_def)
  have "10 powi dexp x = 10 ^ 16 * T" by (simp add: T_def power_int_diff)
  with dexp_bounds(1) [OF x(1)] have xT: "10 ^ 16 * T \<le> x" by simp
  define U :: rat where "U = 2 powi (bexp x - 52)"
  have U: "U \<le> ulp x" unfolding U_def ulp_def ulp_exp_def by (rule powi2_mono) simp
  have U2: "2 powi bexp x = 2 ^ 52 * U" "2 powi (bexp x + 1) = 2 ^ 53 * U"
    using powi2_shift [of "bexp x - 52" 52] powi2_shift [of "bexp x - 52" 53] by (simp_all add: U_def add.commute)
  have "\<bar>of_int (rne (x / T)) - x / T\<bar> * T \<le> 1/2 * T"
    using T by (intro mult_right_mono rne_near) simp
  moreover have "\<bar>of_int (rne (x / T)) * T - x\<bar> = \<bar>of_int (rne (x / T)) - x / T\<bar> * T"
    using T by (metis abs_mult abs_of_pos left_diff_distrib less_irrefl nonzero_eq_divide_eq)
  ultimately have near: "\<bar>of_int (rne (x / T)) * T - x\<bar> \<le> T / 2" by simp
  have "x < 2 ^ 53 * U" using bexp_bounds(2) [of x] x(1) U2 by simp
  with xT U T have "T < ulp x" by simp
  show ?thesis
  proof (rule rndq_near [OF x])
    show "\<bar>of_int (rne (x / T)) * T - x\<bar> < ulp x / 2" using near \<open>T < ulp x\<close> by linarith
    show "\<bar>of_int (rne (x / T)) * T - x\<bar> < ulp x / 4" if "x = 2 powi bexp x"
    proof -
      have "10 ^ 16 * T \<le> 2 ^ 52 * U" using xT that U2(1) by linarith
      with U T have "T / 2 < ulp x / 4" by simp
      with near show ?thesis by linarith
    qed
    have "T / 2 < x" using xT T by simp
    with near show "0 < of_int (rne (x / T)) * T" by linarith
  qed
qed

lemma near_decimal_rounds: "near_decimal n x = Some (c, k) \<Longrightarrow> rndq (of_int c * 10 powi k) = x"
  by (auto simp: near_decimal_def Let_def split: if_splits)

lemma shortest_rounds:
  assumes "0 < x" and "rndq x = x" and "shortest x = (c, k)"
  shows "rndq (of_int c * 10 powi k) = x" and "0 < c"
proof -
  show r: "rndq (of_int c * 10 powi k) = x"
  proof (cases "find (\<lambda>n. near_decimal n x \<noteq> None) [1..<17]")
    case None
    then show ?thesis using seventeen_digits [OF assms(1,2)] assms(3) by (auto simp: shortest_def Let_def)
  next
    case (Some n)
    then have "near_decimal n x \<noteq> None" by (auto simp: find_Some_iff)
    with Some assms(3) show ?thesis by (auto simp: shortest_def near_decimal_rounds)
  qed
  show "0 < c"
  proof (rule ccontr)
    assume "\<not> 0 < c"
    then have "of_int c * (10::rat) powi k \<le> 0" by (simp add: mult_le_0_iff)
    with rndq_nonpos r assms(1) show False by fastforce
  qed
qed

section \<open>Digits\<close>

lemma digits_val_append: "digits_val (a @ b) = digits_val a * 10 ^ length b + digits_val b"
proof (induction b rule: rev_induct)
  case (snoc c b)
  then show ?case by (simp add: digits_val_def algebra_simps flip: append_assoc)
qed (simp add: digits_val_def)

lemma digits_val_simps [simp]: "digits_val [] = 0" "digits_val [c] = digit_val c"
  by (simp_all add: digits_val_def)

lemma digits_val_zeros [simp]: "digits_val (zeros n) = 0"
  by (induction n) (simp_all add: zeros_def digits_val_def digit_val_def)

lemma length_zeros [simp]: "length (zeros n) = n"
  by (simp add: zeros_def)

definition all_digits :: "string \<Rightarrow> bool" where
  "all_digits s \<longleftrightarrow> (\<forall>c \<in> set s. is_digit c)"

lemma all_digits_simps [simp]:
  "all_digits []" "all_digits (c # s) \<longleftrightarrow> is_digit c \<and> all_digits s"
  "all_digits (a @ b) \<longleftrightarrow> all_digits a \<and> all_digits b" "all_digits (zeros n)"
  "all_digits s \<Longrightarrow> all_digits (take n s)" "all_digits s \<Longrightarrow> all_digits (drop n s)" "all_digits s \<Longrightarrow> all_digits (tl s)"
  by (auto simp: all_digits_def zeros_def is_digit_def dest: in_set_takeD in_set_dropD)
    (cases s; auto)+

lemma decimal_digits: "all_digits (decimal n) \<and> digits_val (decimal n) = n \<and> decimal n \<noteq> []"
proof (induction n rule: decimal.induct)
  case (1 n)
  then show ?case
    by (cases "n < 10") (simp_all add: decimal.simps [of n] digits_val_append all_digits_def)
qed

lemma decimal_head: "0 < n \<Longrightarrow> hd (decimal n) \<noteq> CHR ''0''"
proof (induction n rule: decimal.induct)
  case (1 n)
  show ?case
  proof (cases "n < 10")
    case True
    then have "digit n \<noteq> digit 0" using 1 by (simp add: digit_eq)
    moreover have "digit 0 = CHR ''0''" by code_simp
    ultimately show ?thesis using True by (simp add: decimal.simps [of n])
  next
    case False
    with 1 have "hd (decimal (n div 10)) \<noteq> CHR ''0''" by simp
    moreover have "decimal (n div 10) \<noteq> []" using decimal_digits by blast
    ultimately show ?thesis using False by (simp add: decimal.simps [of n])
  qed
qed

lemma strip_zeros_split: "\<exists>n. s = strip_zeros s @ zeros n"
proof -
  have "rev s = takeWhile (\<lambda>c. c = CHR ''0'') (rev s) @ dropWhile (\<lambda>c. c = CHR ''0'') (rev s)" by simp
  moreover have "takeWhile (\<lambda>c. c = CHR ''0'') t = zeros (length (takeWhile (\<lambda>c. c = CHR ''0'') t))" for t
    by (induction t) (auto simp: zeros_def)
  ultimately have "rev (rev s) = strip_zeros s @ rev (zeros (length (takeWhile (\<lambda>c. c = CHR ''0'') (rev s))))"
    unfolding strip_zeros_def by (metis rev_append)
  then show ?thesis by (auto simp: zeros_def)
qed

text \<open>What the formats get for a positive float: digits, the first of them not zero, and their value.\<close>

definition slice_of :: "string \<times> int \<Rightarrow> rat \<Rightarrow> bool" where
  "slice_of d v \<longleftrightarrow> all_digits (fst d) \<and> fst d \<noteq> [] \<and> hd (fst d) \<noteq> CHR ''0''
     \<and> v = of_nat (digits_val (fst d)) * 10 powi (snd d - int (length (fst d)))"

lemma decimal_slice_of:
  assumes "0 < x" and "rndq x = x"
  obtains v where "slice_of (decimal_slice x) v" and "rndq v = x"
proof -
  obtain c k where s: "shortest x = (c, k)" by fastforce
  note c = shortest_rounds [OF assms s]
  define ds where "ds = decimal (nat c)"
  obtain n where n: "ds = strip_zeros ds @ zeros n" using strip_zeros_split by blast
  have d: "all_digits ds" "digits_val ds = nat c" "ds \<noteq> []" "hd ds \<noteq> CHR ''0''"
    using decimal_digits [of "nat c"] decimal_head [of "nat c"] c(2) by (simp_all add: ds_def)
  have val: "digits_val ds = digits_val (strip_zeros ds) * 10 ^ n"
    using arg_cong [OF n, of digits_val] by (simp add: digits_val_append)
  have ne: "strip_zeros ds \<noteq> []" using val d(2) c(2) by (cases "strip_zeros ds") auto
  have len: "length ds = length (strip_zeros ds) + n" using arg_cong [OF n, of length] by simp
  have "all_digits (strip_zeros ds)" using n d(1) by (metis all_digits_simps(3))
  moreover have "hd (strip_zeros ds) \<noteq> CHR ''0''" using n d(4) ne by (metis hd_append2)
  moreover have "of_int c * 10 powi k
      = of_nat (digits_val (strip_zeros ds)) * (10::rat) powi (int (length ds) + k - int (length (strip_zeros ds)))"
  proof -
    have "of_int c = (of_nat (digits_val ds) :: rat)" using d(2) c(2) by simp
    then show ?thesis using val by (simp add: len power_int_add)
  qed
  ultimately show ?thesis using that [of "of_int c * 10 powi k"] c(1) assms(1) ne
    by (simp add: decimal_slice_def s ds_def slice_of_def Let_def)
qed

section \<open>Reading the text of a float\<close>

lemma digit_runs:
  assumes "all_digits s" and "r = [] \<or> \<not> is_digit (hd r)"
  shows "takeWhile is_digit (s @ r) = s" and "dropWhile is_digit (s @ r) = r"
proof -
  have "takeWhile is_digit r = []" "dropWhile is_digit r = r" using assms(2) by (cases r; auto)+
  then show "takeWhile is_digit (s @ r) = s" "dropWhile is_digit (s @ r) = r"
    using assms(1) by (simp_all add: all_digits_def)
qed

definition exp_part :: "string \<Rightarrow> bool" where
  "exp_part r \<longleftrightarrow> r = [] \<or> hd r = CHR ''e''"

lemma number_text:
  assumes "all_digits ip" and "all_digits fp" and "exp_part r"
  shows "number_magnitude (ip @ frac_text fp @ r)
    = of_nat (digits_val (ip @ fp)) * 10 powi (scan_exp r - int (length fp))"
proof -
  have r: "r = [] \<or> \<not> is_digit (hd r)" "r = [] \<or> hd r \<noteq> CHR ''.''"
    using assms(3) by (auto simp: exp_part_def is_digit_def)
  let ?t = "frac_text fp @ r"
  have t: "?t = [] \<or> \<not> is_digit (hd ?t)" using r(1) by (simp add: is_digit_def frac_text_def)
  have "scan_frac ?t = (fp, r)"
  proof (cases "fp = []")
    case True
    with r(2) show ?thesis by (cases r) (auto simp: scan_frac_def frac_text_def)
  next
    case False
    then show ?thesis by (simp add: scan_frac_def frac_text_def digit_runs [OF assms(2) r(1)])
  qed
  then show ?thesis unfolding number_magnitude_def digit_runs [OF assms(1) t] by (simp add: Let_def)
qed

lemma scan_exp_text:
  assumes "all_digits ds"
  shows "scan_exp (''e-'' @ ds) = - int (digits_val ds)" and "scan_exp (''e+'' @ ds) = int (digits_val ds)"
proof -
  have "takeWhile is_digit ds = ds" using digit_runs(1) [OF assms, of "[]"] by simp
  then show "scan_exp (''e-'' @ ds) = - int (digits_val ds)" "scan_exp (''e+'' @ ds) = int (digits_val ds)"
    by (simp_all add: scan_exp_def scan_sign_def del: takeWhile_eq_all_conv)
qed

lemma exp_text:
  "all_digits (exp_digits e)" "exp_digits e \<noteq> []" "scan_exp (exp_sign e @ exp_digits e) = e"
  "scan_exp (exp_sign e @ decimal (nat \<bar>e\<bar>)) = e" "exp_part (exp_sign e @ s)"
proof -
  have z: "all_digits ''0''" "digits_val ''0'' = 0" using all_digits_simps(4) [of 1] digits_val_zeros [of 1] by (simp_all add: zeros_def)
  note d = decimal_digits [of "nat \<bar>e\<bar>"]
  show "all_digits (exp_digits e)" "exp_digits e \<noteq> []" using d z by (simp_all add: exp_digits_def)
  show "scan_exp (exp_sign e @ exp_digits e) = e" "scan_exp (exp_sign e @ decimal (nat \<bar>e\<bar>)) = e"
    unfolding exp_sign_def exp_digits_def using d z
    by (auto simp: scan_exp_text digits_val_append simp del: append_Cons append_Nil)
  show "exp_part (exp_sign e @ s)" by (simp add: exp_sign_def exp_part_def)
qed

text \<open>The parts of a formatted float: an integer part without leading zeros, decimals, an exponent.\<close>

definition int_part :: "string \<Rightarrow> bool" where
  "int_part s \<longleftrightarrow> s = ''0'' \<or> all_digits s \<and> s \<noteq> [] \<and> hd s \<noteq> CHR ''0''"

lemma int_part_digits: "int_part s \<Longrightarrow> all_digits s \<and> s \<noteq> []"
  by (auto simp: int_part_def is_digit_def)

lemma fmt_e_parts:
  assumes "slice_of d v"
  obtains c ds e where "fmt_e d = [c] @ frac_text ds @ exp_sign e @ exp_digits e" "int_part [c]" "all_digits ds"
    "v = of_nat (digits_val (c # ds)) * 10 powi (e - int (length ds))"
proof -
  obtain c ds dp where d: "d = (c # ds, dp)" using assms by (cases d; cases "fst d") (auto simp: slice_of_def)
  show ?thesis
  proof (rule that)
    show "fmt_e d = [c] @ frac_text ds @ exp_sign (dp - 1) @ exp_digits (dp - 1)" by (simp add: d fmt_e_def Let_def)
    show "int_part [c]" "all_digits ds" using assms by (simp_all add: d slice_of_def int_part_def)
    show "v = of_nat (digits_val (c # ds)) * 10 powi (dp - 1 - int (length ds))"
      using assms by (simp add: slice_of_def d algebra_simps)
  qed
qed

lemma fmt_e_value:
  assumes "slice_of d v"
  shows "number_magnitude (fmt_e d) = v"
proof -
  obtain c ds e where p: "fmt_e d = [c] @ frac_text ds @ exp_sign e @ exp_digits e" "int_part [c]" "all_digits ds"
    "v = of_nat (digits_val (c # ds)) * 10 powi (e - int (length ds))" by (rule fmt_e_parts [OF assms])
  have "all_digits [c]" using int_part_digits [OF p(2)] by blast
  from number_text [OF this p(3) exp_text(5)] show ?thesis unfolding p(1) by (simp add: exp_text p(4))
qed

lemma fmt_f_parts:
  assumes "slice_of d v"
  obtains ip fp where "fmt_f d = ip @ frac_text fp" "int_part ip" "all_digits fp"
    "v = of_nat (digits_val (ip @ fp)) * 10 powi (- int (length fp))"
proof -
  obtain ds dp where d: "d = (ds, dp)" by fastforce
  have ds: "all_digits ds" "ds \<noteq> []" "hd ds \<noteq> CHR ''0''" and v: "v = of_nat (digits_val ds) * 10 powi (dp - int (length ds))"
    using assms by (simp_all add: d slice_of_def)
  define ip where "ip = (if 0 < dp then take (nat dp) ds @ zeros (nat dp - length ds) else ''0'')"
  define fp where "fp = (if 0 < dp then drop (nat dp) ds else zeros (nat (- dp)) @ ds)"
  have "fp = [] \<longleftrightarrow> int (length ds) - dp \<le> 0" using ds(2) by (cases ds) (auto simp: fp_def)
  then have "fmt_f d = ip @ frac_text fp"
    by (simp add: d fmt_f_def ip_def fp_def frac_text_def Let_def)
  moreover have "int_part ip"
  proof (cases "0 < dp")
    case True
    then have "hd ip = hd ds" "ip \<noteq> []" using ds(2) by (cases ds; cases "nat dp"; simp add: ip_def)+
    with ds show ?thesis by (simp add: int_part_def ip_def True)
  qed (simp add: int_part_def ip_def)
  moreover have "all_digits fp" using ds(1) by (simp add: fp_def)
  moreover have "of_nat (digits_val (ip @ fp)) * (10::rat) powi (- int (length fp)) = v"
  proof (cases "0 < dp")
    case False
    then have "ip @ fp = ''0'' @ zeros (nat (- dp)) @ ds" by (simp add: ip_def fp_def)
    then have "digits_val (ip @ fp) = digits_val ds" by (simp add: digits_val_append digit_val_def del: append_Cons)
    with False show ?thesis by (simp add: v fp_def)
  next
    case True
    show ?thesis
    proof (cases "length ds \<le> nat dp")
      case True
      with \<open>0 < dp\<close> have "(10::rat) powi (dp - int (length ds)) = 10 ^ (nat dp - length ds)"
        by (subst power_int_of_nat [symmetric]) (simp add: of_nat_diff)
      then show ?thesis using True \<open>0 < dp\<close> by (simp add: v ip_def fp_def digits_val_append)
    next
      case False
      with \<open>0 < dp\<close> have "nat dp - length ds = 0" "- int (length (drop (nat dp) ds)) = dp - int (length ds)" by simp_all
      with \<open>0 < dp\<close> show ?thesis by (simp add: v ip_def fp_def zeros_def)
    qed
  qed
  ultimately show ?thesis using that by simp
qed

lemma fmt_f_value:
  assumes "slice_of d v"
  shows "number_magnitude (fmt_f d) = v"
proof -
  obtain ip fp where p: "fmt_f d = ip @ frac_text fp" "int_part ip" "all_digits fp"
    "v = of_nat (digits_val (ip @ fp)) * 10 powi (- int (length fp))" by (rule fmt_f_parts [OF assms])
  have "all_digits ip" "exp_part []" using int_part_digits [OF p(2)] by (simp_all add: exp_part_def)
  from number_text [OF this(1) p(3) this(2)] show ?thesis by (simp add: p(1,4) scan_exp_def)
qed

lemma fmt_g_value: "slice_of d v \<Longrightarrow> number_magnitude (fmt_g d) = v"
  by (simp add: fmt_g_def fmt_e_value fmt_f_value)

text \<open>The formats of a float, with what they share: the value and a first character that is a digit.\<close>

definition float_format :: "(string \<times> int \<Rightarrow> string) \<Rightarrow> bool" where
  "float_format fmt \<longleftrightarrow> fmt \<in> {fmt_e, fmt_f, fmt_g}"

lemma hd_digit: "all_digits s \<Longrightarrow> s \<noteq> [] \<Longrightarrow> is_digit (hd s)"
  by (cases s) simp_all

lemma format_starts:
  assumes "float_format fmt" and "slice_of d v"
  shows "\<exists>c r. fmt d = c # r \<and> is_digit c"
proof -
  obtain c ds dp where d: "d = (c # ds, dp)" using assms by (cases d; cases "fst d") (auto simp: slice_of_def)
  have c: "is_digit c" using assms(2) by (simp add: d slice_of_def)
  have z: "is_digit CHR ''0''" by (simp add: is_digit_def)
  have e: "\<exists>r. fmt_e d = c # r" by (auto simp: d fmt_e_def Let_def)
  have f: "\<exists>x r. fmt_f d = x # r \<and> is_digit x"
  proof (cases "0 < dp")
    case True
    then have "nat dp = Suc (nat (dp - 1))" by simp
    with c True show ?thesis by (simp add: d fmt_f_def Let_def)
  next
    case False
    with z show ?thesis by (simp add: d fmt_f_def Let_def)
  qed
  show ?thesis using assms(1) c e f by (auto simp: float_format_def fmt_g_def)
qed

lemma format_value: "float_format fmt \<Longrightarrow> slice_of d v \<Longrightarrow> number_magnitude (fmt d) = v"
  by (auto simp: float_format_def fmt_e_value fmt_f_value fmt_g_value)

lemma scan_sign_digit: "is_digit c \<Longrightarrow> scan_sign (c # r) = (False, c # r)"
  by (auto simp: scan_sign_def is_digit_def)

lemma format_zero:
  assumes "float_format fmt"
  shows "number_magnitude (fmt (decimal_slice 0)) = 0" and "\<exists>r. fmt (decimal_slice 0) = CHR ''0'' # r"
proof -
  have e: "fmt_e ([], 0) = ''0'' @ frac_text [] @ exp_sign 0 @ exp_digits 0"
    by (simp add: fmt_e_def Let_def)
  have f: "fmt_f ([], 0) = ''0'' @ frac_text [] @ []" "fmt_g ([], 0) = ''0'' @ frac_text [] @ []"
    by (simp_all add: fmt_f_def fmt_g_def frac_text_def)
  have z: "all_digits ''0''" "digits_val ''0'' = 0"
    using all_digits_simps(4) [of 1] digits_val_zeros [of 1] by (simp_all add: zeros_def)
  have v: "number_magnitude (''0'' @ frac_text [] @ r) = 0" if "exp_part r" for r
    using number_text [of "''0''" "[]" r] that z by simp
  have "number_magnitude (fmt_e ([], 0)) = 0" "number_magnitude (fmt_f ([], 0)) = 0" "number_magnitude (fmt_g ([], 0)) = 0"
    unfolding e f by (rule v [OF exp_text(5)], (rule v, simp add: exp_part_def)+)
  then show "number_magnitude (fmt (decimal_slice 0)) = 0"
    using assms by (auto simp: float_format_def decimal_slice_def)
  show "\<exists>r. fmt (decimal_slice 0) = CHR ''0'' # r"
    using assms e f by (auto simp: float_format_def decimal_slice_def)
qed

lemma mkf_exact: "rndq v = q \<Longrightarrow> q \<noteq> 0 \<Longrightarrow> \<bar>q\<bar> < f64_lim \<Longrightarrow> mkf s v = Fin q"
  by (auto simp: mkf_def Let_def)

lemma number_FormatFloat:
  assumes "float_format fmt" and "ffinite v" and "wff v"
  shows "parse_float (FormatFloat fmt v) = Some v"
proof (cases v)
  case NZero
  then show ?thesis using format_zero [OF assms(1)] by (simp add: FormatFloat_def parse_float_def scan_sign_def mkf_def)
next
  case (Fin q)
  then have q: "rndq q = q" "\<bar>q\<bar> < f64_lim" using assms(3) by (simp_all add: fin_ok_def)
  show ?thesis
  proof (cases "q = 0")
    case True
    have "is_digit CHR ''0''" by (simp add: is_digit_def)
    then show ?thesis using Fin True format_zero [OF assms(1)] scan_sign_digit
      by (force simp: FormatFloat_def parse_float_def mkf_def)
  next
    case False
    then obtain w where w: "slice_of (decimal_slice \<bar>q\<bar>) w" "rndq w = \<bar>q\<bar>"
      using decimal_slice_of [of "\<bar>q\<bar>"] q(1) by (auto simp: rndq_abs)
    obtain c r where t: "fmt (decimal_slice \<bar>q\<bar>) = c # r" "is_digit c" using format_starts [OF assms(1) w(1)] by blast
    have m: "number_magnitude (c # r) = w" using format_value [OF assms(1) w(1)] t by simp
    show ?thesis
    proof (cases "q < 0")
      case True
      then have "rndq (- w) = q" using w(2) by (simp add: rndq_minus)
      then have "mkf True (- w) = Fin q" using False q by (intro mkf_exact) auto
      with Fin True t m show ?thesis by (simp add: FormatFloat_def parse_float_def scan_sign_def)
    next
      case pos: False
      then have "mkf False w = Fin q" using False q w(2) by (intro mkf_exact) auto
      with Fin pos t m show ?thesis by (simp add: FormatFloat_def parse_float_def scan_sign_digit)
    qed
  qed
qed (use assms in simp_all)

end
