(* ===== verification/Json.thy ===== *)
theory Json
  imports GoValues Strconv
begin

text \<open>
  What the program uses of Go's \<open>encoding/json\<close>: reading a document into a tree (\<open>jval\<close>),
  writing a tree as text (\<open>json_text\<close>), and the conversions of trees to and from the fields of
  a struct. The adapters read the answers of the rate services with it, the HTTP interface writes
  its responses and reads cached ones back. The theory shows that a written document reads back
  as itself (\<open>decode_json_text\<close>).

  Numbers stay text in the tree, as they do in Go until the type of the target is known.
\<close>

datatype json = JNull | JBool bool | JNum string | JStr string | JArr "json list" | JObj "(string \<times> json) list"

section \<open>Strings\<close>

text \<open>The length of the UTF-8 sequence at the start, 0 when there is none.\<close>

definition byte_at :: "string \<Rightarrow> nat \<Rightarrow> nat" where
  "byte_at s i = (if i < length s then of_char (s ! i) else 0)"

definition byte_in :: "string \<Rightarrow> nat \<Rightarrow> nat \<Rightarrow> nat \<Rightarrow> bool" where
  "byte_in s i lo hi \<longleftrightarrow> lo \<le> byte_at s i \<and> byte_at s i \<le> hi"

definition two_bytes :: "string \<Rightarrow> bool" where
  "two_bytes s \<longleftrightarrow> byte_in s 0 0xC2 0xDF \<and> byte_in s 1 0x80 0xBF"

definition three_bytes :: "string \<Rightarrow> bool" where
  "three_bytes s \<longleftrightarrow>
     (byte_at s 0 = 0xE0 \<and> byte_in s 1 0xA0 0xBF \<or> byte_at s 0 = 0xED \<and> byte_in s 1 0x80 0x9F
      \<or> byte_in s 0 0xE1 0xEF \<and> byte_at s 0 \<noteq> 0xED \<and> byte_in s 1 0x80 0xBF)
     \<and> byte_in s 2 0x80 0xBF"

definition four_bytes :: "string \<Rightarrow> bool" where
  "four_bytes s \<longleftrightarrow>
     (byte_at s 0 = 0xF0 \<and> byte_in s 1 0x90 0xBF \<or> byte_at s 0 = 0xF4 \<and> byte_in s 1 0x80 0x8F
      \<or> byte_in s 0 0xF1 0xF3 \<and> byte_in s 1 0x80 0xBF)
     \<and> byte_in s 2 0x80 0xBF \<and> byte_in s 3 0x80 0xBF"

definition utf8_len :: "string \<Rightarrow> nat" where
  "utf8_len s =
     (if s = [] then 0 else if byte_at s 0 < 0x80 then 1 else if two_bytes s then 2
      else if three_bytes s then 3 else if four_bytes s then 4 else 0)"

definition utf8_encode :: "nat \<Rightarrow> string" where
  "utf8_encode n =
     (let tail = (\<lambda>k. char_of (0x80 + n div 64 ^ k mod 64))
      in if n < 0x80 then [char_of n]
         else if n < 0x800 then [char_of (0xC0 + n div 64), tail 0]
         else if n < 0x10000 then [char_of (0xE0 + n div 64 ^ 2), tail 1, tail 0]
         else [char_of (0xF0 + n div 64 ^ 3), tail 2, tail 1, tail 0])"

definition replacement :: string where
  "replacement = [CHR 0xEF, CHR 0xBF, CHR 0xBD]"

definition hexval :: "char \<Rightarrow> nat option" where
  "hexval c = (let n = of_char c :: nat in
     if 48 \<le> n \<and> n \<le> 57 then Some (n - 48)
     else if 97 \<le> n \<and> n \<le> 102 then Some (n - 87)
     else if 65 \<le> n \<and> n \<le> 70 then Some (n - 55) else None)"

definition hexdigit :: "nat \<Rightarrow> char" where
  "hexdigit n = (if n < 10 then char_of (48 + n) else char_of (87 + n))"

text \<open>Four hexadecimal digits and the rest.\<close>

definition hex4 :: "string \<Rightarrow> (nat \<times> string) option" where
  "hex4 s = (case s of a # b # c # d # r \<Rightarrow>
       (case (hexval a, hexval b, hexval c, hexval d) of
          (Some w, Some x, Some y, Some z) \<Rightarrow> Some (((w * 16 + x) * 16 + y) * 16 + z, r)
        | _ \<Rightarrow> None)
     | _ \<Rightarrow> None)"

text \<open>The character of a \<open>\u\<close> escape, which may take a second escape for its low surrogate.\<close>

definition u_escape :: "nat \<Rightarrow> string \<Rightarrow> string \<times> string" where
  "u_escape u r =
     (if u < 0xD800 \<or> 0xE000 \<le> u then (utf8_encode u, r)
      else case (take 2 r, hex4 (drop 2 r)) of
             ([e, c], Some (v, r2)) \<Rightarrow>
               if e = CHR 0x5C \<and> c = CHR ''u'' \<and> u < 0xDC00 \<and> 0xDC00 \<le> v \<and> v < 0xE000
               then (utf8_encode (0x10000 + (u - 0xD800) * 1024 + (v - 0xDC00)), r2)
               else (replacement, r)
           | _ \<Rightarrow> (replacement, r))"

definition escape_char :: "char \<Rightarrow> char option" where
  "escape_char c =
     (if c = CHR 0x22 \<or> c = CHR 0x5C \<or> c = CHR ''/'' then Some c
      else if c = CHR ''b'' then Some (CHR 0x08) else if c = CHR ''f'' then Some (CHR 0x0C)
      else if c = CHR ''n'' then Some (CHR 0x0A) else if c = CHR ''r'' then Some (CHR 0x0D)
      else if c = CHR ''t'' then Some (CHR 0x09) else None)"

lemma hex4_length: "hex4 s = Some (u, r) \<Longrightarrow> length r < length s"
  by (auto simp: hex4_def split: list.splits option.splits)

lemma u_escape_length: "length (snd (u_escape u r)) \<le> length r"
  by (auto simp: u_escape_def split: list.splits option.splits dest!: hex4_length)

text \<open>The string after an opening quote, and what follows its closing quote.\<close>

function scan_string :: "string \<Rightarrow> (string \<times> string) option" where
  "scan_string [] = None"
| "scan_string (c # r) =
     (if c = CHR 0x22 then Some ([], r)
      else if c = CHR 0x5C then (case r of
          [] \<Rightarrow> None
        | e # r2 \<Rightarrow>
            if e = CHR ''u'' then (case hex4 r2 of
                None \<Rightarrow> None
              | Some (u, r3) \<Rightarrow> map_option (map_prod (append (fst (u_escape u r3))) id) (scan_string (snd (u_escape u r3))))
            else (case escape_char e of
                None \<Rightarrow> None
              | Some x \<Rightarrow> map_option (map_prod (Cons x) id) (scan_string r2)))
      else if of_char c < (0x20 :: nat) then None
      else let k = utf8_len (c # r)
           in if k = 0 then map_option (map_prod (append replacement) id) (scan_string r)
              else map_option (map_prod (append (take k (c # r))) id) (scan_string (drop (k - 1) r)))"
  by pat_completeness auto
termination
proof (relation "measure length")
  fix c :: char and r e r2 uu u r3
  assume "r = e # r2" "hex4 r2 = Some uu" "(u, r3) = uu"
  then show "(snd (u_escape u r3), c # r) \<in> measure length"
    using hex4_length [of r2 u r3] u_escape_length [of u r3] by auto
qed auto

declare scan_string.simps(2) [simp del]

section \<open>Values\<close>

definition is_ws :: "char \<Rightarrow> bool" where
  "is_ws c \<longleftrightarrow> c = CHR '' '' \<or> c = CHR 0x09 \<or> c = CHR 0x0A \<or> c = CHR 0x0D"

definition skip_ws :: "string \<Rightarrow> string" where
  "skip_ws s = dropWhile is_ws s"

text \<open>The JSON grammar of numbers, as the text and the rest.\<close>

definition scan_digits :: "string \<Rightarrow> (string \<times> string) option" where
  "scan_digits s = (if takeWhile is_digit s = [] then None else Some (takeWhile is_digit s, dropWhile is_digit s))"

definition scan_int_part :: "string \<Rightarrow> (string \<times> string) option" where
  "scan_int_part s = (case s of c # r \<Rightarrow> if c = CHR ''0'' then Some (''0'', r) else scan_digits s | [] \<Rightarrow> None)"

definition scan_frac_part :: "string \<Rightarrow> (string \<times> string) option" where
  "scan_frac_part s = (case s of c # r \<Rightarrow>
       if c = CHR ''.'' then map_option (map_prod (Cons c) id) (scan_digits r) else Some ([], s)
     | [] \<Rightarrow> Some ([], s))"

definition scan_exp_part :: "string \<Rightarrow> (string \<times> string) option" where
  "scan_exp_part s = (case s of c # r \<Rightarrow>
       if c = CHR ''e'' \<or> c = CHR ''E''
       then (case r of g # r2 \<Rightarrow>
               if g = CHR ''+'' \<or> g = CHR ''-'' then map_option (map_prod (append [c, g]) id) (scan_digits r2)
               else map_option (map_prod (Cons c) id) (scan_digits r)
             | [] \<Rightarrow> None)
       else Some ([], s)
     | [] \<Rightarrow> Some ([], s))"

definition scan_number :: "string \<Rightarrow> (string \<times> string) option" where
  "scan_number s =
     (let (sign, r) = (case s of c # r \<Rightarrow> if c = CHR ''-'' then ([c], r) else ([], s) | [] \<Rightarrow> ([], s))
      in Option.bind (scan_int_part r) (\<lambda>(a, r1).
         Option.bind (scan_frac_part r1) (\<lambda>(b, r2).
         Option.bind (scan_exp_part r2) (\<lambda>(c, r3). Some (sign @ a @ b @ c, r3)))))"

definition starts_with :: "string \<Rightarrow> string \<Rightarrow> bool" where
  "starts_with p s \<longleftrightarrow> take (length p) s = p"

text \<open>
  \<open>n\<close> is fuel for the recursion, \<open>d\<close> the nesting that is still allowed (Go allows 10000). A
  call uses up a character or is followed by one that does, so twice the length of the text is
  always enough fuel (\<open>jval_fuel\<close>).
\<close>

fun jval :: "nat \<Rightarrow> nat \<Rightarrow> string \<Rightarrow> (json \<times> string) option"
  and jelems :: "nat \<Rightarrow> nat \<Rightarrow> string \<Rightarrow> (json list \<times> string) option"
  and jmembers :: "nat \<Rightarrow> nat \<Rightarrow> string \<Rightarrow> ((string \<times> json) list \<times> string) option" where
  "jval 0 d s = None"
| "jval (Suc n) d s0 =
     (let s = skip_ws s0 in
      if s = [] then None
      else if hd s = CHR 0x22 then map_option (map_prod JStr id) (scan_string (tl s))
      else if hd s = CHR ''['' then
        (if d = 0 then None
         else if starts_with '']'' (skip_ws (tl s)) then Some (JArr [], tl (skip_ws (tl s)))
         else map_option (map_prod JArr id) (jelems n (d - 1) (tl s)))
      else if hd s = CHR ''{'' then
        (if d = 0 then None
         else if starts_with ''}'' (skip_ws (tl s)) then Some (JObj [], tl (skip_ws (tl s)))
         else map_option (map_prod JObj id) (jmembers n (d - 1) (tl s)))
      else if starts_with ''true'' s then Some (JBool True, drop 4 s)
      else if starts_with ''false'' s then Some (JBool False, drop 5 s)
      else if starts_with ''null'' s then Some (JNull, drop 4 s)
      else map_option (map_prod JNum id) (scan_number s))"
| "jelems 0 d s = None"
| "jelems (Suc n) d s =
     Option.bind (jval n d s) (\<lambda>(v, r).
       if starts_with '','' (skip_ws r) then map_option (map_prod (Cons v) id) (jelems n d (tl (skip_ws r)))
       else if starts_with '']'' (skip_ws r) then Some ([v], tl (skip_ws r)) else None)"
| "jmembers 0 d s = None"
| "jmembers (Suc n) d s =
     (if starts_with [CHR 0x22] (skip_ws s) then
        Option.bind (scan_string (tl (skip_ws s))) (\<lambda>(k, r).
          if starts_with '':'' (skip_ws r) then
            Option.bind (jval n d (tl (skip_ws r))) (\<lambda>(v, r2).
              if starts_with '','' (skip_ws r2) then map_option (map_prod (Cons (k, v)) id) (jmembers n d (tl (skip_ws r2)))
              else if starts_with ''}'' (skip_ws r2) then Some ([(k, v)], tl (skip_ws r2)) else None)
          else None)
      else None)"

definition max_depth :: nat where
  "max_depth = 10000"

text \<open>\<open>Decoder.Decode\<close> reads the first value of a stream, \<open>Unmarshal\<close> a whole document.\<close>

definition decode_stream :: "string \<Rightarrow> json option" where
  "decode_stream s = map_option fst (jval (2 * length s + 2) max_depth s)"

definition decode_document :: "string \<Rightarrow> json option" where
  "decode_document s = (case jval (2 * length s + 2) max_depth s of
     None \<Rightarrow> None | Some (j, r) \<Rightarrow> if skip_ws r = [] then Some j else None)"

section \<open>Reading values into Go\<close>

text \<open>
  Each conversion gets the value the target holds already: \<open>null\<close> leaves it. None is an error;
  Go goes on after a type error but reports it in the end, and no caller uses the target then.
\<close>

definition dec_float :: "f64 \<Rightarrow> json \<Rightarrow> f64 option" where
  "dec_float old j = (case j of JNull \<Rightarrow> Some old | JNum t \<Rightarrow> parse_float t | _ \<Rightarrow> None)"

definition dec_string :: "string \<Rightarrow> json \<Rightarrow> string option" where
  "dec_string old j = (case j of JNull \<Rightarrow> Some old | JStr t \<Rightarrow> Some t | _ \<Rightarrow> None)"

definition dec_int64 :: "int \<Rightarrow> json \<Rightarrow> int option" where
  "dec_int64 old j = (case j of
     JNull \<Rightarrow> Some old
   | JNum t \<Rightarrow>
       (let (neg, ds) = scan_sign t; n = (if neg then - int (digits_val ds) else int (digits_val ds))
        in if list_all is_digit ds \<and> - (2 ^ 63) \<le> n \<and> n < 2 ^ 63 then Some n else None)
   | _ \<Rightarrow> None)"

fun dec_list :: "(json \<Rightarrow> 'a option) \<Rightarrow> json list \<Rightarrow> 'a list option" where
  "dec_list f [] = Some []"
| "dec_list f (j # js) = Option.bind (f j) (\<lambda>x. map_option (Cons x) (dec_list f js))"

definition dec_slice :: "(json \<Rightarrow> 'a option) \<Rightarrow> 'a list \<Rightarrow> json \<Rightarrow> 'a list option" where
  "dec_slice f old j = (case j of JNull \<Rightarrow> Some [] | JArr js \<Rightarrow> dec_list f js | _ \<Rightarrow> None)"

fun dec_entries :: "(string, f64) go_map \<Rightarrow> (string \<times> json) list \<Rightarrow> (string, f64) go_map option" where
  "dec_entries m [] = Some m"
| "dec_entries m ((k, j) # ms) = Option.bind (dec_float (Fin 0) j) (\<lambda>v. dec_entries (map_set k v m) ms)"

definition dec_float_map :: "(string, f64) go_map \<Rightarrow> json \<Rightarrow> (string, f64) go_map option" where
  "dec_float_map old j = (case j of JNull \<Rightarrow> Some [] | JObj ms \<Rightarrow> dec_entries old ms | _ \<Rightarrow> None)"

text \<open>
  Member names match field names without regard to case; the Kelvin sign and the long s fold to
  \<open>k\<close> and \<open>s\<close>.
\<close>

fun fold_name :: "string \<Rightarrow> string" where
  "fold_name (a # b # c # r) =
     (if a = CHR 0xE2 \<and> b = CHR 0x84 \<and> c = CHR 0xAA then CHR ''K'' # fold_name r
      else if a = CHR 0xC5 \<and> b = CHR 0xBF then CHR ''S'' # fold_name (c # r)
      else upper_char a # fold_name (b # c # r))"
| "fold_name [a, b] = (if a = CHR 0xC5 \<and> b = CHR 0xBF then ''S'' else [upper_char a, upper_char b])"
| "fold_name [a] = [upper_char a]"
| "fold_name [] = []"

declare fold_name.simps [simp del]

text \<open>A struct takes the members in order; \<open>step\<close> handles one whose name it knows.\<close>

fun dec_members :: "(string \<Rightarrow> json \<Rightarrow> 'a \<Rightarrow> 'a option) \<Rightarrow> 'a \<Rightarrow> (string \<times> json) list \<Rightarrow> 'a option" where
  "dec_members step x [] = Some x"
| "dec_members step x ((k, j) # ms) = Option.bind (step (fold_name k) j x) (\<lambda>y. dec_members step y ms)"

definition dec_struct :: "(string \<Rightarrow> json \<Rightarrow> 'a \<Rightarrow> 'a option) \<Rightarrow> 'a \<Rightarrow> json \<Rightarrow> 'a option" where
  "dec_struct step old j = (case j of JNull \<Rightarrow> Some old | JObj ms \<Rightarrow> dec_members step old ms | _ \<Rightarrow> None)"

section \<open>Writing\<close>

text \<open>The escapes of the encoder, which also protects HTML.\<close>

definition hex_escape :: "nat \<Rightarrow> string" where
  "hex_escape n = [CHR 0x5C, CHR ''u'', hexdigit (n div 4096 mod 16), hexdigit (n div 256 mod 16),
     hexdigit (n div 16 mod 16), hexdigit (n mod 16)]"

definition enc_ascii :: "char \<Rightarrow> string" where
  "enc_ascii c =
     (if c = CHR 0x22 \<or> c = CHR 0x5C then [CHR 0x5C, c]
      else if c = CHR 0x08 then [CHR 0x5C, CHR ''b''] else if c = CHR 0x0C then [CHR 0x5C, CHR ''f'']
      else if c = CHR 0x0A then [CHR 0x5C, CHR ''n''] else if c = CHR 0x0D then [CHR 0x5C, CHR ''r'']
      else if c = CHR 0x09 then [CHR 0x5C, CHR ''t'']
      else if of_char c < (0x20 :: nat) \<or> c = CHR ''<'' \<or> c = CHR ''>'' \<or> c = CHR ''&'' then hex_escape (of_char c)
      else [c])"

function enc_chars :: "string \<Rightarrow> string" where
  "enc_chars [] = []"
| "enc_chars (c # r) =
     (let k = utf8_len (c # r)
      in if k = 0 then hex_escape 0xFFFD @ enc_chars r
         else if k = 1 then enc_ascii c @ enc_chars r
         else (if take k (c # r) = utf8_encode 0x2028 then hex_escape 0x2028
               else if take k (c # r) = utf8_encode 0x2029 then hex_escape 0x2029
               else take k (c # r)) @ enc_chars (drop (k - 1) r))"
  by pat_completeness auto
termination
  by (relation "measure length") auto

declare enc_chars.simps(2) [simp del]

definition enc_string :: "string \<Rightarrow> string" where
  "enc_string s = CHR 0x22 # enc_chars s @ [CHR 0x22]"

fun json_text :: "json \<Rightarrow> string" where
  "json_text JNull = ''null''"
| "json_text (JBool b) = (if b then ''true'' else ''false'')"
| "json_text (JNum t) = t"
| "json_text (JStr s) = enc_string s"
| "json_text (JArr js) = ''['' @ Join (map json_text js) '','' @ '']''"
| "json_text (JObj ms) = ''{'' @ Join (map (\<lambda>(k, j). enc_string k @ '':'' @ json_text j) ms) '','' @ ''}''"

text \<open>A float as the encoder writes it; infinities and NaN are an error.\<close>

definition clean_exp :: "string \<Rightarrow> string" where
  "clean_exp s =
     (let n = length s
      in if 4 \<le> n \<and> s ! (n - 4) = CHR ''e'' \<and> (s ! (n - 3) = CHR ''-'' \<or> s ! (n - 3) = CHR ''+'') \<and> s ! (n - 2) = CHR ''0''
         then take (n - 2) s @ [s ! (n - 1)] else s)"

definition json_float :: "f64 \<Rightarrow> json option" where
  "json_float v =
     (if \<not> ffinite v then None
      else let a = \<bar>fval v\<bar>
           in if a \<noteq> 0 \<and> (a < fval (f64_const (1 / 10 ^ 6)) \<or> 10 ^ 21 \<le> a)
              then Some (JNum (clean_exp (FormatFloat fmt_e v))) else Some (JNum (FormatFloat fmt_f v)))"

text \<open>A map from names to floats, its members sorted by name.\<close>

fun enc_entries :: "(string \<times> f64) list \<Rightarrow> (string \<times> json) list option" where
  "enc_entries [] = Some []"
| "enc_entries ((k, v) # kvs) = Option.bind (json_float v) (\<lambda>j. map_option (Cons (k, j)) (enc_entries kvs))"

definition json_float_map :: "(string, f64) go_map \<Rightarrow> json option" where
  "json_float_map m = map_option JObj (enc_entries (sort_key fst m))"

definition json_int :: "int \<Rightarrow> json" where
  "json_int n = JNum ((if n < 0 then ''-'' else []) @ decimal (nat \<bar>n\<bar>))"

definition json_strings :: "string list \<Rightarrow> json" where
  "json_strings ss = JArr (map JStr ss)"

section \<open>Strings read back\<close>

function valid_utf8 :: "string \<Rightarrow> bool" where
  "valid_utf8 [] = True"
| "valid_utf8 (c # r) = (utf8_len (c # r) \<noteq> 0 \<and> valid_utf8 (drop (utf8_len (c # r) - 1) r))"
  by pat_completeness auto
termination
  by (relation "measure length") auto

lemma byte_at_0 [simp]: "byte_at (c # r) 0 = of_char c"
  by (simp add: byte_at_def)

lemma byte_in_length: "byte_in s i lo hi \<Longrightarrow> 0 < lo \<Longrightarrow> i < length s"
  by (auto simp: byte_in_def byte_at_def split: if_splits)

lemma bytes_length: "two_bytes s \<Longrightarrow> 2 \<le> length s" "three_bytes s \<Longrightarrow> 3 \<le> length s" "four_bytes s \<Longrightarrow> 4 \<le> length s"
proof -
  have tail: "byte_in s i 0x80 0xBF \<Longrightarrow> i < length s" for i using byte_in_length [of s i "0x80" "0xBF"] by simp
  show "two_bytes s \<Longrightarrow> 2 \<le> length s" using tail [of 1] by (auto simp: two_bytes_def)
  show "three_bytes s \<Longrightarrow> 3 \<le> length s" using tail [of 2] unfolding three_bytes_def by linarith
  show "four_bytes s \<Longrightarrow> 4 \<le> length s" using tail [of 3] unfolding four_bytes_def by linarith
qed

lemma utf8_len_ascii: "of_char c < (0x80 :: nat) \<Longrightarrow> utf8_len (c # r) = 1"
  by (simp add: utf8_len_def)

lemma utf8_len_1: "utf8_len (c # r) = 1 \<longleftrightarrow> of_char c < (0x80 :: nat)"
  by (simp add: utf8_len_def)

lemma utf8_len_le: "utf8_len s \<le> length s"
  using bytes_length [of s] by (cases s) (simp_all add: utf8_len_def)

lemma byte_at_take: "i < k \<Longrightarrow> k \<le> length s \<Longrightarrow> byte_at (take k s @ t) i = byte_at s i"
  by (simp add: byte_at_def nth_append)

lemma utf8_len_prefix:
  assumes "utf8_len s = k" and "0 < k"
  shows "utf8_len (take k s @ t) = k"
proof -
  let ?p = "take k s @ t"
  have k: "k \<le> length s" using utf8_len_le [of s] assms by simp
  note b = byte_at_take [OF _ k, of _ t]
  have ne: "?p \<noteq> []" "s \<noteq> []" using k assms(2) by auto
  have b0: "byte_at ?p 0 = byte_at s 0" using b assms(2) by simp
  have two: "two_bytes ?p = two_bytes s" if "2 \<le> k"
    using b [of 1] b0 that by (simp add: two_bytes_def byte_in_def)
  have three: "three_bytes ?p = three_bytes s" if "3 \<le> k"
    using b [of 1] b [of 2] b0 that by (simp add: three_bytes_def byte_in_def)
  have four: "four_bytes ?p = four_bytes s" if "4 \<le> k"
    using b [of 1] b [of 2] b [of 3] b0 that by (simp add: four_bytes_def byte_in_def)
  show ?thesis using assms ne b0 two three four by (auto simp: utf8_len_def split: if_splits)
qed

lemma append_single [simp]: "(@) [c] = (#) c"
  by (simp add: fun_eq_iff)

lemma hex_digits: "n < 16 \<Longrightarrow> hexval (hexdigit n) = Some n"
  by (auto simp: hexval_def hexdigit_def Let_def)

lemma hex4_escape:
  assumes "n < 65536"
  shows "hex4 (drop 2 (hex_escape n) @ t) = Some (n, t)"
proof -
  have "n div 4096 < 16" using assms by (simp add: less_mult_imp_div_less)
  moreover have "n div 4096 = n div 256 div 16" "n div 256 = n div 16 div 16" by (simp_all flip: div_mult2_eq)
  ultimately have "((n div 4096 * 16 + n div 256 mod 16) * 16 + n div 16 mod 16) * 16 + n mod 16 = n"
    by (metis div_mult_mod_eq)
  with \<open>n div 4096 < 16\<close> show ?thesis by (simp add: hex_escape_def hex4_def hex_digits)
qed

lemma scan_hex_escape:
  assumes "n < 0xD800"
  shows "scan_string (hex_escape n @ t) = map_option (map_prod (append (utf8_encode n)) id) (scan_string t)"
proof -
  define h where "h = drop 2 (hex_escape n)"
  have "hex_escape n = CHR 0x5C # CHR ''u'' # h" by (simp add: hex_escape_def h_def)
  then show ?thesis using hex4_escape [of n t] assms by (simp add: scan_string.simps(2) u_escape_def h_def [symmetric])
qed

lemma scan_enc_ascii:
  assumes "of_char c < (0x80 :: nat)"
  shows "scan_string (enc_ascii c @ t) = map_option (map_prod (Cons c) id) (scan_string t)"
proof (cases "of_char c < (0x20 :: nat) \<or> c = CHR ''<'' \<or> c = CHR ''>'' \<or> c = CHR ''&''")
  case True
  show ?thesis
  proof (cases "c = CHR 0x08 \<or> c = CHR 0x0C \<or> c = CHR 0x0A \<or> c = CHR 0x0D \<or> c = CHR 0x09")
    case True
    then show ?thesis by (auto simp: enc_ascii_def scan_string.simps(2) escape_char_def)
  next
    case False
    have "c \<noteq> CHR 0x22" "c \<noteq> CHR 0x5C" using True by auto
    then have "enc_ascii c = hex_escape (of_char c)" using True False by (simp add: enc_ascii_def)
    then show ?thesis using scan_hex_escape [of "of_char c" t] assms by (simp add: utf8_encode_def)
  qed
next
  case False
  then have "c \<noteq> CHR 0x08" "c \<noteq> CHR 0x0C" "c \<noteq> CHR 0x0A" "c \<noteq> CHR 0x0D" "c \<noteq> CHR 0x09" by auto
  then have "enc_ascii c = (if c = CHR 0x22 \<or> c = CHR 0x5C then [CHR 0x5C, c] else [c])"
    using False by (simp add: enc_ascii_def)
  then show ?thesis using False utf8_len_ascii [OF assms, of t]
    by (auto simp: scan_string.simps(2) escape_char_def)
qed

lemma scan_multibyte:
  assumes "utf8_len s = k" and "1 < k"
  shows "scan_string (take k s @ t) = map_option (map_prod (append (take k s)) id) (scan_string t)"
proof -
  obtain c r where s: "s = c # r" using assms by (cases s) (auto simp: utf8_len_def)
  have "\<not> of_char c < (0x80 :: nat)" using assms utf8_len_1 [of c r] s by auto
  then have c: "\<not> of_char c < (0x20 :: nat)" "c \<noteq> CHR 0x22" "c \<noteq> CHR 0x5C" by auto
  have p: "utf8_len (take k s @ t) = k" using utf8_len_prefix [OF assms(1)] assms(2) by simp
  obtain j where k: "k = Suc j" using assms(2) by (cases k) auto
  have len: "length (take j r) = j" using utf8_len_le [of s] assms(1) s k by simp
  have "take k s @ t = c # take j r @ t" by (simp add: s k)
  with p c len show ?thesis by (simp add: scan_string.simps(2) k s)
qed

lemma scan_enc_chars:
  "valid_utf8 s \<Longrightarrow> scan_string (enc_chars s @ CHR 0x22 # r) = Some (s, r)"
proof (induction s rule: valid_utf8.induct)
  case 1
  then show ?case by (simp add: scan_string.simps(2))
next
  case (2 c s)
  define k where "k = utf8_len (c # s)"
  from 2 have k: "k \<noteq> 0" and IH: "scan_string (enc_chars (drop (k - 1) s) @ CHR 0x22 # r) = Some (drop (k - 1) s, r)"
    by (simp_all add: k_def)
  show ?case
  proof (cases "k = 1")
    case True
    then have "of_char c < (0x80 :: nat)" using utf8_len_1 [of c s] by (simp add: k_def)
    then show ?thesis using True k IH scan_enc_ascii [of c]
      by (simp add: enc_chars.simps(2) k_def [symmetric] Let_def)
  next
    case False
    then have k2: "1 < k" using k by simp
    have len: "length (take k (c # s)) = k" using utf8_len_le [of "c # s"] by (simp add: k_def)
    have split: "take k (c # s) @ drop (k - 1) s = c # s" using k2 by (cases k) simp_all
    have uni: "scan_string (hex_escape n @ t) = map_option (map_prod (append (take k (c # s))) id) (scan_string t)"
      if "take k (c # s) = utf8_encode n" "n < 0xD800" for n t
      using scan_hex_escape that by simp
    have "enc_chars (c # s) = (if take k (c # s) = utf8_encode 0x2028 then hex_escape 0x2028
        else if take k (c # s) = utf8_encode 0x2029 then hex_escape 0x2029 else take k (c # s)) @ enc_chars (drop (k - 1) s)"
      using False k by (simp add: enc_chars.simps(2) k_def [symmetric] Let_def)
    then show ?thesis
      using uni [of "0x2028"] uni [of "0x2029"] scan_multibyte [OF k_def [symmetric] k2] IH split by auto
  qed
qed

section \<open>Enough fuel\<close>

lemma length_skip_ws: "length (skip_ws s) \<le> length s"
  by (simp add: skip_ws_def length_dropWhile_le)

lemma scan_string_shorter: "scan_string s = Some (t, r) \<Longrightarrow> length r < length s"
proof (induction s arbitrary: t rule: scan_string.induct)
  case (2 c s)
  from 2(5) consider "c = CHR 0x22" "r = s"
    | e r2 u r3 v where "s = e # r2" "hex4 r2 = Some (u, r3)" "scan_string (snd (u_escape u r3)) = Some (v, r)"
        "c \<noteq> CHR 0x22" "c = CHR 0x5C" "e = CHR ''u''"
    | e r2 x v where "s = e # r2" "scan_string r2 = Some (v, r)" "c \<noteq> CHR 0x22" "c = CHR 0x5C" "e \<noteq> CHR ''u''" "escape_char e = Some x"
    | v where "c \<noteq> CHR 0x22" "c \<noteq> CHR 0x5C" "\<not> of_char c < (0x20 :: nat)" "utf8_len (c # s) = 0" "scan_string s = Some (v, r)"
    | v where "c \<noteq> CHR 0x22" "c \<noteq> CHR 0x5C" "\<not> of_char c < (0x20 :: nat)" "utf8_len (c # s) \<noteq> 0"
        "scan_string (drop (utf8_len (c # s) - 1) s) = Some (v, r)"
    by (auto simp: scan_string.simps(2) Let_def split: if_splits list.splits option.splits)
  then show ?case
  proof cases
    case 1
    then show ?thesis by simp
  next
    case (2 e r2 u r3 v)
    have "length r < length (snd (u_escape u r3))" using "2.IH"(1) 2 by blast
    then show ?thesis using hex4_length [OF 2(2)] u_escape_length [of u r3] 2(1) by simp
  next
    case (3 e r2 x v)
    have "length r < length r2" using "2.IH"(2) 3 by blast
    then show ?thesis using 3(1) by simp
  next
    case (4 v)
    have "length r < length s" using "2.IH"(3) 4 by simp
    then show ?thesis by simp
  next
    case (5 v)
    have "length r < length (drop (utf8_len (c # s) - 1) s)" using "2.IH"(4) 5 by simp
    then show ?thesis by simp
  qed
qed simp

lemma scan_number_shorter: "scan_number s = Some (t, r) \<Longrightarrow> length r < length s"
proof -
  have d: "scan_digits s = Some (a, r) \<Longrightarrow> length r < length s" for s a r
    by (cases s) (auto simp: scan_digits_def length_dropWhile_le le_imp_less_Suc split: if_splits)
  have i: "scan_int_part s = Some (a, r) \<Longrightarrow> length r < length s" for s a r
    using d [of s a r] by (auto simp: scan_int_part_def split: list.splits if_splits)
  have f: "scan_frac_part s = Some (a, r) \<Longrightarrow> length r \<le> length s" for s a r
    using d [of "tl s" _ r] by (fastforce simp: scan_frac_part_def split: list.splits if_splits)
  have e: "scan_exp_part s = Some (a, r) \<Longrightarrow> length r \<le> length s" for s a r
    using d [of "tl s" _ r] d [of "tl (tl s)" _ r] by (fastforce simp: scan_exp_part_def split: list.splits if_splits)
  obtain sg s' where sg: "(case s of c # r \<Rightarrow> if c = CHR ''-'' then ([c], r) else ([], s) | [] \<Rightarrow> ([], s)) = (sg, s')"
    by fastforce
  then have s': "length s' \<le> length s" by (cases s) (auto split: if_splits)
  assume "scan_number s = Some (t, r)"
  then obtain a r1 b r2 c where "scan_int_part s' = Some (a, r1)" "scan_frac_part r1 = Some (b, r2)" "scan_exp_part r2 = Some (c, r)"
    unfolding scan_number_def sg Let_def prod.case by (auto simp: bind_eq_Some_conv)
  from i [OF this(1)] f [OF this(2)] e [OF this(3)] s' show ?thesis by linarith
qed

lemma starts_with_simps [simp]: "starts_with [c] (x # r) \<longleftrightarrow> x = c" "\<not> starts_with [c] []"
  by (simp_all add: starts_with_def)

lemma starts_with_Cons: "starts_with [c] s \<longleftrightarrow> (\<exists>r. s = c # r)"
  by (cases s) (auto simp: starts_with_def)

lemma tl_skip_ws: "starts_with [c] (skip_ws s) \<Longrightarrow> length (tl (skip_ws s)) < length s"
  using length_skip_ws [of s] by (auto simp: starts_with_Cons)

lemma rest_shorter:
  "(\<forall>d s v r. jval n d s = Some (v, r) \<longrightarrow> length r < length s)
   \<and> (\<forall>d s vs r. jelems n d s = Some (vs, r) \<longrightarrow> length r < length s)
   \<and> (\<forall>d s ms r. jmembers n d s = Some (ms, r) \<longrightarrow> length r < length s)"
proof (induction n)
  case (Suc n)
  then have IH: "\<And>d s v r. jval n d s = Some (v, r) \<Longrightarrow> length r < length s"
    "\<And>d s vs r. jelems n d s = Some (vs, r) \<Longrightarrow> length r < length s"
    "\<And>d s ms r. jmembers n d s = Some (ms, r) \<Longrightarrow> length r < length s" by blast+
  have "length r < length s0" if j: "jval (Suc n) d s0 = Some (v, r)" for d s0 v r
  proof (cases "skip_ws s0")
    case Nil
    with j show ?thesis by simp
  next
    case (Cons c t)
    have t: "length t < length s0" using length_skip_ws [of s0] Cons by simp
    have e: "length (tl (skip_ws t)) < length s0" using length_skip_ws [of t] t by simp
    from j Cons consider w where "scan_string t = Some (w, r)" | "r = tl (skip_ws t)" | vs where "jelems n (d - 1) t = Some (vs, r)"
      | ms where "jmembers n (d - 1) t = Some (ms, r)" | k where "r = drop (Suc k) (c # t)" | w where "scan_number (c # t) = Some (w, r)"
      by (auto simp: Let_def numeral_eq_Suc split: if_splits)
    then show ?thesis
    proof cases
      case 1 with scan_string_shorter [OF 1] t show ?thesis by simp
    next
      case 2 with e show ?thesis by simp
    next
      case 3 with IH(2) [OF 3] t show ?thesis by simp
    next
      case 4 with IH(3) [OF 4] t show ?thesis by simp
    next
      case 5 with t show ?thesis by simp
    next
      case 6 with scan_number_shorter [OF 6] t show ?thesis by simp
    qed
  qed
  moreover have "length r < length s" if j: "jelems (Suc n) d s = Some (vs, r)" for d s vs r
  proof -
    from j obtain v r1 where v: "jval n d s = Some (v, r1)" by (auto simp: bind_eq_Some_conv)
    with j have "r = tl (skip_ws r1) \<or> (\<exists>ws. jelems n d (tl (skip_ws r1)) = Some (ws, r))"
      by (auto split: if_splits)
    then have "length r \<le> length r1" using IH(2) length_skip_ws [of r1] by fastforce
    with IH(1) [OF v] show ?thesis by simp
  qed
  moreover have "length r < length s" if j: "jmembers (Suc n) d s = Some (ms, r)" for d s ms r
  proof -
    from j have s: "starts_with [CHR 0x22] (skip_ws s)" by (auto split: if_splits)
    with j obtain k r1 where k: "scan_string (tl (skip_ws s)) = Some (k, r1)" by (auto simp: bind_eq_Some_conv)
    with j s obtain v r2 where v: "jval n d (tl (skip_ws r1)) = Some (v, r2)"
      by (auto simp: bind_eq_Some_conv split: if_splits)
    with j s k have "r = tl (skip_ws r2) \<or> (\<exists>ms. jmembers n d (tl (skip_ws r2)) = Some (ms, r))"
      by (auto split: if_splits)
    then have "length r \<le> length r2" using IH(3) length_skip_ws [of r2] by fastforce
    moreover have "length r2 \<le> length r1" using IH(1) [OF v] length_skip_ws [of r1] by simp
    ultimately show ?thesis using scan_string_shorter [OF k] tl_skip_ws [OF s] by simp
  qed
  ultimately show ?case by blast
qed simp

lemma jval_fuel:
  "(\<forall>d s m. 2 * length s < n \<and> 2 * length s < m \<longrightarrow> jval n d s = jval m d s)
   \<and> (\<forall>d s m. 2 * length s + 1 < n \<and> 2 * length s + 1 < m \<longrightarrow> jelems n d s = jelems m d s)
   \<and> (\<forall>d s m. 2 * length s + 1 < n \<and> 2 * length s + 1 < m \<longrightarrow> jmembers n d s = jmembers m d s)"
proof (induction n)
  case (Suc n)
  then have IH: "\<And>d s m. 2 * length s < n \<Longrightarrow> 2 * length s < m \<Longrightarrow> jval n d s = jval m d s"
    "\<And>d s m. 2 * length s + 1 < n \<Longrightarrow> 2 * length s + 1 < m \<Longrightarrow> jelems n d s = jelems m d s"
    "\<And>d s m. 2 * length s + 1 < n \<Longrightarrow> 2 * length s + 1 < m \<Longrightarrow> jmembers n d s = jmembers m d s" by blast+
  have short: "length r < length s" if "jval k d s = Some (v, r)" for k d s v r
    using rest_shorter [of k] that by blast
  have "jval (Suc n) d s0 = jval m d s0" if a: "2 * length s0 < Suc n" "2 * length s0 < m" for d s0 m
  proof (cases "skip_ws s0")
    case Nil
    with a show ?thesis by (cases m) simp_all
  next
    case (Cons c t)
    obtain i where m: "m = Suc i" using a by (cases m) auto
    have "length t < length s0" using length_skip_ws [of s0] Cons by simp
    then have "jelems n (d - 1) t = jelems i (d - 1) t" "jmembers n (d - 1) t = jmembers i (d - 1) t"
      using a m by (intro IH; simp)+
    then show ?thesis by (simp add: m Cons Let_def)
  qed
  moreover have "jelems (Suc n) d s = jelems m d s" if a: "2 * length s + 1 < Suc n" "2 * length s + 1 < m" for d s m
  proof -
    obtain i where m: "m = Suc i" using a by (cases m) auto
    have v: "jval n d s = jval i d s" using a m by (intro IH) simp_all
    have "jelems n d (tl (skip_ws r)) = jelems i d (tl (skip_ws r))" if "jval i d s = Some (w, r)" for w r
    proof -
      have "length (tl (skip_ws r)) < length s" using short [OF that] length_skip_ws [of r] by simp
      then show ?thesis using a m by (intro IH) simp_all
    qed
    then show ?thesis by (cases "jval i d s") (auto simp: m v)
  qed
  moreover have "jmembers (Suc n) d s = jmembers m d s" if a: "2 * length s + 1 < Suc n" "2 * length s + 1 < m" for d s m
  proof (cases "starts_with [CHR 0x22] (skip_ws s)")
    case True
    obtain i where m: "m = Suc i" using a by (cases m) auto
    show ?thesis
    proof (cases "scan_string (tl (skip_ws s))")
      case (Some p)
      obtain k r where p: "p = (k, r)" by fastforce
      have r: "length r < length s" using scan_string_shorter [of _ k r] Some p tl_skip_ws [OF True] by fastforce
      then have "length (tl (skip_ws r)) < length s" using length_skip_ws [of r] by simp
      then have v: "jval n d (tl (skip_ws r)) = jval i d (tl (skip_ws r))" using a m by (intro IH) simp_all
      have "jmembers n d (tl (skip_ws r2)) = jmembers i d (tl (skip_ws r2))" if "jval i d (tl (skip_ws r)) = Some (w, r2)" for w r2
      proof -
        have "length (tl (skip_ws r2)) < length s"
          using short [OF that] length_skip_ws [of r] length_skip_ws [of r2] r by simp
        then show ?thesis using a m by (intro IH) simp_all
      qed
      then show ?thesis using Some by (cases "jval i d (tl (skip_ws r))") (auto simp: m True p v)
    qed (simp add: m True)
  qed (use a in \<open>cases m; simp\<close>)
  ultimately show ?case by blast
qed simp

section \<open>Numbers read back\<close>

text \<open>What may follow a value inside a document.\<close>

definition follow :: "string \<Rightarrow> bool" where
  "follow r \<longleftrightarrow> r = [] \<or> hd r = CHR '','' \<or> hd r = CHR '']'' \<or> hd r = CHR ''}'' \<or> hd r = CHR 0x0A"

definition num_ok :: "string \<Rightarrow> bool" where
  "num_ok t \<longleftrightarrow> t \<noteq> [] \<and> (is_digit (hd t) \<or> hd t = CHR ''-'') \<and> (\<forall>r. follow r \<longrightarrow> scan_number (t @ r) = Some (t, r))"

lemma scan_digits_run:
  "all_digits s \<Longrightarrow> s \<noteq> [] \<Longrightarrow> r = [] \<or> \<not> is_digit (hd r) \<Longrightarrow> scan_digits (s @ r) = Some (s, r)"
  by (simp add: scan_digits_def digit_runs)

lemma scan_int_part_run:
  assumes "int_part s" and "r = [] \<or> \<not> is_digit (hd r)"
  shows "scan_int_part (s @ r) = Some (s, r)"
proof (cases "s = ''0''")
  case False
  then have "all_digits s" "s \<noteq> []" "hd s \<noteq> CHR ''0''" using assms(1) by (auto simp: int_part_def)
  then show ?thesis using scan_digits_run [of s r] assms(2) by (cases s) (auto simp: scan_int_part_def)
qed (simp add: scan_int_part_def)

lemma scan_frac_run:
  assumes "all_digits fp" and "r = [] \<or> \<not> is_digit (hd r) \<and> hd r \<noteq> CHR ''.''"
  shows "scan_frac_part (frac_text fp @ r) = Some (frac_text fp, r)"
  using assms scan_digits_run [of fp r]
  by (cases r) (auto simp: scan_frac_part_def frac_text_def)

lemma scan_exp_run:
  assumes "ep = [] \<or> (\<exists>g ds. ep = CHR ''e'' # g # ds \<and> (g = CHR ''+'' \<or> g = CHR ''-'') \<and> all_digits ds \<and> ds \<noteq> [])"
    and "follow r"
  shows "scan_exp_part (ep @ r) = Some (ep, r)"
proof -
  have r: "r = [] \<or> \<not> is_digit (hd r) \<and> hd r \<noteq> CHR ''e'' \<and> hd r \<noteq> CHR ''E''"
    using assms(2) by (auto simp: follow_def is_digit_def)
  show ?thesis
  proof (cases "ep = []")
    case True
    with r show ?thesis by (cases r) (auto simp: scan_exp_part_def)
  next
    case False
    then obtain g ds where ep: "ep = CHR ''e'' # g # ds" "g = CHR ''+'' \<or> g = CHR ''-''" "all_digits ds" "ds \<noteq> []"
      using assms(1) by blast
    have "scan_digits (ds @ r) = Some (ds, r)" using scan_digits_run [OF ep(3,4)] r by blast
    with ep(1,2) show ?thesis by (auto simp: scan_exp_part_def)
  qed
qed

lemma num_ok_parts:
  assumes "int_part ip" and "all_digits fp"
    and "ep = [] \<or> (\<exists>g ds. ep = CHR ''e'' # g # ds \<and> (g = CHR ''+'' \<or> g = CHR ''-'') \<and> all_digits ds \<and> ds \<noteq> [])"
  shows "num_ok (ip @ frac_text fp @ ep)" and "num_ok (CHR ''-'' # ip @ frac_text fp @ ep)"
proof -
  have ip: "ip \<noteq> []" "is_digit (hd ip)" "hd ip \<noteq> CHR ''-''"
    using int_part_digits [OF assms(1)] hd_digit [of ip] by (auto simp: is_digit_def)
  have scan: "Option.bind (scan_int_part (ip @ frac_text fp @ ep @ r)) (\<lambda>(a, r1).
      Option.bind (scan_frac_part r1) (\<lambda>(b, r2). Option.bind (scan_exp_part r2) (\<lambda>(c, r3). Some (sg @ a @ b @ c, r3))))
      = Some (sg @ ip @ frac_text fp @ ep, r)" if "follow r" for r sg
  proof -
    have r: "r = [] \<or> \<not> is_digit (hd r) \<and> hd r \<noteq> CHR ''.''"
      using that by (auto simp: follow_def is_digit_def)
    then have er: "ep @ r = [] \<or> \<not> is_digit (hd (ep @ r)) \<and> hd (ep @ r) \<noteq> CHR ''.''"
      using assms(3) by (auto simp: is_digit_def)
    then have fr: "frac_text fp @ ep @ r = [] \<or> \<not> is_digit (hd (frac_text fp @ ep @ r))"
      by (auto simp: frac_text_def is_digit_def)
    show ?thesis
      using scan_int_part_run [OF assms(1) fr] scan_frac_run [OF assms(2) er] scan_exp_run [OF assms(3) that] by simp
  qed
  show "num_ok (ip @ frac_text fp @ ep)"
    using ip scan [of _ "[]"] by (cases ip) (auto simp: num_ok_def scan_number_def)
  show "num_ok (CHR ''-'' # ip @ frac_text fp @ ep)"
    using scan [of _ "''-''"] by (auto simp: num_ok_def scan_number_def)
qed

lemma exp_form:
  assumes "all_digits s" and "s \<noteq> []"
  shows "exp_sign e @ s = [] \<or> (\<exists>g ds. exp_sign e @ s = CHR ''e'' # g # ds
    \<and> (g = CHR ''+'' \<or> g = CHR ''-'') \<and> all_digits ds \<and> ds \<noteq> [])"
  using assms by (simp add: exp_sign_def)

lemma decimal_length: "decimal n = [d] \<longleftrightarrow> n < 10 \<and> d = digit n"
  using decimal_digits [of "n div 10"] by (cases "n < 10") (auto simp: decimal.simps [of n])

lemma num_ok_decimal: "num_ok (decimal n)" "num_ok (CHR ''-'' # decimal n)"
proof -
  have "digit 0 = CHR ''0''" by code_simp
  then have "int_part (decimal n)"
    using decimal_digits [of n] decimal_head [of n] by (cases "n = 0") (auto simp: int_part_def decimal.simps [of 0])
  from num_ok_parts [OF this, of "[]" "[]"] show "num_ok (decimal n)" "num_ok (CHR ''-'' # decimal n)"
    by (simp_all add: frac_text_def)
qed

text \<open>Dropping the zero of a short exponent keeps the number.\<close>

lemma clean_exp_text:
  assumes "t = p @ exp_sign e @ exp_digits e"
  shows "clean_exp t = p @ exp_sign e @ decimal (nat \<bar>e\<bar>)"
proof -
  define g where "g = (if e < 0 then CHR ''-'' else CHR ''+'')"
  have g: "exp_sign e = [CHR ''e'', g]" "g = CHR ''+'' \<or> g = CHR ''-''" by (simp_all add: exp_sign_def g_def)
  show ?thesis
  proof (cases "\<bar>e\<bar> < 10")
    case True
    then have "decimal (nat \<bar>e\<bar>) = [digit (nat \<bar>e\<bar>)]" by (simp add: decimal.simps)
    with True g assms show ?thesis by (auto simp: clean_exp_def exp_digits_def nth_append)
  next
    case False
    define ds where "ds = decimal (nat \<bar>e\<bar>)"
    have t: "t = p @ [CHR ''e'', g] @ ds" using assms g False by (simp add: exp_digits_def ds_def)
    have ds: "all_digits ds" "hd ds \<noteq> CHR ''0''"
      using decimal_digits decimal_head [of "nat \<bar>e\<bar>"] False by (auto simp: ds_def)
    have "1 < length ds" using decimal_length False decimal_digits [of "nat \<bar>e\<bar>"]
      by (cases ds; cases "tl ds") (auto simp: ds_def)
    have "t ! (length t - 4) \<noteq> CHR ''e'' \<or> t ! (length t - 2) \<noteq> CHR ''0''"
    proof (cases "length ds = 2")
      case True
      then obtain x y where "ds = [x, y]" by (auto simp: numeral_2_eq_2 length_Suc_conv)
      with ds(2) t show ?thesis by (simp add: nth_append)
    next
      case False
      with \<open>1 < length ds\<close> have "3 \<le> length ds" by simp
      show ?thesis
      proof (cases "length ds = 3")
        case True
        then obtain x y z where "ds = [x, y, z]" by (auto simp: numeral_3_eq_3 length_Suc_conv)
        with g(2) t show ?thesis by (auto simp: nth_append)
      next
        case False
        with \<open>3 \<le> length ds\<close> have "length t - 4 = length (p @ [CHR ''e'', g]) + (length ds - 4)" by (simp add: t)
        moreover have "((p @ [CHR ''e'', g]) @ ds) ! (length (p @ [CHR ''e'', g]) + (length ds - 4)) = ds ! (length ds - 4)"
          by (rule nth_append_length_plus)
        ultimately have "t ! (length t - 4) = ds ! (length ds - 4)" by (simp add: t)
        moreover have "ds ! (length ds - 4) \<in> set ds" using \<open>3 \<le> length ds\<close> by (intro nth_mem) simp
        ultimately show ?thesis using ds(1) by (auto simp: all_digits_def is_digit_def)
      qed
    qed
    then have "clean_exp t = t" by (auto simp: clean_exp_def Let_def)
    then show ?thesis using assms False by (simp add: exp_digits_def)
  qed
qed

text \<open>A float that can be written is written as a number that reads back as the float.\<close>

lemma json_float_text:
  assumes "json_float v = Some j" and "wff v"
  shows "\<exists>t. j = JNum t \<and> num_ok t \<and> parse_float t = Some v"
proof -
  have fin: "ffinite v" using assms(1) by (auto simp: json_float_def split: if_splits)
  have read: "parse_float (FormatFloat fmt_f v) = Some v" "parse_float (FormatFloat fmt_e v) = Some v"
    using number_FormatFloat [OF _ fin assms(2)] by (simp_all add: float_format_def)
  show ?thesis
  proof (cases "fval v = 0")
    case True
    then have j: "j = JNum (FormatFloat fmt_f v)" using assms(1) fin by (simp add: json_float_def)
    have "fmt_f (decimal_slice 0) = ''0'' @ frac_text [] @ []" by (simp add: decimal_slice_def fmt_f_def frac_text_def)
    moreover have "int_part ''0''" by (simp add: int_part_def)
    ultimately have "num_ok (FormatFloat fmt_f v)"
      using num_ok_parts [of "''0''" "[]" "[]"] True fin by (cases v) (simp_all add: FormatFloat_def)
    with j read(1) show ?thesis by blast
  next
    case False
    then obtain q where v: "v = Fin q" "q \<noteq> 0" using fin by (cases v) auto
    then have q: "rndq \<bar>q\<bar> = \<bar>q\<bar>" "0 < \<bar>q\<bar>" using assms(2) by (simp_all add: fin_ok_def rndq_abs)
    obtain w where w: "slice_of (decimal_slice \<bar>q\<bar>) w" using decimal_slice_of [OF q(2,1)] by blast
    define sg where "sg = (if q < 0 then ''-'' else [])"
    have F: "FormatFloat fmt v = sg @ fmt (decimal_slice \<bar>q\<bar>)" for fmt by (simp add: FormatFloat_def v sg_def)
    have sg: "num_ok (sg @ ip @ frac_text fp @ ep)" if "num_ok (ip @ frac_text fp @ ep)" "num_ok (CHR ''-'' # ip @ frac_text fp @ ep)" for ip fp ep
      using that by (simp add: sg_def)
    from assms(1) fin consider "j = JNum (FormatFloat fmt_f v)" | "j = JNum (clean_exp (FormatFloat fmt_e v))"
      by (auto simp: json_float_def Let_def split: if_splits)
    then show ?thesis
    proof cases
      case 1
      obtain ip fp where p: "fmt_f (decimal_slice \<bar>q\<bar>) = ip @ frac_text fp" "int_part ip" "all_digits fp"
        by (rule fmt_f_parts [OF w])
      from num_ok_parts [OF p(2,3), of "[]"] have "num_ok (FormatFloat fmt_f v)"
        using sg [of ip fp "[]"] by (simp add: F p(1))
      with 1 read(1) show ?thesis by blast
    next
      case 2
      obtain c ds e where p: "fmt_e (decimal_slice \<bar>q\<bar>) = [c] @ frac_text ds @ exp_sign e @ exp_digits e" "int_part [c]" "all_digits ds"
        "w = of_nat (digits_val (c # ds)) * 10 powi (e - int (length ds))" by (rule fmt_e_parts [OF w])
      let ?t = "sg @ [c] @ frac_text ds @ exp_sign e @ decimal (nat \<bar>e\<bar>)"
      have t: "clean_exp (FormatFloat fmt_e v) = ?t"
        by (subst clean_exp_text [of _ "sg @ [c] @ frac_text ds" e]) (simp_all add: F p(1))
      have "num_ok ?t"
        using num_ok_parts [OF p(2,3) exp_form, of "decimal (nat \<bar>e\<bar>)" e] decimal_digits by (intro sg) auto
      moreover have "parse_float ?t = parse_float (FormatFloat fmt_e v)"
      proof -
        have c: "all_digits [c]" "is_digit c" using int_part_digits [OF p(2)] by simp_all
        have "number_magnitude ([c] @ frac_text ds @ exp_sign e @ decimal (nat \<bar>e\<bar>))
            = number_magnitude ([c] @ frac_text ds @ exp_sign e @ exp_digits e)"
          unfolding number_text [OF c(1) p(3) exp_text(5)] by (simp add: exp_text)
        then show ?thesis unfolding F p(1) using scan_sign_digit [OF c(2)]
          by (cases "q < 0") (simp_all add: sg_def parse_float_def scan_sign_def)
      qed
      ultimately show ?thesis using 2 t read(2) by auto
    qed
  qed
qed

section \<open>Documents read back\<close>

fun json_ok :: "nat \<Rightarrow> json \<Rightarrow> bool" where
  "json_ok d (JNum t) = num_ok t"
| "json_ok d (JStr s) = valid_utf8 s"
| "json_ok d (JArr js) = (0 < d \<and> (\<forall>j \<in> set js. json_ok (d - 1) j))"
| "json_ok d (JObj ms) = (0 < d \<and> (\<forall>(k, j) \<in> set ms. valid_utf8 k \<and> json_ok (d - 1) j))"
| "json_ok d _ = True"

lemma not_ws: "is_digit c \<or> c = CHR ''-'' \<Longrightarrow> \<not> is_ws c \<and> c \<notin> {CHR 0x22, CHR ''['', CHR ''{'', CHR '']'', CHR ''}'', CHR ''t'', CHR ''f'', CHR ''n''}"
  by (auto simp: is_ws_def is_digit_def)

lemma json_text_head:
  "json_ok d j \<Longrightarrow> \<exists>c r. json_text j = c # r \<and> \<not> is_ws c \<and> c \<noteq> CHR '']''"
proof (cases j)
  case (JNum t)
  assume "json_ok d j"
  with JNum show ?thesis using not_ws [of "hd t"] by (cases t) (auto simp: num_ok_def)
qed (auto simp: enc_string_def is_ws_def)

lemma skip_ws_cons [simp]: "\<not> is_ws c \<Longrightarrow> skip_ws (c # r) = c # r" "skip_ws [] = []"
  by (simp_all add: skip_ws_def)

lemma is_ws_simps [simp]: "\<not> is_ws CHR '',''" "\<not> is_ws CHR '']''" "\<not> is_ws CHR ''}''" "\<not> is_ws CHR '':''"
  "\<not> is_ws CHR 0x22" "\<not> is_ws CHR ''[''" "\<not> is_ws CHR ''{''" "\<not> is_ws CHR ''t''" "\<not> is_ws CHR ''f''" "\<not> is_ws CHR ''n''"
  by (simp_all add: is_ws_def)

lemma follow_simps [simp]: "follow []" "follow (c # r) \<longleftrightarrow> c = CHR '','' \<or> c = CHR '']'' \<or> c = CHR ''}'' \<or> c = CHR 0x0A"
  by (simp_all add: follow_def)

definition reads :: "nat \<Rightarrow> json \<Rightarrow> bool" where
  "reads d j \<longleftrightarrow> (\<forall>n r. 2 * length (json_text j) \<le> n \<longrightarrow> follow r \<longrightarrow> jval n d (json_text j @ r) = Some (j, r))"

lemma jelems_text:
  assumes "js \<noteq> []" and "\<forall>j \<in> set js. reads d j" and "2 * length (Join (map json_text js) '','') + 1 \<le> n"
  shows "jelems n d (Join (map json_text js) '','' @ CHR '']'' # r) = Some (js, r)"
  using assms
proof (induction js arbitrary: n)
  case (Cons j js)
  obtain m where n: "n = Suc m" using Cons.prems(3) by (cases n) auto
  show ?case
  proof (cases "js = []")
    case True
    with Cons.prems n show ?thesis by (simp add: reads_def)
  next
    case False
    then obtain j2 js2 where js: "js = j2 # js2" by (cases js) auto
    let ?rest = "Join (map json_text js) '',''"
    have t: "Join (map json_text (j # js)) '','' = json_text j @ CHR '','' # ?rest" by (simp add: js)
    have "jval m d (json_text j @ CHR '','' # ?rest @ CHR '']'' # r) = Some (j, CHR '','' # ?rest @ CHR '']'' # r)"
      using Cons.prems n t by (simp add: reads_def)
    moreover have "jelems m d (?rest @ CHR '']'' # r) = Some (js, r)"
      using Cons.prems n t False by (intro Cons.IH) auto
    ultimately show ?thesis unfolding n t by simp
  qed
qed simp

definition member_text :: "string \<times> json \<Rightarrow> string" where
  "member_text m = enc_string (fst m) @ '':'' @ json_text (snd m)"

lemma json_text_obj: "json_text (JObj ms) = ''{'' @ Join (map member_text ms) '','' @ ''}''"
proof -
  have "member_text = (\<lambda>(k, j). enc_string k @ '':'' @ json_text j)" by (simp add: fun_eq_iff member_text_def)
  then show ?thesis by (simp only: json_text.simps)
qed

lemma jmembers_text:
  assumes "ms \<noteq> []" and "\<forall>m \<in> set ms. valid_utf8 (fst m) \<and> reads d (snd m)"
    and "2 * length (Join (map member_text ms) '','') + 1 \<le> n"
  shows "jmembers n d (Join (map member_text ms) '','' @ CHR ''}'' # r) = Some (ms, r)"
  using assms
proof (induction ms arbitrary: n)
  case (Cons m ms)
  obtain i where n: "n = Suc i" using Cons.prems(3) by (cases n) auto
  have m: "valid_utf8 (fst m)" "reads d (snd m)" using Cons.prems(2) by simp_all
  have one: "jmembers n d (member_text m @ x # t) = (if x = CHR '','' then map_option (map_prod (Cons m) id) (jmembers i d t) else Some ([m], t))"
    if "x = CHR '','' \<or> x = CHR ''}''" "2 * length (json_text (snd m)) \<le> i" for x t
  proof -
    have "jval i d (json_text (snd m) @ x # t) = Some (snd m, x # t)" using m(2) that by (auto simp: reads_def)
    with that(1) scan_enc_chars [OF m(1)] show ?thesis
      by (auto simp: n member_text_def enc_string_def)
  qed
  show ?case
  proof (cases "ms = []")
    case True
    with Cons.prems n one [of "CHR ''}''" r] show ?thesis by (simp add: member_text_def)
  next
    case False
    then obtain m2 ms2 where ms: "ms = m2 # ms2" by (cases ms) auto
    let ?rest = "Join (map member_text ms) '',''"
    have t: "Join (map member_text (m # ms)) '','' = member_text m @ CHR '','' # ?rest" by (simp add: ms)
    have "jmembers i d (?rest @ CHR ''}'' # r) = Some (ms, r)"
      using Cons.prems n t False by (intro Cons.IH) auto
    moreover have "2 * length (json_text (snd m)) \<le> i"
    proof -
      have "length (json_text (snd m)) < length (member_text m)" by (simp add: member_text_def enc_string_def)
      then show ?thesis using Cons.prems(3) n unfolding t by simp
    qed
    ultimately show ?thesis unfolding t using one [of "CHR '',''" "?rest @ CHR ''}'' # r"] by simp
  qed
qed simp

lemma jval_literals:
  assumes "0 < n"
  shows "jval n d (CHR ''n'' # CHR ''u'' # CHR ''l'' # CHR ''l'' # r) = Some (JNull, r)"
    "jval n d (CHR ''t'' # CHR ''r'' # CHR ''u'' # CHR ''e'' # r) = Some (JBool True, r)"
    "jval n d (CHR ''f'' # CHR ''a'' # CHR ''l'' # CHR ''s'' # CHR ''e'' # r) = Some (JBool False, r)"
  using assms by (cases n; simp add: starts_with_def)+

lemma json_text_reads: "json_ok d j \<Longrightarrow> reads d j"
proof (induction d j rule: json_ok.induct)
  case (1 d t)
  show ?case unfolding reads_def
  proof (intro allI impI)
    fix n r assume n: "2 * length (json_text (JNum t)) \<le> n" and r: "follow r"
    obtain c u where t: "t = c # u" using 1 by (cases t) (auto simp: num_ok_def)
    with 1 have c: "is_digit c \<or> c = CHR ''-''" by (simp add: num_ok_def)
    obtain m where "n = Suc m" using n t by (cases n) auto
    moreover have "scan_number (t @ r) = Some (t, r)" using 1 r by (simp add: num_ok_def)
    ultimately show "jval n d (json_text (JNum t) @ r) = Some (JNum t, r)"
      using not_ws [OF c] by (simp add: t starts_with_def)
  qed
next
  case (2 d s)
  show ?case unfolding reads_def
  proof (intro allI impI)
    fix n r assume "2 * length (json_text (JStr s)) \<le> n" and "follow r"
    then obtain m where "n = Suc m" by (cases n) (auto simp: enc_string_def)
    with 2 show "jval n d (json_text (JStr s) @ r) = Some (JStr s, r)"
      by (simp add: enc_string_def scan_enc_chars)
  qed
next
  case (3 d js)
  show ?case unfolding reads_def
  proof (intro allI impI)
    fix n r assume n: "2 * length (json_text (JArr js)) \<le> n" and r: "follow r"
    then obtain m where m: "n = Suc m" by (cases n) auto
    from 3 have d: "d \<noteq> 0" and ok: "\<forall>j \<in> set js. reads (d - 1) j" by auto
    show "jval n d (json_text (JArr js) @ r) = Some (JArr js, r)"
    proof (cases "js = []")
      case True
      with d m show ?thesis by simp
    next
      case False
      then obtain j js2 where js: "js = j # js2" by (cases js) auto
      then obtain c u where c: "json_text j = c # u" "\<not> is_ws c" "c \<noteq> CHR '']''" using 3 json_text_head by fastforce
      then have "\<exists>v. Join (map json_text js) '','' = c # v" by (cases js2) (simp_all add: js)
      then have "\<not> starts_with '']'' (skip_ws (Join (map json_text js) '','' @ CHR '']'' # r))" using c by auto
      then show ?thesis using jelems_text [OF False ok, of m r] n d m by simp
    qed
  qed
next
  case (4 d ms)
  show ?case unfolding reads_def
  proof (intro allI impI)
    fix n r assume n: "2 * length (json_text (JObj ms)) \<le> n" and r: "follow r"
    then obtain m where m: "n = Suc m" by (cases n) auto
    from 4 have d: "d \<noteq> 0" and ok: "\<forall>m \<in> set ms. valid_utf8 (fst m) \<and> reads (d - 1) (snd m)" by auto
    show "jval n d (json_text (JObj ms) @ r) = Some (JObj ms, r)"
    proof (cases "ms = []")
      case True
      with d m show ?thesis by simp
    next
      case False
      then obtain x ms2 where ms: "ms = x # ms2" by (cases ms) auto
      then have "\<exists>v. Join (map member_text ms) '','' = CHR 0x22 # v"
        by (cases ms2) (simp_all add: member_text_def enc_string_def)
      then have "\<not> starts_with ''}'' (skip_ws (Join (map member_text ms) '','' @ CHR ''}'' # r))" by auto
      then show ?thesis using jmembers_text [OF False ok, of m r] n d m
        unfolding json_text_obj by simp
    qed
  qed
qed (auto simp: reads_def jval_literals)

text \<open>A written document, with or without a final newline, reads back as itself.\<close>

lemma decode_json_text:
  assumes "json_ok max_depth j"
  shows "decode_document (json_text j) = Some j" and "follow r \<Longrightarrow> decode_stream (json_text j @ r) = Some j"
proof -
  have r: "jval n max_depth (json_text j @ r) = Some (j, r)" if "follow r" "2 * length (json_text j) \<le> n" for n r
    using json_text_reads [OF assms] that by (auto simp: reads_def)
  show "decode_document (json_text j) = Some j"
    using r [of "[]"] by (simp add: decode_document_def del: jval.simps)
  show "follow r \<Longrightarrow> decode_stream (json_text j @ r) = Some j"
    by (simp add: decode_stream_def r del: jval.simps)
qed

section \<open>Conversions read back\<close>

lemma dec_json_float:
  assumes "json_float v = Some j" and "wff v"
  shows "dec_float old j = Some v" and "json_ok d j"
  using json_float_text [OF assms] by (auto simp: dec_float_def)

lemma json_float_fails: "json_float v = None \<longleftrightarrow> \<not> ffinite v"
  by (simp add: json_float_def Let_def)

lemma enc_entries_None: "enc_entries kvs = None \<longleftrightarrow> (\<exists>(k, v) \<in> set kvs. \<not> ffinite v)"
proof (induction kvs)
  case (Cons kv kvs)
  then show ?case using json_float_fails [of "snd kv"]
    by (cases kv; cases "json_float (snd kv)") auto
qed simp

lemma enc_entries_ok:
  assumes "enc_entries kvs = Some ms" and "\<forall>(k, v) \<in> set kvs. wff v \<and> valid_utf8 k"
  shows "(\<forall>(k, j) \<in> set ms. valid_utf8 k \<and> json_ok d j)
    \<and> dec_entries acc ms = Some (fold (\<lambda>kv. map_set (fst kv) (snd kv)) kvs acc)"
  using assms
proof (induction kvs arbitrary: ms acc)
  case (Cons kv kvs)
  obtain k v where kv: "kv = (k, v)" by fastforce
  with Cons.prems(1) obtain j ms' where ms: "ms = (k, j) # ms'" and j: "json_float v = Some j" and rec: "enc_entries kvs = Some ms'"
    by (auto simp: bind_eq_Some_conv)
  from Cons.prems(2) kv have wf: "wff v" "valid_utf8 k" "\<forall>(k, v) \<in> set kvs. wff v \<and> valid_utf8 k" by auto
  show ?case using dec_json_float [OF j wf(1)] Cons.IH [OF rec wf(3)] wf(2) by (simp add: ms kv)
qed simp

lemma fold_map_set:
  assumes "distinct (map fst kvs)"
  shows "map_wf (fold (\<lambda>kv. map_set (fst kv) (snd kv)) kvs [])"
    and "map_get (fold (\<lambda>kv. map_set (fst kv) (snd kv)) kvs []) k = map_of kvs k"
proof -
  show "map_wf (fold (\<lambda>kv. map_set (fst kv) (snd kv)) kvs [])" by (rule gm.wf_fold [OF gm.wf_empty])
  have "map_get (fold (\<lambda>kv. map_set (fst kv) (snd kv)) kvs m) k = (map_get m ++ map_of kvs) k" if "map_wf m" for m
    using that assms
  proof (induction kvs arbitrary: m)
    case (Cons kv kvs)
    then show ?case using gm.wf_put [OF Cons.prems(1)]
      by (cases kv) (auto simp: gm.get_put map_add_def map_of_eq_None_iff [THEN iffD2] split: option.split)
  qed simp
  from this [OF gm.wf_empty] show "map_get (fold (\<lambda>kv. map_set (fst kv) (snd kv)) kvs []) k = map_of kvs k"
    by (simp add: gm.get_empty)
qed

lemma dec_json_float_map:
  assumes "json_float_map m = Some j" and "map_wf m" and "\<forall>(k, v) \<in> set m. wff v \<and> valid_utf8 k"
  shows "json_ok (Suc d) j" and "\<exists>m'. dec_float_map [] j = Some m' \<and> map_wf m' \<and> map_get m' = map_get m"
proof -
  let ?kvs = "sort_key fst m"
  obtain ms where ms: "j = JObj ms" "enc_entries ?kvs = Some ms" using assms(1) by (auto simp: json_float_map_def)
  have k: "\<forall>(k, v) \<in> set ?kvs. wff v \<and> valid_utf8 k" using assms(3) by simp
  note e = enc_entries_ok [OF ms(2) k]
  show "json_ok (Suc d) j" using e [of d] by (simp add: ms(1))
  have d: "distinct (map fst ?kvs)" using assms(2) by (simp add: map_wf_def distinct_map)
  have "map_of ?kvs = map_of m"
    using assms(2) d by (intro map_of_inject_set [THEN iffD2]) (simp_all add: map_wf_def)
  then have "dec_float_map [] j = Some (fold (\<lambda>kv. map_set (fst kv) (snd kv)) ?kvs [])"
      "map_get (fold (\<lambda>kv. map_set (fst kv) (snd kv)) ?kvs []) = map_get m"
    using e [of d "[]"] fold_map_set(2) [OF d] by (simp_all add: dec_float_map_def ms(1) fun_eq_iff map_get_def)
  then show "\<exists>m'. dec_float_map [] j = Some m' \<and> map_wf m' \<and> map_get m' = map_get m"
    using fold_map_set(1) [OF d] by blast
qed

end
