(* ===== verification/Adapters.thy ===== *)
theory Adapters
  imports Provider Config Json "HOL-Library.Sublist"
begin

text \<open>
  \<^verbatim>\<open>internal/provider/adapters\<close>: the clients of three rate services and the registry that builds
  them from the configuration. The network is an argument: \<open>send t i r\<close> is the answer to the
  \<open>i\<close>-th request \<open>r\<close> of a fetch under the timeout \<open>t\<close>, an error or a status and a body; \<open>bad_url\<close> is
  the reason for which a URL cannot be requested. Bodies are decoded with \<open>Json\<close>. \<open>now\<close> is the
  reading of the clock.

  The interface \<open>rate_adapter\<close> says what the scheduler relies on; all three adapters implement it.
\<close>

section \<open>Requests\<close>

record http_request =
  rq_url :: string
  rq_params :: "(string \<times> string) list"
  rq_headers :: "(string \<times> string) list"

record http_response =
  rs_status :: int
  rs_body :: string

type_synonym network = "duration \<Rightarrow> nat \<Rightarrow> http_request \<Rightarrow> string + http_response"
type_synonym url_check = "string \<Rightarrow> string option"

text \<open>Send a request, and read the answer when its status is 2xx; \<open>what\<close> names it in errors.\<close>

definition status_ok :: "int \<Rightarrow> bool" where
  "status_ok s \<longleftrightarrow> s div 100 = 2"

definition request :: "network \<Rightarrow> url_check \<Rightarrow> duration \<Rightarrow> nat \<Rightarrow> nat \<Rightarrow> string \<Rightarrow> http_request \<Rightarrow> fetch_error + string" where
  "request send bad_url timeout limit i what r =
     (case bad_url (rq_url r) of
        Some e \<Rightarrow> Inl (InvalidRequest e)
      | None \<Rightarrow> (case send timeout i r of
          Inl e \<Rightarrow> Inl (RequestFailed what e)
        | Inr resp \<Rightarrow> if \<not> status_ok (rs_status resp) then Inl (BadStatus what (rs_status resp) (take limit (rs_body resp)))
                     else Inr (rs_body resp)))"

definition trim_slashes :: "string \<Rightarrow> string" where
  "trim_slashes s = rev (dropWhile (\<lambda>c. c = CHR ''/'') (rev s))"

definition or_default :: "string \<Rightarrow> string \<Rightarrow> string" where
  "or_default d s = (if s = [] then d else s)"

text \<open>The readings of an answer that maps currency codes to rates.\<close>

definition rate_readings :: "time \<Rightarrow> string \<Rightarrow> string \<Rightarrow> (string, f64) go_map \<Rightarrow> string list \<Rightarrow> fetched list" where
  "rate_readings now base ts rates quotes =
     concat (map (\<lambda>q. case map_get rates (to_upper q) of
         None \<Rightarrow> []
       | Some rate \<Rightarrow> [\<lparr>f_Base = to_upper base, f_Quote = to_upper q, f_Rate = rate, f_FetchedAt = now, f_ProviderTS = ts\<rparr>]) quotes)"

section \<open>Frankfurter\<close>

record frankfurter =
  fr_BaseURL :: string
  fr_Timeout :: duration

definition NewFrankfurter :: "string \<Rightarrow> frankfurter" where
  "NewFrankfurter baseURL =
     \<lparr>fr_BaseURL = trim_slashes (or_default ''https://api.frankfurter.app'' baseURL), fr_Timeout = 15 * second\<rparr>"

record frankfurter_response =
  fo_Amount :: f64
  fo_Base :: string
  fo_Date :: string
  fo_Rates :: "(string, f64) go_map"

definition frankfurter_field :: "string \<Rightarrow> json \<Rightarrow> frankfurter_response \<Rightarrow> frankfurter_response option" where
  "frankfurter_field name j o' =
     (if name = ''AMOUNT'' then map_option (\<lambda>v. o'\<lparr>fo_Amount := v\<rparr>) (dec_float (fo_Amount o') j)
      else if name = ''BASE'' then map_option (\<lambda>v. o'\<lparr>fo_Base := v\<rparr>) (dec_string (fo_Base o') j)
      else if name = ''DATE'' then map_option (\<lambda>v. o'\<lparr>fo_Date := v\<rparr>) (dec_string (fo_Date o') j)
      else if name = ''RATES'' then map_option (\<lambda>v. o'\<lparr>fo_Rates := v\<rparr>) (dec_float_map (fo_Rates o') j)
      else Some o')"

definition frankfurter_decode :: "string \<Rightarrow> frankfurter_response option" where
  "frankfurter_decode body = Option.bind (decode_stream body)
     (dec_struct frankfurter_field \<lparr>fo_Amount = Fin 0, fo_Base = [], fo_Date = [], fo_Rates = []\<rparr>)"

definition frankfurter_Fetch ::
    "network \<Rightarrow> url_check \<Rightarrow> time \<Rightarrow> frankfurter \<Rightarrow> string \<Rightarrow> string list \<Rightarrow> fetch_error + fetched list" where
  "frankfurter_Fetch send bad_url now f base0 quotes =
     (let base = or_default ''USD'' base0 in
      if quotes = [] then Inr []
      else case request send bad_url (fr_Timeout f) 512 0 ''frankfurter''
             \<lparr>rq_url = fr_BaseURL f @ ''/latest?from='' @ base @ ''&to='' @ Join quotes '','',
              rq_params = [], rq_headers = []\<rparr> of
             Inl e \<Rightarrow> Inl e
           | Inr body \<Rightarrow> (case frankfurter_decode body of
               None \<Rightarrow> Inl (DecodeFailed ''frankfurter'')
             | Some out \<Rightarrow>
                 if \<not> equal_fold (fo_Base out) base then Inl (BaseMismatch ''frankfurter'' base (fo_Base out))
                 else Inr (rate_readings now (fo_Base out) (fo_Date out) (fo_Rates out) quotes)))"

section \<open>MoneyConvert\<close>

record moneyconvert =
  mc_BaseURL :: string
  mc_APIKey :: string
  mc_Timeout :: duration

definition NewMoneyConvert :: "string \<Rightarrow> string \<Rightarrow> moneyconvert" where
  "NewMoneyConvert baseURL apiKey =
     \<lparr>mc_BaseURL = trim_slashes (or_default ''https://cdn.moneyconvert.net'' baseURL), mc_APIKey = apiKey,
      mc_Timeout = 15 * second\<rparr>"

record moneyconvert_response =
  mo_Base :: string
  mo_Disclaimer :: string
  mo_License :: string
  mo_Rates :: "(string, f64) go_map"

definition moneyconvert_field :: "string \<Rightarrow> json \<Rightarrow> moneyconvert_response \<Rightarrow> moneyconvert_response option" where
  "moneyconvert_field name j o' =
     (if name = ''BASE'' then map_option (\<lambda>v. o'\<lparr>mo_Base := v\<rparr>) (dec_string (mo_Base o') j)
      else if name = ''DISCLAIMER'' then map_option (\<lambda>v. o'\<lparr>mo_Disclaimer := v\<rparr>) (dec_string (mo_Disclaimer o') j)
      else if name = ''LICENSE'' then map_option (\<lambda>v. o'\<lparr>mo_License := v\<rparr>) (dec_string (mo_License o') j)
      else if name = ''RATES'' then map_option (\<lambda>v. o'\<lparr>mo_Rates := v\<rparr>) (dec_float_map (mo_Rates o') j)
      else Some o')"

definition moneyconvert_decode :: "string \<Rightarrow> moneyconvert_response option" where
  "moneyconvert_decode body = Option.bind (decode_stream body)
     (dec_struct moneyconvert_field \<lparr>mo_Base = [], mo_Disclaimer = [], mo_License = [], mo_Rates = []\<rparr>)"

definition moneyconvert_Fetch ::
    "network \<Rightarrow> url_check \<Rightarrow> time \<Rightarrow> moneyconvert \<Rightarrow> string \<Rightarrow> string list \<Rightarrow> fetch_error + fetched list" where
  "moneyconvert_Fetch send bad_url now m base0 quotes =
     (let base = or_default ''USD'' base0 in
      if quotes = [] then Inr []
      else case request send bad_url (mc_Timeout m) 512 0 ''moneyconvert''
             \<lparr>rq_url = mc_BaseURL m @ ''/api/latest.json'',
              rq_params = (if mc_APIKey m \<noteq> [] then [(''key'', mc_APIKey m)] else []), rq_headers = []\<rparr> of
             Inl e \<Rightarrow> Inl e
           | Inr body \<Rightarrow> (case moneyconvert_decode body of
               None \<Rightarrow> Inl (DecodeFailed ''moneyconvert'')
             | Some out \<Rightarrow>
                 if \<not> equal_fold (mo_Base out) base then Inl (BaseMismatch ''moneyconvert'' base (mo_Base out))
                 else Inr (rate_readings now (mo_Base out) [] (mo_Rates out) quotes)))"

section \<open>Yahoo\<close>

record yahoo =
  ya_BaseURL :: string
  ya_Timeout :: duration
  ya_UserAgent :: string

definition NewYahoo :: "string \<Rightarrow> yahoo" where
  "NewYahoo baseURL =
     \<lparr>ya_BaseURL = trim_slashes (or_default ''https://query2.finance.yahoo.com'' baseURL), ya_Timeout = 15 * second,
      ya_UserAgent = ''Mozilla/5.0 (compatible; ArgosFX/1.0)''\<rparr>"

record yahoo_meta =
  ym_Symbol :: string
  ym_RegularMarketPrice :: f64
  ym_RegularMarketTime :: int
  ym_Currency :: string

record yahoo_result =
  yr_Meta :: yahoo_meta
  yr_Quotes :: "f64 list list"

text \<open>\<open>yc_Error\<close> is the decoded error, None for nil.\<close>

record yahoo_chart =
  yc_Result :: "yahoo_result list"
  yc_Error :: "json option"

definition meta_field :: "string \<Rightarrow> json \<Rightarrow> yahoo_meta \<Rightarrow> yahoo_meta option" where
  "meta_field name j m =
     (if name = ''SYMBOL'' then map_option (\<lambda>v. m\<lparr>ym_Symbol := v\<rparr>) (dec_string (ym_Symbol m) j)
      else if name = ''REGULARMARKETPRICE''
        then map_option (\<lambda>v. m\<lparr>ym_RegularMarketPrice := v\<rparr>) (dec_float (ym_RegularMarketPrice m) j)
      else if name = ''REGULARMARKETTIME''
        then map_option (\<lambda>v. m\<lparr>ym_RegularMarketTime := v\<rparr>) (dec_int64 (ym_RegularMarketTime m) j)
      else if name = ''CURRENCY'' then map_option (\<lambda>v. m\<lparr>ym_Currency := v\<rparr>) (dec_string (ym_Currency m) j)
      else Some m)"

definition quote_field :: "string \<Rightarrow> json \<Rightarrow> f64 list \<Rightarrow> f64 list option" where
  "quote_field name j closes = (if name = ''CLOSE'' then dec_slice (dec_float (Fin 0)) closes j else Some closes)"

definition indicators_field :: "string \<Rightarrow> json \<Rightarrow> f64 list list \<Rightarrow> f64 list list option" where
  "indicators_field name j qs = (if name = ''QUOTE'' then dec_slice (dec_struct quote_field []) qs j else Some qs)"

definition result_field :: "string \<Rightarrow> json \<Rightarrow> yahoo_result \<Rightarrow> yahoo_result option" where
  "result_field name j r =
     (if name = ''META'' then map_option (\<lambda>v. r\<lparr>yr_Meta := v\<rparr>) (dec_struct meta_field (yr_Meta r) j)
      else if name = ''INDICATORS'' then map_option (\<lambda>v. r\<lparr>yr_Quotes := v\<rparr>) (dec_struct indicators_field (yr_Quotes r) j)
      else Some r)"

definition zero_result :: yahoo_result where
  "zero_result = \<lparr>yr_Meta = \<lparr>ym_Symbol = [], ym_RegularMarketPrice = Fin 0, ym_RegularMarketTime = 0, ym_Currency = []\<rparr>,
     yr_Quotes = []\<rparr>"

definition chart_field :: "string \<Rightarrow> json \<Rightarrow> yahoo_chart \<Rightarrow> yahoo_chart option" where
  "chart_field name j c =
     (if name = ''RESULT'' then map_option (\<lambda>v. c\<lparr>yc_Result := v\<rparr>) (dec_slice (dec_struct result_field zero_result) (yc_Result c) j)
      else if name = ''ERROR'' then Some (c\<lparr>yc_Error := (if j = JNull then None else Some j)\<rparr>)
      else Some c)"

definition yahoo_field :: "string \<Rightarrow> json \<Rightarrow> yahoo_chart \<Rightarrow> yahoo_chart option" where
  "yahoo_field name j c = (if name = ''CHART'' then dec_struct chart_field c j else Some c)"

definition yahoo_decode :: "string \<Rightarrow> yahoo_chart option" where
  "yahoo_decode body = Option.bind (decode_stream body) (dec_struct yahoo_field \<lparr>yc_Result = [], yc_Error = None\<rparr>)"

text \<open>The market price, or the last close of the first series when the price is zero.\<close>

definition yahoo_rate :: "yahoo_result \<Rightarrow> f64" where
  "yahoo_rate r =
     (let rate = ym_RegularMarketPrice (yr_Meta r)
      in if feq rate (Fin 0) \<and> 0 < length (yr_Quotes r)
         then (let closes = hd (yr_Quotes r) in if 0 < length closes then last closes else rate)
         else rate)"

text \<open>\<open>time.Unix(t, 0)\<close> counts its seconds from the zero time in 64 bits.\<close>

definition unix_time :: "int \<Rightarrow> time" where
  "unix_time t = sint (word_of_int (t + 62135596800) :: go_int) * ns_per_sec"

definition yahoo_quote ::
    "network \<Rightarrow> url_check \<Rightarrow> time \<Rightarrow> yahoo \<Rightarrow> string \<Rightarrow> nat \<Rightarrow> string \<Rightarrow> fetch_error + fetched" where
  "yahoo_quote send bad_url now y base i q =
     (let quote = to_upper q; pair = base @ quote @ ''=X'' in
      case request send bad_url (ya_Timeout y) 256 i pair
             \<lparr>rq_url = ya_BaseURL y @ ''/v8/finance/chart/'' @ pair @ ''?interval=1d&range=1d'',
              rq_params = [], rq_headers = [(''User-Agent'', ya_UserAgent y)]\<rparr> of
        Inl e \<Rightarrow> Inl e
      | Inr body \<Rightarrow> (case yahoo_decode body of
          None \<Rightarrow> Inl (DecodeFailed pair)
        | Some out \<Rightarrow>
            if yc_Error out \<noteq> None then Inl (ServiceError pair)
            else case yc_Result out of
                   [] \<Rightarrow> Inl (NoResult pair)
                 | r # _ \<Rightarrow>
                     let rate = yahoo_rate r; t = ym_RegularMarketTime (yr_Meta r)
                     in if feq rate (Fin 0) then Inl (ZeroRate pair)
                        else Inr \<lparr>f_Base = to_upper base, f_Quote = quote, f_Rate = rate, f_FetchedAt = now,
                               f_ProviderTS = (if 0 < t then fmt_rfc3339 (unix_time t) else [])\<rparr>))"

fun yahoo_quotes ::
    "network \<Rightarrow> url_check \<Rightarrow> time \<Rightarrow> yahoo \<Rightarrow> string \<Rightarrow> nat \<Rightarrow> string list \<Rightarrow> fetch_error + fetched list" where
  "yahoo_quotes send bad_url now y base i [] = Inr []"
| "yahoo_quotes send bad_url now y base i (q # qs) =
     (case yahoo_quote send bad_url now y base i q of
        Inl e \<Rightarrow> Inl e
      | Inr r \<Rightarrow> (case yahoo_quotes send bad_url now y base (Suc i) qs of Inl e \<Rightarrow> Inl e | Inr rs \<Rightarrow> Inr (r # rs)))"

definition yahoo_Fetch ::
    "network \<Rightarrow> url_check \<Rightarrow> time \<Rightarrow> yahoo \<Rightarrow> string \<Rightarrow> string list \<Rightarrow> fetch_error + fetched list" where
  "yahoo_Fetch send bad_url now y base0 quotes =
     (let base = or_default ''USD'' base0 in
      if quotes = [] then Inr [] else yahoo_quotes send bad_url now y base 0 quotes)"

section \<open>The registry\<close>

datatype adapter = AFrankfurter frankfurter | AMoneyConvert moneyconvert | AYahoo yahoo

definition stringConfig :: "any_map \<Rightarrow> string \<Rightarrow> string \<Rightarrow> string" where
  "stringConfig m key fallback =
     (case m of
        None \<Rightarrow> fallback
      | Some kvs \<Rightarrow> (case map_get kvs key of Some (AnyString s) \<Rightarrow> s | _ \<Rightarrow> fallback))"

definition NewFromConfig :: "provider_cfg \<Rightarrow> string + adapter" where
  "NewFromConfig p =
     (if cp_Type p = ''frankfurter''
        then Inr (AFrankfurter (NewFrankfurter (stringConfig (cp_Config p) ''base_url'' ''https://api.frankfurter.app'')))
      else if cp_Type p = ''moneyconvert''
        then Inr (AMoneyConvert (NewMoneyConvert (stringConfig (cp_Config p) ''base_url'' ''https://cdn.moneyconvert.net'')
               (stringConfig (cp_Config p) ''api_key'' [])))
      else if cp_Type p = ''yahoo''
        then Inr (AYahoo (NewYahoo (stringConfig (cp_Config p) ''base_url'' ''https://query2.finance.yahoo.com'')))
      else Inl (cp_Type p))"

fun adapter_Name :: "adapter \<Rightarrow> string" where
  "adapter_Name (AFrankfurter _) = ''frankfurter''"
| "adapter_Name (AMoneyConvert _) = ''moneyconvert''"
| "adapter_Name (AYahoo _) = ''yahoo''"

fun adapter_Fetch ::
    "network \<Rightarrow> url_check \<Rightarrow> time \<Rightarrow> adapter \<Rightarrow> string \<Rightarrow> string list \<Rightarrow> fetch_error + fetched list" where
  "adapter_Fetch send bad_url now (AFrankfurter f) = frankfurter_Fetch send bad_url now f"
| "adapter_Fetch send bad_url now (AMoneyConvert m) = moneyconvert_Fetch send bad_url now m"
| "adapter_Fetch send bad_url now (AYahoo y) = yahoo_Fetch send bad_url now y"

text \<open>The adapter as the scheduler sees it; type and name of an adapter are the same. What the network answers depends on the time.\<close>

definition provider_of :: "(time \<Rightarrow> network) \<Rightarrow> url_check \<Rightarrow> adapter \<Rightarrow> provider_impl" where
  "provider_of send bad_url a =
     \<lparr>pv_Name = adapter_Name a, pv_Type = adapter_Name a,
      pv_Fetch = (\<lambda>now. adapter_Fetch (send now) bad_url now a)\<rparr>"

section \<open>What every adapter promises\<close>

text \<open>
  A fetch for no quotes does nothing; a successful one reports some of the quotes it was asked
  for, in their order, against the base it was asked for and at the time of the fetch.
\<close>

definition reports :: "time \<Rightarrow> string \<Rightarrow> string list \<Rightarrow> fetched list \<Rightarrow> bool" where
  "reports now base asked rs \<longleftrightarrow> map f_Quote rs = map to_upper asked
     \<and> (\<forall>r \<in> set rs. f_Base r = to_upper (or_default ''USD'' base) \<and> f_FetchedAt r = now)"

lemma distinct_subseq: "subseq xs ys \<Longrightarrow> distinct ys \<Longrightarrow> distinct xs"
  by (auto simp: subseq_conv_nths distinct_nthsI)

locale rate_adapter =
  fixes fetch :: "network \<Rightarrow> url_check \<Rightarrow> time \<Rightarrow> 'a \<Rightarrow> string \<Rightarrow> string list \<Rightarrow> fetch_error + fetched list"
  assumes no_quotes: "fetch send bad_url now a base [] = Inr []"
    and asked: "fetch send bad_url now a base quotes = Inr rs \<Longrightarrow> \<exists>sel. subseq sel quotes \<and> reports now base sel rs"
begin

lemma at_most_one_each: "fetch send bad_url now a base quotes = Inr rs \<Longrightarrow> length rs \<le> length quotes"
proof -
  assume "fetch send bad_url now a base quotes = Inr rs"
  from asked [OF this] obtain sel where "subseq sel quotes" "map f_Quote rs = map to_upper sel" by (auto simp: reports_def)
  moreover from this(2) have "length rs = length sel" by (metis length_map)
  ultimately show ?thesis using list_emb_length by force
qed

lemma distinct_quotes:
  assumes "fetch send bad_url now a base quotes = Inr rs" and "distinct (map to_upper quotes)"
  shows "distinct (map f_Quote rs)"
proof -
  obtain sel where "subseq sel quotes" "map f_Quote rs = map to_upper sel"
    using asked [OF assms(1)] by (auto simp: reports_def)
  then show ?thesis using assms(2) subseq_map [of sel quotes to_upper] distinct_subseq by metis
qed

end

lemma rate_readings_asked: "\<exists>sel. subseq sel quotes \<and> map f_Quote (rate_readings now base ts rates quotes) = map to_upper sel
    \<and> (\<forall>r \<in> set (rate_readings now base ts rates quotes). f_Base r = to_upper base \<and> f_FetchedAt r = now)"
proof (induction quotes)
  case (Cons q qs)
  then obtain sel where sel: "subseq sel qs" "map f_Quote (rate_readings now base ts rates qs) = map to_upper sel"
    "\<forall>r \<in> set (rate_readings now base ts rates qs). f_Base r = to_upper base \<and> f_FetchedAt r = now" by blast
  show ?case
  proof (cases "map_get rates (to_upper q)")
    case None
    with sel show ?thesis by (intro exI [of _ sel]) (simp add: rate_readings_def list_emb_Cons)
  next
    case (Some v)
    with sel show ?thesis by (intro exI [of _ "q # sel"]) (simp add: rate_readings_def)
  qed
qed (simp add: rate_readings_def)

lemma rate_readings_reports:
  assumes "equal_fold b (or_default ''USD'' base)"
  shows "\<exists>sel. subseq sel quotes \<and> reports now base sel (rate_readings now b ts rates quotes)"
  using rate_readings_asked [of quotes now b ts rates] assms by (auto simp: reports_def equal_fold_def)

interpretation fr: rate_adapter frankfurter_Fetch
  by unfold_locales
    (auto simp: frankfurter_Fetch_def Let_def reports_def dest!: rate_readings_reports
      split: if_splits sum.splits option.splits)

interpretation mc: rate_adapter moneyconvert_Fetch
  by unfold_locales
    (auto simp: moneyconvert_Fetch_def Let_def reports_def dest!: rate_readings_reports
      split: if_splits sum.splits option.splits)

lemma yahoo_quote_reports:
  "yahoo_quote send bad_url now y base i q = Inr r \<Longrightarrow>
    f_Quote r = to_upper q \<and> f_Base r = to_upper base \<and> f_FetchedAt r = now \<and> \<not> feq (f_Rate r) (Fin 0)"
  by (auto simp: yahoo_quote_def Let_def split: sum.splits option.splits list.splits if_splits)

lemma yahoo_quotes_reports:
  "yahoo_quotes send bad_url now y base i qs = Inr rs \<Longrightarrow> map f_Quote rs = map to_upper qs
    \<and> (\<forall>r \<in> set rs. f_Base r = to_upper base \<and> f_FetchedAt r = now \<and> \<not> feq (f_Rate r) (Fin 0))"
proof (induction qs arbitrary: i rs)
  case (Cons q qs)
  then obtain r rs' where "rs = r # rs'" "yahoo_quote send bad_url now y base i q = Inr r"
    "yahoo_quotes send bad_url now y base (Suc i) qs = Inr rs'" by (auto split: sum.splits)
  with Cons.IH yahoo_quote_reports show ?case by fastforce
qed simp

lemma yahoo_Fetch_reports:
  "yahoo_Fetch send bad_url now y base quotes = Inr rs \<Longrightarrow>
    reports now base quotes rs \<and> (\<forall>r \<in> set rs. \<not> feq (f_Rate r) (Fin 0))"
  using yahoo_quotes_reports by (fastforce simp: yahoo_Fetch_def reports_def Let_def split: if_splits)

interpretation ya: rate_adapter yahoo_Fetch
proof unfold_locales
  fix send bad_url now a base quotes rs
  show "yahoo_Fetch send bad_url now a base [] = Inr []" by (simp add: yahoo_Fetch_def Let_def)
  show "yahoo_Fetch send bad_url now a base quotes = Inr rs \<Longrightarrow> \<exists>sel. subseq sel quotes \<and> reports now base sel rs"
    using yahoo_Fetch_reports by blast
qed

interpretation ad: rate_adapter adapter_Fetch
proof unfold_locales
  fix send bad_url now a base quotes rs
  show "adapter_Fetch send bad_url now a base [] = Inr []"
    by (cases a) (simp_all add: fr.no_quotes mc.no_quotes ya.no_quotes)
  show "adapter_Fetch send bad_url now a base quotes = Inr rs \<Longrightarrow> \<exists>sel. subseq sel quotes \<and> reports now base sel rs"
    by (cases a) (simp_all add: fr.asked mc.asked ya.asked)
qed

text \<open>
  C34: an adapter reports what it was asked for. When the adapter of a configured provider
  answers, its readings are for some of the quotes asked, at most one per quote and in their
  order, all against the base asked for (US dollars when none is given) and dated at the time of
  the fetch; the adapter has the configured type, and Yahoo answers for every quote, with no
  zero rate among its readings.
\<close>

theorem adapter_reports_asked_pairs:
  assumes "NewFromConfig p = Inr a" and "adapter_Fetch send bad_url now a base quotes = Inr rs"
  shows "\<exists>sel. subseq sel quotes \<and> map f_Quote rs = map to_upper sel
      \<and> (\<forall>r \<in> set rs. f_Base r = to_upper (or_default ''USD'' base) \<and> f_FetchedAt r = now)
      \<and> length rs \<le> length quotes \<and> (distinct (map to_upper quotes) \<longrightarrow> distinct (map f_Quote rs))
      \<and> adapter_Name a = cp_Type p
      \<and> (cp_Type p = ''yahoo'' \<longrightarrow> sel = quotes \<and> (\<forall>r \<in> set rs. \<not> feq (f_Rate r) (Fin 0)))"
proof -
  have name: "adapter_Name a = cp_Type p"
    using assms(1) by (auto simp: NewFromConfig_def split: if_splits)
  note common = ad.at_most_one_each [OF assms(2)] ad.distinct_quotes [OF assms(2)] name
  show ?thesis
  proof (cases "cp_Type p = ''yahoo''")
    case True
    then obtain y where "a = AYahoo y" using name by (cases a) auto
    then have "reports now base quotes rs" "\<forall>r \<in> set rs. \<not> feq (f_Rate r) (Fin 0)"
      using assms(2) yahoo_Fetch_reports by auto
    then show ?thesis using common by (intro exI [of _ quotes]) (simp add: reports_def)
  next
    case False
    then show ?thesis using ad.asked [OF assms(2)] common by (auto simp: reports_def)
  qed
qed

section \<open>Reading an answer\<close>

definition answer_body :: "string \<Rightarrow> string \<Rightarrow> json \<Rightarrow> string" where
  "answer_body base date rates = json_text (JObj [(''amount'', JNum ''1''), (''base'', JStr base), (''date'', JStr date), (''rates'', rates)])"

lemma field_names:
  "fold_name ''amount'' = ''AMOUNT''" "fold_name ''base'' = ''BASE''" "fold_name ''date'' = ''DATE''" "fold_name ''rates'' = ''RATES''"
  by code_simp+

lemma number_one: "num_ok ''1''" "parse_float ''1'' = Some (Fin 1)"
proof -
  have "digit 1 = CHR ''1''" by code_simp
  then have "decimal 1 = ''1''" by (simp add: decimal.simps)
  then show "num_ok ''1''" using num_ok_decimal(1) [of 1] by simp
  have "rndq 1 = 1" using rndq_of_int [of 1] by simp
  moreover have "takeWhile is_digit ''1'' = ''1''" "dropWhile is_digit ''1'' = []" "digits_val ''1'' = 1"
    by (simp_all add: is_digit_def digit_val_def)
  ultimately show "parse_float ''1'' = Some (Fin 1)"
    by (simp add: parse_float_def scan_sign_def number_magnitude_def scan_frac_def scan_exp_def mkf_def f64_lim_def Let_def)
qed

lemma answer_decoded:
  assumes "valid_utf8 base" and "valid_utf8 date" and "json_float_map m = Some j" and "map_wf m"
    and "\<forall>(k, v) \<in> set m. wff v \<and> valid_utf8 k"
  shows "\<exists>m'. map_get m' = map_get m
    \<and> frankfurter_decode (answer_body base date j) = Some \<lparr>fo_Amount = Fin 1, fo_Base = base, fo_Date = date, fo_Rates = m'\<rparr>
    \<and> moneyconvert_decode (answer_body base date j) = Some \<lparr>mo_Base = base, mo_Disclaimer = [], mo_License = [], mo_Rates = m'\<rparr>"
proof -
  obtain m' where m': "dec_float_map [] j = Some m'" "map_get m' = map_get m"
    using dec_json_float_map(2) [OF assms(3-5)] by blast
  let ?doc = "JObj [(''amount'', JNum ''1''), (''base'', JStr base), (''date'', JStr date), (''rates'', j)]"
  have ascii: "valid_utf8 ''amount''" "valid_utf8 ''base''" "valid_utf8 ''date''" "valid_utf8 ''rates''" by code_simp+
  have depth: "max_depth = Suc (Suc 9998)" by (simp add: max_depth_def)
  have "json_ok max_depth ?doc"
    using assms(1,2) number_one(1) ascii dec_json_float_map(1) [OF assms(3-5), of 9998]
    unfolding depth by simp
  then have "decode_stream (answer_body base date j) = Some ?doc"
    using decode_json_text(2) [of ?doc "[]"] by (simp add: answer_body_def)
  then show ?thesis using m' number_one(2)
    by (intro exI [of _ m']) (simp add: frankfurter_decode_def moneyconvert_decode_def dec_struct_def field_names
        frankfurter_field_def moneyconvert_field_def dec_float_def dec_string_def)
qed

lemma rate_readings_cong: "map_get m = map_get m' \<Longrightarrow> rate_readings now b ts m quotes = rate_readings now b ts m' quotes"
  by (simp add: rate_readings_def)

text \<open>
  The readings that report a document: one for each asked quote the document has, in the order
  asked, with the document's own rate under the upper-case code.
\<close>

definition report_document :: "time \<Rightarrow> string \<Rightarrow> string \<Rightarrow> (string, f64) go_map \<Rightarrow> string list \<Rightarrow> fetched list \<Rightarrow> bool" where
  "report_document now b ts rates quotes rs \<longleftrightarrow>
     list_all2 (\<lambda>q r. map_get rates (to_upper q) = Some (f_Rate r) \<and> f_Quote r = to_upper q \<and> f_Base r = to_upper b
         \<and> f_FetchedAt r = now \<and> f_ProviderTS r = ts)
       (filter (\<lambda>q. map_get rates (to_upper q) \<noteq> None) quotes) rs"

lemma rate_readings_report: "report_document now b ts rates quotes (rate_readings now b ts rates quotes)"
  unfolding report_document_def rate_readings_def
  by (induction quotes) (auto split: option.split)

text \<open>
  C35: the rates of an answer arrive unchanged. When a service answers with the JSON document of a
  base, a date and finite rates, Frankfurter and MoneyConvert report, in the order asked, one
  reading for each asked quote that the document has, whose rate is the same float the document
  has for it, with the document's base, the time of the fetch and, for Frankfurter, the
  document's date, provided the base is the one asked for; otherwise they return the mismatch
  as an error.
\<close>

theorem answers_read_exactly:
  assumes "valid_utf8 b" and "valid_utf8 date" and "json_float_map rates = Some j" and "map_wf rates"
    and "\<forall>(k, v) \<in> set rates. wff v \<and> valid_utf8 k" and "quotes \<noteq> []" and "\<And>u. bad_url u = None"
    and "\<And>t i r. send t i r = Inr \<lparr>rs_status = 200, rs_body = answer_body b date j\<rparr>"
  shows "if equal_fold b (or_default ''USD'' base)
    then (\<exists>rs. frankfurter_Fetch send bad_url now f base quotes = Inr rs \<and> report_document now b date rates quotes rs)
       \<and> (\<exists>rs. moneyconvert_Fetch send bad_url now m base quotes = Inr rs \<and> report_document now b [] rates quotes rs)
    else frankfurter_Fetch send bad_url now f base quotes = Inl (BaseMismatch ''frankfurter'' (or_default ''USD'' base) b)
       \<and> moneyconvert_Fetch send bad_url now m base quotes = Inl (BaseMismatch ''moneyconvert'' (or_default ''USD'' base) b)"
proof -
  obtain m' where m': "map_get m' = map_get rates"
    "frankfurter_decode (answer_body b date j) = Some \<lparr>fo_Amount = Fin 1, fo_Base = b, fo_Date = date, fo_Rates = m'\<rparr>"
    "moneyconvert_decode (answer_body b date j) = Some \<lparr>mo_Base = b, mo_Disclaimer = [], mo_License = [], mo_Rates = m'\<rparr>"
    using answer_decoded [OF assms(1-5)] by blast
  have "request send bad_url t n i w r = Inr (answer_body b date j)" for t n i w r
    by (simp add: request_def assms(7,8) status_ok_def)
  then show ?thesis using assms(6) m' rate_readings_cong [OF m'(1)] rate_readings_report
    by (simp add: frankfurter_Fetch_def moneyconvert_Fetch_def)
qed

definition euro_rates :: "(string, f64) go_map" where
  "euro_rates = [(''EUR'', Fin (1 / 2))]"

definition euro_answer :: network where
  "euro_answer = (\<lambda>_ _ _. Inr \<lparr>rs_status = 200, rs_body = answer_body ''USD'' ''2026-01-02'' (the (json_float_map euro_rates))\<rparr>)"

lemma euro_rates_ok:
  "json_float_map euro_rates = Some (the (json_float_map euro_rates))" "map_wf euro_rates"
  "\<forall>(k, v) \<in> set euro_rates. wff v \<and> valid_utf8 k"
proof -
  have "rndq (1 / 2) = 1 / 2" by (rule rndq_short [of _ 1 "- 1"]) (simp_all add: power_int_minus)
  moreover have "\<bar>1 / 2 :: rat\<bar> < f64_lim" by (simp add: f64_lim_def)
  moreover have "valid_utf8 ''EUR''" by code_simp
  ultimately show "\<forall>(k, v) \<in> set euro_rates. wff v \<and> valid_utf8 k" by (simp add: euro_rates_def fin_ok_def)
  show "map_wf euro_rates" by (simp add: euro_rates_def map_wf_def)
  have "enc_entries (sort_key fst euro_rates) \<noteq> None" unfolding enc_entries_None by (simp add: euro_rates_def)
  then show "json_float_map euro_rates = Some (the (json_float_map euro_rates))"
    by (auto simp: json_float_map_def)
qed

lemma euro_fetch:
  "rate_readings 7 ''USD'' ts euro_rates [''gbp'', ''eur'']
    = [\<lparr>f_Base = ''USD'', f_Quote = ''EUR'', f_Rate = Fin (1 / 2), f_FetchedAt = 7, f_ProviderTS = ts\<rparr>]"
proof -
  have "to_upper ''gbp'' = ''GBP''" "to_upper ''eur'' = ''EUR''" "to_upper ''USD'' = ''USD''" by code_simp+
  then show ?thesis by (simp add: rate_readings_def euro_rates_def map_get_def)
qed

theorem answers_read_exactly_witness:
  "frankfurter_Fetch euro_answer (\<lambda>_. None) 7 (NewFrankfurter []) [] [''gbp'', ''eur'']
   = Inr [\<lparr>f_Base = ''USD'', f_Quote = ''EUR'', f_Rate = Fin (1 / 2), f_FetchedAt = 7, f_ProviderTS = ''2026-01-02''\<rparr>]"
proof -
  have v: "valid_utf8 ''USD''" "valid_utf8 ''2026-01-02''" by code_simp+
  have up: "to_upper ''gbp'' = ''GBP''" "to_upper ''eur'' = ''EUR''" "to_upper ''USD'' = ''USD''" by code_simp+
  obtain rs where rs: "frankfurter_Fetch euro_answer (\<lambda>_. None) 7 (NewFrankfurter []) [] [''gbp'', ''eur''] = Inr rs"
      "report_document 7 ''USD'' ''2026-01-02'' euro_rates [''gbp'', ''eur''] rs"
    using answers_read_exactly [OF v euro_rates_ok, of "[''gbp'', ''eur'']" "\<lambda>_. None" euro_answer "[]" 7 "NewFrankfurter []"]
    by (auto simp: euro_answer_def or_default_def equal_fold_def)
  then show ?thesis
    by (auto simp: report_document_def up euro_rates_def map_get_def list_all2_Cons1 fetched.equality)
qed

lemma euro_adapter_fetch:
  assumes "equal_fold ''USD'' (or_default ''USD'' base)" and "quotes \<noteq> []"
  shows "adapter_Fetch euro_answer (\<lambda>_. None) now (AFrankfurter (NewFrankfurter [])) base quotes
   = Inr (rate_readings now ''USD'' ''2026-01-02'' euro_rates quotes)"
proof -
  have v: "valid_utf8 ''USD''" "valid_utf8 ''2026-01-02''" by code_simp+
  obtain m' where m': "map_get m' = map_get euro_rates"
    "frankfurter_decode (answer_body ''USD'' ''2026-01-02'' (the (json_float_map euro_rates)))
      = Some \<lparr>fo_Amount = Fin 1, fo_Base = ''USD'', fo_Date = ''2026-01-02'', fo_Rates = m'\<rparr>"
    using answer_decoded [OF v euro_rates_ok] by blast
  then show ?thesis using rate_readings_cong [OF m'(1)] assms
    by (simp add: frankfurter_Fetch_def request_def euro_answer_def status_ok_def)
qed

definition euro_provider :: provider_cfg where
  "euro_provider = \<lparr>cp_Name = ''ecb'', cp_Type = ''frankfurter'', cp_Config = Some [(''base_url'', AnyString [])], cp_Priority = 1,
     cp_CallsPerDay = None, cp_ScheduleCron = [], cp_Enabled = True, cp_Extra = None\<rparr>"

lemma euro_adapter: "NewFromConfig euro_provider = Inr (AFrankfurter (NewFrankfurter []))"
  by (simp add: NewFromConfig_def euro_provider_def stringConfig_def map_get_def)

theorem adapter_reports_asked_pairs_witness:
  "NewFromConfig euro_provider = Inr (AFrankfurter (NewFrankfurter [])) \<and>
   (\<exists>sel. subseq sel [''gbp'', ''eur''] \<and> map to_upper sel = [''EUR''])"
proof -
  note n = euro_adapter
  have f: "adapter_Fetch euro_answer (\<lambda>_. None) 7 (AFrankfurter (NewFrankfurter [])) [] [''gbp'', ''eur'']
      = Inr (rate_readings 7 ''USD'' ''2026-01-02'' euro_rates [''gbp'', ''eur''])"
    using euro_adapter_fetch [of "[]" "[''gbp'', ''eur'']" 7] by (simp add: or_default_def equal_fold_def)
  obtain sel where "subseq sel [''gbp'', ''eur'']" "map f_Quote (rate_readings 7 ''USD'' ''2026-01-02'' euro_rates [''gbp'', ''eur'']) = map to_upper sel"
    using adapter_reports_asked_pairs [OF n f] by blast
  then show ?thesis using n by (auto simp: euro_fetch)
qed

end
