(* ===== verification/Stats.thy ===== *)
theory Stats
  imports Float64 "HOL-Library.Sublist"
begin

text \<open>
  \<^verbatim>\<open>internal/aggregator/stats.go\<close>: the median over providers and the outlier filter, on
  binary64 values. The laws are the ones the aggregation rests on: the median of a
  non-empty list does not depend on the order of the readings and lies in every interval
  that holds a strict majority of them (so a minority of bad providers cannot move it out),
  and the filter keeps a non-empty sublist of what it is given, whose members are within
  the tolerance when anything was dropped.
\<close>

section \<open>Definitions\<close>

definition Median :: "f64 list \<Rightarrow> f64 \<times> bool" where
  "Median values =
     (if length values = 0 then (Fin 0, False)
      else let sorted = sort values; mid = length sorted div 2
           in if length sorted mod 2 = 0
              then (fdiv (fadd (sorted ! (mid - 1)) (sorted ! mid)) (Fin 2), True)
              else (sorted ! mid, True))"

definition FilterOutliers :: "f64 list \<Rightarrow> f64 \<Rightarrow> f64 list" where
  "FilterOutliers values tolerancePct =
     (if length values \<le> 2 \<or> fle tolerancePct (Fin 0) then values
      else let (med, ok) = Median values
           in if \<not> ok \<or> feq med (Fin 0) then values
              else let out = filter (\<lambda>v. fle (fdiv (fabs (fsub v med)) med) tolerancePct) values
                   in if length out = 0 then values else out)"

section \<open>The median\<close>

lemma Median_empty [simp]: "Median [] = (Fin 0, False)"
  by (simp add: Median_def)

lemma Median_nonempty: "snd (Median vs) \<longleftrightarrow> vs \<noteq> []"
  by (simp add: Median_def Let_def)

lemma Median_mset:
  assumes "mset xs = mset ys"
  shows "Median xs = Median ys"
proof -
  have "length xs = length ys" using assms by (metis size_mset)
  with sort_cong_mset [OF assms] show ?thesis by (simp add: Median_def)
qed

lemma Median_mem_odd:
  assumes "odd (length vs)"
  shows "fst (Median vs) \<in> set vs"
proof -
  have "vs \<noteq> []" using assms by auto
  then have "length vs div 2 < length (sort vs)" by simp
  then have "sort vs ! (length vs div 2) \<in> set vs" by (metis nth_mem set_sort)
  with assms show ?thesis by (auto simp: Median_def Let_def odd_iff_mod_2_eq_one)
qed

text \<open>Both middle elements lie in an interval that holds a strict majority.\<close>

lemma middle_in_majority:
  assumes fin: "\<forall>v \<in> set vs. ffinite v"
    and maj: "length vs < 2 * length (filter (\<lambda>v. lo \<le> fval v \<and> fval v \<le> hi) vs)"
    and i: "i = length vs div 2 \<or> even (length vs) \<and> i = length vs div 2 - 1"
  shows "i < length vs" and "lo \<le> fval (sort vs ! i)" and "fval (sort vs ! i) \<le> hi"
proof -
  let ?P = "\<lambda>v. lo \<le> fval v \<and> fval v \<le> hi"
  have ne: "vs \<noteq> []" using maj by auto
  then have "length vs \<noteq> 0" by simp
  then show il: "i < length vs" using i by (elim disjE conjE) linarith+
  have below: "length (sort vs) - Suc i < length (filter ?P (sort vs))"
    and above: "i < length (filter ?P (sort vs))"
    using maj i ne by (auto simp: length_filter_sort elim!: evenE)
  have mono: "x \<in> set (sort vs) \<Longrightarrow> y \<in> set (sort vs) \<Longrightarrow> x \<le> y \<Longrightarrow> fval x \<le> fval y" for x y
    using fin le_imp_fval_le by simp
  show "lo \<le> fval (sort vs ! i)"
    by (rule sorted_majority_lower [where P = ?P, OF _ _ below])
      (use il mono in \<open>auto intro: order_trans\<close>)
  show "fval (sort vs ! i) \<le> hi"
    by (rule sorted_majority_upper [where P = ?P, OF _ _ above])
      (use il mono in \<open>auto intro: order_trans\<close>)
qed

lemma Median_majority_fval:
  assumes mod: "\<forall>v \<in> set vs. moderate v"
    and maj: "length vs < 2 * length (filter (\<lambda>v. lo \<le> fval v \<and> fval v \<le> hi) vs)"
  shows "ffinite (fst (Median vs))" and "wff (fst (Median vs))"
    and "lo \<le> fval (fst (Median vs))" and "fval (fst (Median vs)) \<le> hi"
proof -
  let ?s = "sort vs" and ?m = "length vs div 2"
  have fin: "\<forall>v \<in> set vs. ffinite v" using mod by simp
  have ne: "length vs \<noteq> 0" using maj by auto
  note mid = middle_in_majority [OF fin maj, of ?m, simplified]
  have mod': "j < length vs \<Longrightarrow> moderate (?s ! j)" for j
    using mod by (metis length_sort nth_mem set_sort)
  have "ffinite (fst (Median vs)) \<and> wff (fst (Median vs))
    \<and> lo \<le> fval (fst (Median vs)) \<and> fval (fst (Median vs)) \<le> hi"
  proof (cases "even (length vs)")
    case True
    then have med: "fst (Median vs) = fdiv (fadd (?s ! (?m - 1)) (?s ! ?m)) (Fin 2)"
      using ne by (simp add: Median_def Let_def even_iff_mod_2_eq_zero)
    note mid1 = middle_in_majority [OF fin maj, of "?m - 1"]
    have "?s ! (?m - 1) \<le> ?s ! ?m" using mid by (intro sorted_nth_mono) auto
    then have "fval (?s ! (?m - 1)) \<le> fval (?s ! ?m)"
      using mod' mid mid1 True by (intro le_imp_fval_le) auto
    from fmid_between [OF mod' mod' this] mid mid1 True med show ?thesis
      by (auto intro: order_trans)
  next
    case False
    then have "fst (Median vs) = ?s ! ?m"
      using ne by (simp add: Median_def Let_def odd_iff_mod_2_eq_one)
    with mid mod' [of ?m] show ?thesis by (auto simp: moderate_def)
  qed
  then show "ffinite (fst (Median vs))" "wff (fst (Median vs))"
    "lo \<le> fval (fst (Median vs))" "fval (fst (Median vs)) \<le> hi" by simp_all
qed

lemma Median_within:
  assumes "vs \<noteq> []" and "\<forall>v \<in> set vs. moderate v"
    and "\<forall>v \<in> set vs. lo \<le> fval v \<and> fval v \<le> hi"
  shows "ffinite (fst (Median vs))" and "wff (fst (Median vs))"
    and "lo \<le> fval (fst (Median vs))" and "fval (fst (Median vs)) \<le> hi"
proof -
  have "filter (\<lambda>v. lo \<le> fval v \<and> fval v \<le> hi) vs = vs" using assms(3) by simp
  with assms(1) have "length vs < 2 * length (filter (\<lambda>v. lo \<le> fval v \<and> fval v \<le> hi) vs)"
    by simp
  from Median_majority_fval [OF assms(2) this]
  show "ffinite (fst (Median vs))" "wff (fst (Median vs))"
    "lo \<le> fval (fst (Median vs))" "fval (fst (Median vs)) \<le> hi" .
qed

section \<open>The outlier filter\<close>

text \<open>The test one value has to pass.\<close>

definition within_tolerance :: "f64 list \<Rightarrow> f64 \<Rightarrow> f64 \<Rightarrow> bool" where
  "within_tolerance vs tol v \<longleftrightarrow>
     fle (fdiv (fabs (fsub v (fst (Median vs)))) (fst (Median vs))) tol"

lemma FilterOutliers_cases:
  "FilterOutliers vs tol = vs \<or>
   (FilterOutliers vs tol = filter (within_tolerance vs tol) vs
    \<and> filter (within_tolerance vs tol) vs \<noteq> [] \<and> 2 < length vs)"
  by (auto simp: FilterOutliers_def within_tolerance_def [abs_def] Let_def split: prod.splits)

lemma FilterOutliers_empty [simp]: "FilterOutliers [] tol = []"
  by (simp add: FilterOutliers_def)

lemma FilterOutliers_set: "set (FilterOutliers vs tol) \<subseteq> set vs"
  using FilterOutliers_cases [of vs tol] by auto

lemma FilterOutliers_eq_Nil [simp]: "FilterOutliers vs tol = [] \<longleftrightarrow> vs = []"
  using FilterOutliers_cases [of vs tol] by auto

lemma FilterOutliers_id:
  assumes "length vs \<le> 2 \<or> fle tol (Fin 0) \<or> feq (fst (Median vs)) (Fin 0)"
  shows "FilterOutliers vs tol = vs"
  using assms by (cases "Median vs") (auto simp: FilterOutliers_def)

lemma FilterOutliers_eval:
  assumes "Median vs = (m, True)" and "2 < length vs" and "\<not> fle tol (Fin 0)" and "\<not> feq m (Fin 0)"
    and "filter (\<lambda>v. fle (fdiv (fabs (fsub v m)) m) tol) vs = out" and "out \<noteq> []"
  shows "FilterOutliers vs tol = out"
  using assms by (simp add: FilterOutliers_def)

lemma FilterOutliers_dropped:
  assumes "v \<in> set vs" and "v \<notin> set (FilterOutliers vs tol)"
  shows "FilterOutliers vs tol = filter (within_tolerance vs tol) vs"
  using FilterOutliers_cases [of vs tol] assms by auto

text \<open>A value equal to the median always passes the test of a positive tolerance.\<close>

lemma within_tolerance_median:
  assumes "moderate (fst (Median vs))" and "fval (fst (Median vs)) \<noteq> 0" and "flt (Fin 0) tol"
  shows "within_tolerance vs tol (fst (Median vs))"
proof -
  let ?m = "fst (Median vs)"
  obtain q where q: "?m = Fin q" "q \<noteq> 0"
    using assms(1,2) by (cases ?m) (auto simp: moderate_def)
  then have "fabs (fsub ?m ?m) = Fin 0"
    by (simp add: fsub_def fneg_def fadd_def mkf_def fabs_def fsign_def)
  then have "fdiv (fabs (fsub ?m ?m)) ?m = Fin 0 \<or> fdiv (fabs (fsub ?m ?m)) ?m = NZero"
    using q by (simp add: fdiv_def mkf_def)
  moreover have "fle (Fin 0) tol" "fle NZero tol"
    using assms(3) by (cases tol; auto simp: f64_cmp_defs)+
  ultimately show ?thesis by (auto simp: within_tolerance_def)
qed

section \<open>Properties\<close>

text \<open>
  C20: the median of provider rates resists a minority. If a strict majority of the readings
  lies between \<open>lo\<close> and \<open>hi\<close>, then so does the published median, whatever the other
  readings are; the result is a proper finite rate even though the mean of the two middle
  readings is computed in binary64. (The readings must be below half the binary64 range, so
  that the sum of two does not overflow.)
\<close>

theorem median_resists_minority:
  assumes "\<forall>v \<in> set vs. moderate v" and "ffinite lo" and "ffinite hi"
    and "length vs < 2 * length (filter (\<lambda>v. fle lo v \<and> fle v hi) vs)"
  shows "snd (Median vs) \<and> ffinite (fst (Median vs)) \<and> wff (fst (Median vs))
    \<and> fle lo (fst (Median vs)) \<and> fle (fst (Median vs)) hi"
proof -
  have "filter (\<lambda>v. fle lo v \<and> fle v hi) vs
      = filter (\<lambda>v. fval lo \<le> fval v \<and> fval v \<le> fval hi) vs"
    using assms(1-3) by (intro filter_cong) (auto simp: fle_finite)
  with assms(4) have maj: "length vs
      < 2 * length (filter (\<lambda>v. fval lo \<le> fval v \<and> fval v \<le> fval hi) vs)" by simp
  then have "vs \<noteq> []" by auto
  with Median_majority_fval [OF assms(1) maj] assms(2,3) show ?thesis
    by (simp add: Median_nonempty fle_finite)
qed

lemma moderate_small_int: "\<bar>k\<bar> \<le> 2 ^ 53 \<Longrightarrow> moderate (Fin (of_int k))"
proof -
  assume k: "\<bar>k\<bar> \<le> 2 ^ 53"
  then have "\<bar>of_int k :: rat\<bar> \<le> of_int (2 ^ 53)" by (simp only: of_int_le_iff flip: of_int_abs)
  also have "\<dots> = 2 powi (0 + int 53)" by (simp only: powi2_shift) simp
  also have "\<dots> < f64_half_lim" unfolding f64_half_lim_def by (rule powi2_strict) simp
  finally show ?thesis using fin_ok_of_int [OF k] by (simp add: moderate_def)
qed

theorem median_resists_minority_witness:
  "fle (Fin 5) (fst (Median [Fin 5, Fin 900, Fin 6])) \<and> fle (fst (Median [Fin 5, Fin 900, Fin 6])) (Fin 6)"
proof -
  have "\<forall>v \<in> set [Fin 5, Fin 900, Fin 6]. moderate v"
    using moderate_small_int [of 5] moderate_small_int [of 900] moderate_small_int [of 6] by simp
  from median_resists_minority [OF this, of "Fin 5" "Fin 6"] show ?thesis
    by (simp add: fle_finite)
qed

text \<open>
  The outlier filter is safe. It returns a sublist of the readings in their order and is
  empty only for no readings; it leaves two or fewer readings, a non-positive tolerance and a
  zero median alone; and as soon as it drops one reading, it has kept exactly the readings
  within the tolerance of the median and dropped exactly the others.
\<close>

theorem filter_outliers_safe:
  "subseq (FilterOutliers vs tol) vs
   \<and> (FilterOutliers vs tol = [] \<longleftrightarrow> vs = [])
   \<and> (length vs \<le> 2 \<or> fle tol (Fin 0) \<or> feq (fst (Median vs)) (Fin 0)
      \<longrightarrow> FilterOutliers vs tol = vs)
   \<and> (\<forall>v \<in> set vs. v \<notin> set (FilterOutliers vs tol) \<longrightarrow> \<not> within_tolerance vs tol v
        \<and> (\<forall>u \<in> set vs. u \<in> set (FilterOutliers vs tol) \<longleftrightarrow> within_tolerance vs tol u))"
proof -
  have "subseq (FilterOutliers vs tol) vs"
    using FilterOutliers_cases [of vs tol] by (metis subseq_filter_left subseq_order.order_refl)
  moreover have "length vs \<le> 2 \<or> fle tol (Fin 0) \<or> feq (fst (Median vs)) (Fin 0)
      \<longrightarrow> FilterOutliers vs tol = vs"
    by (blast intro: FilterOutliers_id)
  moreover have "\<not> within_tolerance vs tol v
      \<and> (\<forall>u \<in> set vs. u \<in> set (FilterOutliers vs tol) \<longleftrightarrow> within_tolerance vs tol u)"
    if "v \<in> set vs" "v \<notin> set (FilterOutliers vs tol)" for v
    using FilterOutliers_dropped [OF that] that by simp
  ultimately show ?thesis by (simp only: FilterOutliers_eq_Nil) blast
qed

theorem filter_outliers_safe_witness:
  "FilterOutliers [Fin 100, Fin 300, Fin 101] (Fin (1/4)) = [Fin 100, Fin 101]
   \<and> subseq (FilterOutliers [Fin 100, Fin 300, Fin 101] (Fin (1/4))) [Fin 100, Fin 300, Fin 101]"
proof -
  have "FilterOutliers [Fin 100, Fin 300, Fin 101] (Fin (1/4)) = [Fin 100, Fin 101]"
  proof (rule FilterOutliers_eval)
    show "Median [Fin 100, Fin 300, Fin 101] = (Fin 101, True)" by code_simp
    have "fle (fdiv (fabs (fsub (Fin 100) (Fin 101))) (Fin 101)) (Fin (1/4))"
      "\<not> fle (fdiv (fabs (fsub (Fin 300) (Fin 101))) (Fin 101)) (Fin (1/4))"
      "fle (fdiv (fabs (fsub (Fin 101) (Fin 101))) (Fin 101)) (Fin (1/4))"
      by code_simp+
    then show "filter (\<lambda>v. fle (fdiv (fabs (fsub v (Fin 101))) (Fin 101)) (Fin (1/4)))
      [Fin 100, Fin 300, Fin 101] = [Fin 100, Fin 101]" by simp
  qed (simp_all add: f64_cmp_defs)
  with filter_outliers_safe [of "[Fin 100, Fin 300, Fin 101]" "Fin (1/4)"] show ?thesis by blast
qed

text \<open>
  With an odd number of readings the filter never has to fall back to the unfiltered
  list: the median is itself a reading and is always kept, for every positive tolerance. (With
  an even number the median is a midpoint and all readings may be dropped; the filter then
  returns all of them.)
\<close>

theorem filter_keeps_median_reading:
  assumes "odd (length vs)" and "\<forall>v \<in> set vs. moderate v" and "flt (Fin 0) tol"
  shows "fst (Median vs) \<in> set (FilterOutliers vs tol)"
proof (cases "fval (fst (Median vs)) = 0")
  case False
  have "fst (Median vs) \<in> set vs" using assms(1) by (rule Median_mem_odd)
  with within_tolerance_median [OF _ False assms(3)] assms(2) FilterOutliers_cases [of vs tol]
  show ?thesis by auto
next
  case True
  have m: "fst (Median vs) \<in> set vs" using assms(1) by (rule Median_mem_odd)
  then have "ffinite (fst (Median vs))" using assms(2) by auto
  with True have "feq (fst (Median vs)) (Fin 0)" by (auto simp: feq_def)
  with m show ?thesis by (simp add: FilterOutliers_id)
qed

theorem filter_keeps_median_reading_witness:
  "Fin 6 \<in> set (FilterOutliers [Fin 5, Fin 900, Fin 6] (Fin (1/100)))"
proof -
  have "\<forall>v \<in> set [Fin 5, Fin 900, Fin 6]. moderate v"
    using moderate_small_int [of 5] moderate_small_int [of 900] moderate_small_int [of 6] by simp
  moreover have "flt (Fin 0) (Fin (1/100))" by (simp add: flt_def)
  moreover have "fst (Median [Fin 5, Fin 900, Fin 6]) = Fin 6" by code_simp
  ultimately show ?thesis using filter_keeps_median_reading [of "[Fin 5, Fin 900, Fin 6]"] by simp
qed

end
