(* ===== verification/Store.thy ===== *)
theory Store
  imports GoTime GoValues
begin

text \<open>
  \<^verbatim>\<open>internal/store\<close>: the SQLite tables of \<^verbatim>\<open>migrations/0001_init.sql\<close> as lists of rows
  and every query and update of \<open>store.DB\<close> as a function on them. Times are kept as RFC 3339
  text, as in the tables, and compared as text.

  The database engine is third-party code and enters as the parameter \<open>engine\<close>: which
  statements fail (\<open>fault\<close>, indexed by a running statement number, so any pattern of driver
  errors and timeouts is covered), in which order a query without ORDER BY returns its rows
  (\<open>scan\<close>), how far AUTOINCREMENT skips ahead (\<open>id_gap\<close>), and the JSON text of a provider's
  config (\<open>json_enc\<close>, \<open>json_dec\<close>). Its documented behaviour is \<open>engine_ok\<close>: a scan returns
  the rows it is given, each once. A failed statement changes no table.
\<close>

section \<open>State\<close>

datatype db_error = DriverError string | NotNullViolation | ForeignKeyViolation | NoRows | BadTime

record provider_row =
  pr_id :: int
  pr_name :: string
  pr_type :: string
  pr_config_json :: string
  pr_priority :: go_int
  pr_calls_per_day :: "go_int option"
  pr_schedule_cron :: string
  pr_enabled :: int
  pr_created_at :: string
  pr_updated_at :: string

record reading_row =
  rr_id :: int
  rr_provider_id :: int
  rr_base :: string
  rr_quote :: string
  rr_rate :: f64
  rr_fetched_at :: string
  rr_provider_ts :: "string option"

text \<open>
  \<open>last_rowid\<close> is the connection's last insert rowid (the pool is limited to one
  connection), \<open>seq_providers\<close> and \<open>seq_readings\<close> the AUTOINCREMENT sequences.
\<close>

record db =
  providers :: "provider_row list"
  readings :: "reading_row list"
  usage :: "(int \<times> string, int) go_map"
  seq_providers :: int
  seq_readings :: int
  last_rowid :: int
  stmts :: nat

record engine =
  fault :: "nat \<Rightarrow> db_error option"
  scan :: "nat \<Rightarrow> reading_row list \<Rightarrow> reading_row list"
  id_gap :: "nat \<Rightarrow> nat"
  json_enc :: "any_map \<Rightarrow> string option"
  json_dec :: "string \<Rightarrow> any_map"

definition engine_ok :: "engine \<Rightarrow> bool" where
  "engine_ok E \<longleftrightarrow> (\<forall>n rs. mset (scan E n rs) = mset rs)"

text \<open>The Go structs \<open>store.Provider\<close>, \<open>store.Reading\<close> and \<open>store.HistoryPoint\<close>.\<close>

record provider =
  p_ID :: int
  p_Name :: string
  p_Type :: string
  p_Config :: any_map
  p_Priority :: go_int
  p_CallsPerDay :: "go_int option"
  p_ScheduleCron :: string
  p_Enabled :: bool
  p_CreatedAt :: time
  p_UpdatedAt :: time

record reading =
  r_ID :: int
  r_ProviderID :: int
  r_Base :: string
  r_Quote :: string
  r_Rate :: f64
  r_FetchedAt :: time
  r_ProviderTS :: string

record history_point =
  hp_FetchedAt :: time
  hp_Rate :: f64

type_synonym 'a dbm = "db \<Rightarrow> (db_error + 'a) \<times> db"

text \<open>One SQL statement: it takes the next statement number and may fail.\<close>

definition stmt :: "engine \<Rightarrow> 'a dbm \<Rightarrow> 'a dbm" where
  "stmt E body d =
     (let d' = d\<lparr>stmts := Suc (stmts d)\<rparr>
      in case fault E (stmts d) of Some e \<Rightarrow> (Inl e, d') | None \<Rightarrow> body d')"

section \<open>Providers\<close>

definition boolToInt :: "bool \<Rightarrow> int" where
  "boolToInt b = (if b then 1 else 0)"

definition nullableStr :: "string \<Rightarrow> string option" where
  "nullableStr s = (if s = [] then None else Some s)"

definition row_provider :: "engine \<Rightarrow> provider_row \<Rightarrow> provider" where
  "row_provider E r = \<lparr>p_ID = pr_id r, p_Name = pr_name r, p_Type = pr_type r,
     p_Config = json_dec E (pr_config_json r), p_Priority = pr_priority r,
     p_CallsPerDay = pr_calls_per_day r, p_ScheduleCron = pr_schedule_cron r,
     p_Enabled = (pr_enabled r \<noteq> 0),
     p_CreatedAt = parse_or_zero (pr_created_at r),
     p_UpdatedAt = parse_or_zero (pr_updated_at r)\<rparr>"

text \<open>
  The INSERT ... ON CONFLICT(name) DO UPDATE statement. An insert takes a fresh id and sets
  the connection's last insert rowid; an update keeps the id and the creation time and leaves
  the last insert rowid as it was.
\<close>

definition update_row :: "string \<Rightarrow> string \<Rightarrow> provider \<Rightarrow> provider_row \<Rightarrow> provider_row" where
  "update_row now cfg p r =
     r\<lparr>pr_type := p_Type p, pr_config_json := cfg, pr_priority := p_Priority p,
       pr_calls_per_day := p_CallsPerDay p, pr_schedule_cron := p_ScheduleCron p,
       pr_enabled := boolToInt (p_Enabled p), pr_updated_at := now\<rparr>"

definition update_named ::
    "string \<Rightarrow> string \<Rightarrow> provider \<Rightarrow> provider_row list \<Rightarrow> provider_row list" where
  "update_named now cfg p rs = map (\<lambda>r. if pr_name r = p_Name p then update_row now cfg p r else r) rs"

definition upsert_row :: "engine \<Rightarrow> string \<Rightarrow> string \<Rightarrow> provider \<Rightarrow> db \<Rightarrow> db" where
  "upsert_row E now cfg p d =
     (if p_Name p \<in> pr_name ` set (providers d)
      then d\<lparr>providers := update_named now cfg p (providers d)\<rparr>
      else let i = seq_providers d + 1 + int (id_gap E (stmts d))
           in d\<lparr>providers := providers d @
                  [\<lparr>pr_id = i, pr_name = p_Name p, pr_type = p_Type p, pr_config_json = cfg,
                    pr_priority = p_Priority p, pr_calls_per_day = p_CallsPerDay p,
                    pr_schedule_cron = p_ScheduleCron p, pr_enabled = boolToInt (p_Enabled p),
                    pr_created_at = now, pr_updated_at = now\<rparr>],
                seq_providers := i, last_rowid := i\<rparr>)"

text \<open>The row with a given name, and \<open>SELECT id FROM providers WHERE name=?\<close>.\<close>

definition provider_by_name :: "string \<Rightarrow> db \<Rightarrow> provider_row option" where
  "provider_by_name n d = find (\<lambda>r. pr_name r = n) (providers d)"

definition select_id :: "string \<Rightarrow> int dbm" where
  "select_id n d =
     (case provider_by_name n d of None \<Rightarrow> (Inl NoRows, d) | Some r \<Rightarrow> (Inr (pr_id r), d))"

definition UpsertProvider :: "engine \<Rightarrow> time \<Rightarrow> provider \<Rightarrow> int dbm" where
  "UpsertProvider E now p d =
     (let cfg = (case json_enc E (p_Config p) of Some j \<Rightarrow> j | None \<Rightarrow> ''{}'');
          ts = fmt_rfc3339 now
      in case stmt E (\<lambda>d. (Inr (), upsert_row E ts cfg p d)) d of
           (Inl e, d1) \<Rightarrow> (Inl e, d1)
         | (Inr _, d1) \<Rightarrow>
             let i = last_rowid d1
             in if i = 0 then stmt E (select_id (p_Name p)) d1 else (Inr i, d1))"

definition ListProviders :: "engine \<Rightarrow> provider list dbm" where
  "ListProviders E = stmt E (\<lambda>d.
     (Inr (map (row_provider E)
        (sort_key (\<lambda>r. - sint (pr_priority r)) (sort_key pr_name (providers d)))), d))"

definition GetProviderByName :: "engine \<Rightarrow> string \<Rightarrow> provider dbm" where
  "GetProviderByName E n = stmt E (\<lambda>d.
     (case provider_by_name n d of None \<Rightarrow> (Inl NoRows, d) | Some r \<Rightarrow> (Inr (row_provider E r), d)))"

section \<open>Readings\<close>

definition reading_of_row :: "reading_row \<Rightarrow> reading" where
  "reading_of_row r = \<lparr>r_ID = rr_id r, r_ProviderID = rr_provider_id r, r_Base = rr_base r,
     r_Quote = rr_quote r, r_Rate = rr_rate r, r_FetchedAt = parse_or_zero (rr_fetched_at r),
     r_ProviderTS = (case rr_provider_ts r of Some s \<Rightarrow> s | None \<Rightarrow> [])\<rparr>"

text \<open>A NaN is stored as NULL and refused by NOT NULL; the provider must exist.\<close>

definition insert_row :: "engine \<Rightarrow> reading \<Rightarrow> unit dbm" where
  "insert_row E r d =
     (if r_Rate r = NaN then (Inl NotNullViolation, d)
      else if r_ProviderID r \<notin> pr_id ` set (providers d) then (Inl ForeignKeyViolation, d)
      else let i = seq_readings d + 1 + int (id_gap E (stmts d))
           in (Inr (), d\<lparr>readings := readings d @
                 [\<lparr>rr_id = i, rr_provider_id = r_ProviderID r, rr_base = r_Base r,
                   rr_quote = r_Quote r, rr_rate = r_Rate r,
                   rr_fetched_at = fmt_rfc3339 (r_FetchedAt r),
                   rr_provider_ts = nullableStr (r_ProviderTS r)\<rparr>],
               seq_readings := i, last_rowid := i\<rparr>))"

definition InsertReading :: "engine \<Rightarrow> reading \<Rightarrow> unit dbm" where
  "InsertReading E r = stmt E (insert_row E r)"

text \<open>
  The inner query: the newest \<open>fetched_at\<close> per provider among the rows of the quote that are
  not older than \<open>since\<close>; the outer one: all rows of the quote with that provider and time.
\<close>

definition fresh_rows :: "string \<Rightarrow> string \<Rightarrow> db \<Rightarrow> reading_row list" where
  "fresh_rows quote since d = filter (\<lambda>r. rr_quote r = quote \<and> since \<le> rr_fetched_at r) (readings d)"

definition max_at :: "reading_row list \<Rightarrow> int \<Rightarrow> string option" where
  "max_at rs p =
     (case map rr_fetched_at (filter (\<lambda>r. rr_provider_id r = p) rs) of
        [] \<Rightarrow> None
      | t # ts \<Rightarrow> Some (fold max ts t))"

definition latest_rows :: "string \<Rightarrow> string \<Rightarrow> db \<Rightarrow> reading_row list" where
  "latest_rows quote since d =
     (let fresh = fresh_rows quote since d
      in filter (\<lambda>r. rr_quote r = quote
                  \<and> max_at fresh (rr_provider_id r) = Some (rr_fetched_at r)) (readings d))"

definition LatestReadingsPerProvider ::
    "engine \<Rightarrow> string \<Rightarrow> time \<Rightarrow> (reading list \<times> int list) dbm" where
  "LatestReadingsPerProvider E quote since = stmt E (\<lambda>d.
     let rows = scan E (stmts d) (latest_rows (to_upper quote) (fmt_rfc3339 since) d);
         rs = map reading_of_row rows
     in (Inr (rs, map r_ProviderID rs), d))"

definition LatestReadingAt :: "engine \<Rightarrow> time option dbm" where
  "LatestReadingAt E = stmt E (\<lambda>d.
     case map rr_fetched_at (readings d) of
       [] \<Rightarrow> (Inr None, d)
     | t # ts \<Rightarrow> (case parse_rfc3339 (fold max ts t) of
                    None \<Rightarrow> (Inl BadTime, d) | Some u \<Rightarrow> (Inr (Some u), d)))"

definition PruneOlderThan :: "engine \<Rightarrow> time \<Rightarrow> int dbm" where
  "PruneOlderThan E cutoff = stmt E (\<lambda>d.
     let c = fmt_rfc3339 cutoff; keep = filter (\<lambda>r. \<not> rr_fetched_at r < c) (readings d)
     in (Inr (int (length (readings d)) - int (length keep)), d\<lparr>readings := keep\<rparr>))"

section \<open>Usage\<close>

definition IncrementUsage :: "engine \<Rightarrow> int \<Rightarrow> time \<Rightarrow> unit dbm" where
  "IncrementUsage E p day = stmt E (\<lambda>d.
     let k = (p, fmt_day day)
     in case map_get (usage d) k of
          Some n \<Rightarrow> (Inr (), d\<lparr>usage := map_set k (n + 1) (usage d)\<rparr>)
        | None \<Rightarrow> (Inr (), d\<lparr>usage := map_set k 1 (usage d),
                            last_rowid := int (map_len (usage d)) + 1\<rparr>))"

definition UsageToday :: "engine \<Rightarrow> int \<Rightarrow> time \<Rightarrow> int dbm" where
  "UsageToday E p day = stmt E (\<lambda>d.
     (case map_get (usage d) (p, fmt_day day) of Some n \<Rightarrow> (Inr n, d) | None \<Rightarrow> (Inr 0, d)))"

section \<open>History\<close>

text \<open>The loop state of \<open>downsample\<close>: the open bucket, its sum and its count.\<close>

record bucket =
  bk_start :: time
  bk_sum :: f64
  bk_n :: f64
  bk_out :: "history_point list"

definition flush :: "bucket \<Rightarrow> bucket" where
  "flush b =
     b\<lparr>bk_out := (if flt (Fin 0) (bk_n b)
                   then bk_out b @ [\<lparr>hp_FetchedAt = bk_start b, hp_Rate = fdiv (bk_sum b) (bk_n b)\<rparr>]
                   else bk_out b),
       bk_sum := Fin 0, bk_n := Fin 0\<rparr>"

definition downsample_step :: "duration \<Rightarrow> history_point \<Rightarrow> bucket \<Rightarrow> bucket" where
  "downsample_step step p b =
     (let start = time_truncate (hp_FetchedAt p) step;
          b1 = (if start \<noteq> bk_start b then (flush b)\<lparr>bk_start := start\<rparr> else b)
      in b1\<lparr>bk_sum := fadd (bk_sum b1) (hp_Rate p), bk_n := fadd (bk_n b1) (Fin 1)\<rparr>)"

definition downsample :: "history_point list \<Rightarrow> duration \<Rightarrow> history_point list" where
  "downsample pts step =
     bk_out (flush (fold (downsample_step step) pts
       \<lparr>bk_start = zero_time, bk_sum = Fin 0, bk_n = Fin 0, bk_out = []\<rparr>))"

definition history_rows :: "engine \<Rightarrow> string \<Rightarrow> string \<Rightarrow> string \<Rightarrow> db \<Rightarrow> reading_row list" where
  "history_rows E quote lo hi d =
     sort_key rr_fetched_at (scan E (stmts d)
       (filter (\<lambda>r. rr_quote r = quote \<and> lo \<le> rr_fetched_at r \<and> rr_fetched_at r \<le> hi) (readings d)))"

definition History :: "engine \<Rightarrow> string \<Rightarrow> time \<Rightarrow> time \<Rightarrow> duration \<Rightarrow> history_point list dbm" where
  "History E quote start finish step = stmt E (\<lambda>d.
     let raw = map (\<lambda>r. \<lparr>hp_FetchedAt = parse_or_zero (rr_fetched_at r), hp_Rate = rr_rate r\<rparr>)
                 (history_rows E (to_upper quote) (fmt_rfc3339 start) (fmt_rfc3339 finish) d)
     in if sint step \<le> 0 \<or> length raw = 0 then (Inr raw, d) else (Inr (downsample raw step), d))"

section \<open>Statements and their effect on the tables\<close>

lemma stmt_split:
  "P (stmt E body d) \<longleftrightarrow>
     (\<forall>e. fault E (stmts d) = Some e \<longrightarrow> P (Inl e, d\<lparr>stmts := Suc (stmts d)\<rparr>))
   \<and> (fault E (stmts d) = None \<longrightarrow> P (body (d\<lparr>stmts := Suc (stmts d)\<rparr>)))"
  by (simp add: stmt_def Let_def split: option.split)

lemma stmt_split_asm:
  "P (stmt E body d) \<longleftrightarrow> \<not>
     ((\<exists>e. fault E (stmts d) = Some e \<and> \<not> P (Inl e, d\<lparr>stmts := Suc (stmts d)\<rparr>))
    \<or> (fault E (stmts d) = None \<and> \<not> P (body (d\<lparr>stmts := Suc (stmts d)\<rparr>))))"
  by (subst stmt_split) blast

lemmas stmt_splits = stmt_split stmt_split_asm

lemma stmt_ok [go_simps]:
  "fault E (stmts d) = None \<Longrightarrow> stmt E body d = body (d\<lparr>stmts := Suc (stmts d)\<rparr>)"
  by (simp add: stmt_def)

lemma stmt_fault [go_simps]:
  "fault E (stmts d) = Some e \<Longrightarrow> stmt E body d = (Inl e, d\<lparr>stmts := Suc (stmts d)\<rparr>)"
  by (simp add: stmt_def)

text \<open>An engine whose statements never fail and whose scans return rows in table order.\<close>

definition plain_engine :: engine where
  "plain_engine = \<lparr>fault = (\<lambda>_. None), scan = (\<lambda>_ rs. rs), id_gap = (\<lambda>_. 0),
     json_enc = (\<lambda>_. Some ''{}''), json_dec = (\<lambda>_. Some [])\<rparr>"

lemma plain_engine_simps [simp]:
  "fault plain_engine n = None" "scan plain_engine n rs = rs" "id_gap plain_engine n = 0"
  "json_enc plain_engine c = Some ''{}''" "engine_ok plain_engine"
  by (simp_all add: plain_engine_def engine_ok_def)

definition empty_db :: db where
  "empty_db = \<lparr>providers = [], readings = [], usage = [], seq_providers = 0, seq_readings = 0,
     last_rowid = 1, stmts = 0\<rparr>"

text \<open>The table constraints, and the uniqueness the AUTOINCREMENT sequences give.\<close>

definition providers_ok :: "db \<Rightarrow> bool" where
  "providers_ok d \<longleftrightarrow> distinct (map pr_id (providers d)) \<and> distinct (map pr_name (providers d))
     \<and> (\<forall>r \<in> set (providers d). 0 < pr_id r \<and> pr_id r \<le> seq_providers d) \<and> 0 \<le> seq_providers d"

definition readings_ok :: "db \<Rightarrow> bool" where
  "readings_ok d \<longleftrightarrow> distinct (map rr_id (readings d)) \<and> 0 \<le> seq_readings d
     \<and> (\<forall>r \<in> set (readings d). 0 < rr_id r \<and> rr_id r \<le> seq_readings d \<and> rr_rate r \<noteq> NaN
          \<and> rr_provider_id r \<in> pr_id ` set (providers d))"

definition usage_ok :: "db \<Rightarrow> bool" where
  "usage_ok d \<longleftrightarrow> map_wf (usage d) \<and> (\<forall>k n. map_get (usage d) k = Some n \<longrightarrow> 1 \<le> n)"

definition db_ok :: "db \<Rightarrow> bool" where
  "db_ok d \<longleftrightarrow> providers_ok d \<and> readings_ok d \<and> usage_ok d"

lemmas db_ok_defs = db_ok_def providers_ok_def readings_ok_def usage_ok_def

lemma db_ok_empty: "db_ok empty_db"
  by (simp add: db_ok_defs empty_db_def gm.wf_empty) (simp add: map_get_def)

lemma db_ok_stmts [simp]: "db_ok (d\<lparr>stmts := n\<rparr>) = db_ok d"
  by (simp add: db_ok_defs)

lemma update_row_keeps [simp]:
  "pr_id (update_row now cfg p r) = pr_id r" "pr_name (update_row now cfg p r) = pr_name r"
  "pr_created_at (update_row now cfg p r) = pr_created_at r"
  by (simp_all add: update_row_def)

lemma update_named_keeps [simp]:
  "map pr_id (update_named now cfg p rs) = map pr_id rs"
  "map pr_name (update_named now cfg p rs) = map pr_name rs"
  by (simp_all add: update_named_def)

lemma update_named_image [simp]:
  "pr_id ` set (update_named now cfg p rs) = pr_id ` set rs"
  "pr_name ` set (update_named now cfg p rs) = pr_name ` set rs"
  by (simp_all only: list.set_map [symmetric] update_named_keeps)

lemma db_ok_upsert_row:
  assumes "db_ok d"
  shows "db_ok (upsert_row E now cfg p d)"
proof (cases "p_Name p \<in> pr_name ` set (providers d)")
  case True
  have "\<forall>r \<in> set (update_named now cfg p (providers d)). 0 < pr_id r \<and> pr_id r \<le> seq_providers d"
    using assms by (auto simp: update_named_def db_ok_defs)
  with True assms show ?thesis
    by (simp add: db_ok_defs upsert_row_def)
next
  case False
  with assms show ?thesis
    by (fastforce simp: db_ok_defs upsert_row_def Let_def)
qed

lemma db_ok_UpsertProvider: "db_ok d \<Longrightarrow> db_ok (snd (UpsertProvider E now p d))"
  by (auto simp: UpsertProvider_def Let_def select_id_def db_ok_upsert_row
      split: stmt_splits sum.splits prod.splits option.splits)

lemma db_ok_insert_row: "db_ok d \<Longrightarrow> db_ok (snd (insert_row E r d))"
  by (auto simp: insert_row_def Let_def db_ok_defs)

lemma db_ok_InsertReading: "db_ok d \<Longrightarrow> db_ok (snd (InsertReading E r d))"
  by (auto simp: InsertReading_def db_ok_insert_row split: stmt_split)

lemma db_ok_PruneOlderThan: "db_ok d \<Longrightarrow> db_ok (snd (PruneOlderThan E c d))"
  by (auto simp: PruneOlderThan_def Let_def db_ok_defs distinct_map_filter split: stmt_split)

lemma db_ok_set_usage:
  assumes "db_ok d" and "1 \<le> n"
  shows "db_ok (d\<lparr>usage := map_set k n (usage d)\<rparr>)"
    and "db_ok (d\<lparr>usage := map_set k n (usage d), last_rowid := i\<rparr>)"
  using assms by (auto simp: db_ok_defs gm.get_put gm.wf_put)

lemma db_ok_IncrementUsage:
  assumes "db_ok d"
  shows "db_ok (snd (IncrementUsage E p t d))"
proof -
  have ge: "1 \<le> n" if "map_get (usage d) k = Some n" for k n
    using assms that by (cases k) (simp add: db_ok_def usage_ok_def)
  let ?d = "d\<lparr>stmts := Suc (stmts d)\<rparr>"
  show ?thesis
  proof (cases "map_get (usage d) (p, fmt_day t)")
    case None
    with assms db_ok_set_usage [of ?d 1] show ?thesis
      by (simp add: IncrementUsage_def split: stmt_split)
  next
    case (Some n)
    with assms db_ok_set_usage(1) [of ?d "n + 1"] ge [OF Some] show ?thesis
      by (simp add: IncrementUsage_def split: stmt_split)
  qed
qed

text \<open>Queries change nothing but the statement number.\<close>

definition same_tables :: "db \<Rightarrow> db \<Rightarrow> bool" where
  "same_tables d d' \<longleftrightarrow> d' = d\<lparr>stmts := stmts d'\<rparr>"

lemma same_tablesD:
  assumes "same_tables d d'"
  shows "providers d' = providers d" "readings d' = readings d" "usage d' = usage d"
    "last_rowid d' = last_rowid d" "db_ok d' = db_ok d"
proof -
  obtain n where d': "d' = d\<lparr>stmts := n\<rparr>" using assms by (simp add: same_tables_def)
  show "providers d' = providers d" "readings d' = readings d" "usage d' = usage d"
    "last_rowid d' = last_rowid d" "db_ok d' = db_ok d"
    unfolding d' by simp_all
qed

lemma same_tables_refl [simp]: "same_tables d d" "same_tables d (d\<lparr>stmts := n\<rparr>)"
  by (simp_all add: same_tables_def)

lemma same_tables_trans:
  assumes "same_tables a b" and "same_tables b c"
  shows "same_tables a c"
proof -
  from assms(1) obtain n where b: "b = a\<lparr>stmts := n\<rparr>" unfolding same_tables_def by blast
  from assms(2) obtain m where c: "c = b\<lparr>stmts := m\<rparr>" unfolding same_tables_def by blast
  show ?thesis unfolding b c by simp
qed

lemma same_tables_queries:
  "same_tables d (snd (ListProviders E d))"
  "same_tables d (snd (GetProviderByName E nm d))"
  "same_tables d (snd (LatestReadingsPerProvider E q t d))"
  "same_tables d (snd (LatestReadingAt E d))"
  "same_tables d (snd (UsageToday E p t d))"
  "same_tables d (snd (History E q t u st d))"
  by (auto simp: ListProviders_def GetProviderByName_def LatestReadingsPerProvider_def
      LatestReadingAt_def UsageToday_def History_def Let_def
      split: stmt_split option.split list.split)

text \<open>What a query leaves unchanged, as rewrite rules.\<close>

lemmas query_frames [simp] =
  same_tables_queries [THEN same_tablesD(1)] same_tables_queries [THEN same_tablesD(2)]
  same_tables_queries [THEN same_tablesD(3)] same_tables_queries [THEN same_tablesD(4)]
  same_tables_queries [THEN same_tablesD(5)]

subsection \<open>Any sequence of operations\<close>

datatype db_op =
    OpUpsert time provider
  | OpInsert reading
  | OpPrune time
  | OpIncrement int time
  | OpList
  | OpGet string
  | OpLatest string time
  | OpLatestAt
  | OpUsage int time
  | OpHistory string time time duration

primrec exec_op :: "engine \<Rightarrow> db_op \<Rightarrow> db \<Rightarrow> db" where
  "exec_op E (OpUpsert now p) d = snd (UpsertProvider E now p d)"
| "exec_op E (OpInsert r) d = snd (InsertReading E r d)"
| "exec_op E (OpPrune c) d = snd (PruneOlderThan E c d)"
| "exec_op E (OpIncrement p t) d = snd (IncrementUsage E p t d)"
| "exec_op E OpList d = snd (ListProviders E d)"
| "exec_op E (OpGet n) d = snd (GetProviderByName E n d)"
| "exec_op E (OpLatest q t) d = snd (LatestReadingsPerProvider E q t d)"
| "exec_op E OpLatestAt d = snd (LatestReadingAt E d)"
| "exec_op E (OpUsage p t) d = snd (UsageToday E p t d)"
| "exec_op E (OpHistory q a b st) d = snd (History E q a b st d)"

lemma db_ok_exec_op: "db_ok d \<Longrightarrow> db_ok (exec_op E x d)"
  by (cases x) (auto simp: db_ok_UpsertProvider db_ok_InsertReading db_ok_PruneOlderThan
      db_ok_IncrementUsage)

lemma db_ok_run: "db_ok d \<Longrightarrow> db_ok (fold (exec_op E) ops d)"
  by (induction ops arbitrary: d) (auto intro: db_ok_exec_op)

text \<open>
  The times in the tables are formatted times, as long as the code stores times of the years
  1 to 9999.
\<close>

definition stamped :: "db \<Rightarrow> bool" where
  "stamped d \<longleftrightarrow> (\<forall>r \<in> set (readings d). \<exists>t. fmt_range t \<and> rr_fetched_at r = fmt_rfc3339 t)"

definition op_in_range :: "db_op \<Rightarrow> bool" where
  "op_in_range x = (case x of OpInsert r \<Rightarrow> fmt_range (r_FetchedAt r) | _ \<Rightarrow> True)"

lemma stamped_same_tables: "same_tables d d' \<Longrightarrow> stamped d' = stamped d"
  by (simp add: stamped_def same_tablesD)

lemma readings_UpsertProvider [simp]: "readings (snd (UpsertProvider E now p d)) = readings d"
  by (auto simp: UpsertProvider_def upsert_row_def select_id_def Let_def
      split: stmt_splits sum.splits prod.splits option.splits if_splits)

lemma readings_IncrementUsage [simp]: "readings (snd (IncrementUsage E p t d)) = readings d"
  by (auto simp: IncrementUsage_def Let_def split: stmt_split option.splits)

lemma stamped_exec_op: "stamped d \<Longrightarrow> op_in_range x \<Longrightarrow> stamped (exec_op E x d)"
  by (cases x) (auto simp: op_in_range_def stamped_def InsertReading_def insert_row_def
      PruneOlderThan_def Let_def split: stmt_split)

text \<open>
  C6: the store keeps its tables consistent. Whatever sequence of operations is run on a
  fresh database, with statements failing at any point, provider ids and names stay unique,
  every reading belongs to a stored provider and is not NaN, ids never exceed the sequence
  they come from, and every usage counter is at least one.
\<close>

theorem store_invariant: "db_ok (fold (exec_op E) ops empty_db)"
  by (rule db_ok_run [OF db_ok_empty])

section \<open>The newest readings\<close>

text \<open>The time of a stored row.\<close>

definition row_time :: "reading_row \<Rightarrow> time" where
  "row_time r = parse_or_zero (rr_fetched_at r)"

lemma stamped_row:
  assumes "stamped d" and "r \<in> set (readings d)"
  shows "fmt_range (row_time r)" and "fmt_rfc3339 (row_time r) = rr_fetched_at r"
    and "to_second (row_time r) = row_time r"
proof -
  obtain t where "fmt_range t" "rr_fetched_at r = fmt_rfc3339 t"
    using assms by (auto simp: stamped_def)
  then show "fmt_range (row_time r)" "fmt_rfc3339 (row_time r) = rr_fetched_at r"
    "to_second (row_time r) = row_time r"
    by (simp_all add: row_time_def parse_or_zero_fmt to_second_range)
qed

lemma stamped_row_le:
  assumes "stamped d" "r \<in> set (readings d)" "r' \<in> set (readings d)"
  shows "rr_fetched_at r \<le> rr_fetched_at r' \<longleftrightarrow> row_time r \<le> row_time r'"
  using stamped_row [OF assms(1,2)] stamped_row [OF assms(1,3)] fmt_le_iff by metis

lemma stamped_row_ge:
  assumes "stamped d" "r \<in> set (readings d)" "fmt_range t"
  shows "fmt_rfc3339 t \<le> rr_fetched_at r \<longleftrightarrow> to_second t \<le> row_time r"
    and "rr_fetched_at r \<le> fmt_rfc3339 t \<longleftrightarrow> row_time r \<le> to_second t"
    and "rr_fetched_at r < fmt_rfc3339 t \<longleftrightarrow> row_time r < to_second t"
  using stamped_row [OF assms(1,2)] assms(3) fmt_le_iff fmt_less_iff by metis+

lemma max_at_Some:
  "max_at rs p = Some m \<longleftrightarrow>
     (\<exists>r \<in> set rs. rr_provider_id r = p \<and> rr_fetched_at r = m)
   \<and> (\<forall>r \<in> set rs. rr_provider_id r = p \<longrightarrow> rr_fetched_at r \<le> m)"
proof (cases "map rr_fetched_at (filter (\<lambda>r. rr_provider_id r = p) rs)")
  case Nil
  then show ?thesis by (auto simp: max_at_def filter_empty_conv)
next
  case (Cons t ts)
  have s: "set (t # ts) = rr_fetched_at ` {r \<in> set rs. rr_provider_id r = p}"
    by (simp flip: Cons)
  have "max_at rs p = Some (Max (set (t # ts)))"
    using Cons by (simp add: max_at_def Max.set_eq_fold del: list.set)
  then have "max_at rs p = Some m \<longleftrightarrow> m \<in> set (t # ts) \<and> (\<forall>x \<in> set (t # ts). x \<le> m)"
    by (metis List.finite_set Max_eq_iff list.distinct(1) option.inject set_empty)
  then show ?thesis unfolding s by auto
qed

lemma latest_rows_text:
  "latest_rows q s d = filter (\<lambda>r. rr_quote r = q \<and> s \<le> rr_fetched_at r
     \<and> (\<forall>r' \<in> set (readings d). rr_quote r' = q \<and> rr_provider_id r' = rr_provider_id r
           \<longrightarrow> rr_fetched_at r' \<le> rr_fetched_at r)) (readings d)"
  unfolding latest_rows_def Let_def
  by (rule filter_cong) (auto simp: max_at_Some fresh_rows_def intro: order_trans)

text \<open>A row is newest when no row of its provider and quote has a later time.\<close>

definition newest_row :: "db \<Rightarrow> reading_row \<Rightarrow> bool" where
  "newest_row d r \<longleftrightarrow> (\<forall>r' \<in> set (readings d).
     rr_quote r' = rr_quote r \<and> rr_provider_id r' = rr_provider_id r \<longrightarrow> row_time r' \<le> row_time r)"

lemma latest_rows_time:
  assumes "stamped d" and "fmt_range since"
  shows "latest_rows q (fmt_rfc3339 since) d = filter (\<lambda>r. rr_quote r = q
     \<and> to_second since \<le> row_time r \<and> newest_row d r) (readings d)"
  unfolding latest_rows_text newest_row_def
  by (rule filter_cong) (use assms in \<open>auto simp: stamped_row_le stamped_row_ge\<close>)

lemma LatestReadings_cases:
  assumes "LatestReadingsPerProvider E q since d = (Inr (rs, ids), d')" and "engine_ok E"
  shows "same_tables d d'" and "ids = map r_ProviderID rs"
    and "mset rs = mset (map reading_of_row (latest_rows (to_upper q) (fmt_rfc3339 since) d))"
proof -
  show "same_tables d d'" using same_tables_queries(3) [of d E q since] assms(1) by simp
  from assms show "ids = map r_ProviderID rs"
    by (auto simp: LatestReadingsPerProvider_def Let_def split: stmt_split_asm)
  have l: "latest_rows q s (d\<lparr>stmts := n\<rparr>) = latest_rows q s d" for q s n
    by (simp add: latest_rows_def fresh_rows_def)
  obtain n where "rs = map reading_of_row
      (scan E n (latest_rows (to_upper q) (fmt_rfc3339 since) d))"
    using assms(1) by (auto simp: LatestReadingsPerProvider_def Let_def l split: stmt_split_asm)
  then show "mset rs = mset (map reading_of_row (latest_rows (to_upper q) (fmt_rfc3339 since) d))"
    using assms(2) by (simp add: engine_ok_def)
qed

text \<open>
  \<open>LatestReadingsPerProvider\<close> returns, each exactly once, the stored readings of the quote
  that are not older than \<open>since\<close> (to the second) and than which their provider has none newer
  for that quote; it changes no table. The SQL compares RFC 3339 text; the statement is about
  the times the text stands for.
\<close>

theorem latest_readings_correct:
  assumes "engine_ok E" and "stamped d" and "fmt_range since"
    and "LatestReadingsPerProvider E q since d = (Inr (rs, ids), d')"
  shows "mset rs = mset (map reading_of_row (filter (\<lambda>r. rr_quote r = to_upper q
      \<and> to_second since \<le> row_time r \<and> newest_row d r) (readings d)))
    \<and> ids = map r_ProviderID rs \<and> same_tables d d'"
  using LatestReadings_cases [OF assms(4,1)] latest_rows_time [OF assms(2,3)] by simp

text \<open>A small database for the instances: two providers, three readings of one quote.\<close>

definition sample_provider :: "int \<Rightarrow> string \<Rightarrow> provider_row" where
  "sample_provider i n = \<lparr>pr_id = i, pr_name = n, pr_type = n, pr_config_json = ''{}'',
     pr_priority = 1, pr_calls_per_day = Some 1000, pr_schedule_cron = '''', pr_enabled = 1,
     pr_created_at = fmt_rfc3339 0, pr_updated_at = fmt_rfc3339 0\<rparr>"

definition sample_row :: "int \<Rightarrow> int \<Rightarrow> rat \<Rightarrow> int \<Rightarrow> reading_row" where
  "sample_row i p q sec = \<lparr>rr_id = i, rr_provider_id = p, rr_base = ''USD'', rr_quote = ''EUR'',
     rr_rate = Fin q, rr_fetched_at = fmt_rfc3339 (sec * ns_per_sec), rr_provider_ts = None\<rparr>"

definition sample_db :: db where
  "sample_db = \<lparr>providers = [sample_provider 1 ''yahoo'', sample_provider 2 ''frankfurter''],
     readings = [sample_row 1 1 4 10, sample_row 2 1 5 20, sample_row 3 2 6 15],
     usage = [], seq_providers = 2, seq_readings = 3, last_rowid = 0, stmts = 0\<rparr>"

lemma fmt_range_small [simp]:
  "0 \<le> k \<Longrightarrow> k < 1000000 \<Longrightarrow> fmt_range (k * ns_per_sec)" "fmt_range 0"
  by (simp_all add: fmt_range_def ns_per_sec_def)

lemma to_second_mult [simp]: "to_second (k * ns_per_sec) = k * ns_per_sec" "to_second 0 = 0"
  by (simp_all add: to_second_def)

lemma sample_row_simps [simp]:
  "rr_provider_id (sample_row i p q k) = p" "rr_quote (sample_row i p q k) = ''EUR''"
  "rr_rate (sample_row i p q k) = Fin q" "rr_id (sample_row i p q k) = i"
  "rr_fetched_at (sample_row i p q k) = fmt_rfc3339 (k * ns_per_sec)"
  "0 \<le> k \<Longrightarrow> k < 1000000 \<Longrightarrow> row_time (sample_row i p q k) = k * ns_per_sec"
  by (simp_all add: sample_row_def row_time_def parse_or_zero_fmt)

lemma sample_db_simps [simp]:
  "readings sample_db = [sample_row 1 1 4 10, sample_row 2 1 5 20, sample_row 3 2 6 15]"
  "providers sample_db = [sample_provider 1 ''yahoo'', sample_provider 2 ''frankfurter'']"
  "last_rowid sample_db = 0" "usage sample_db = []" "stmts sample_db = 0"
  by (simp_all add: sample_db_def)

lemma sample_row_stamped:
  "0 \<le> k \<Longrightarrow> k < 1000000 \<Longrightarrow> \<exists>t. fmt_range t \<and> rr_fetched_at (sample_row i p q k) = fmt_rfc3339 t"
  by (intro exI [of _ "k * ns_per_sec"]) simp

lemma sample_db_stamped: "stamped sample_db"
  by (simp add: stamped_def sample_row_stamped del: sample_row_simps(5))

lemma sample_db_ok: "db_ok sample_db"
  by (simp add: db_ok_defs sample_db_def sample_provider_def map_defs)

lemma upper_EUR [simp]: "to_upper ''EUR'' = ''EUR''" "to_upper ''eur'' = ''EUR''" "to_upper ''USD'' = ''USD''"
  by code_simp+

lemma ns_per_sec_pos [simp]: "0 < ns_per_sec" "ns_per_sec \<noteq> 0"
  by (simp_all add: ns_per_sec_def)

theorem latest_readings_correct_witness:
  "\<exists>rs ids d'. LatestReadingsPerProvider plain_engine ''eur'' (12 * ns_per_sec) sample_db = (Inr (rs, ids), d')
     \<and> mset rs = mset [reading_of_row (sample_row 2 1 5 20), reading_of_row (sample_row 3 2 6 15)]"
proof -
  obtain rs ids d' where l:
    "LatestReadingsPerProvider plain_engine ''eur'' (12 * ns_per_sec) sample_db = (Inr (rs, ids), d')"
    by (simp add: LatestReadingsPerProvider_def go_simps Let_def)
  have r: "fmt_range (12 * ns_per_sec)" by simp
  show ?thesis
    using latest_readings_correct [OF plain_engine_simps(5) sample_db_stamped r l] l
    by (simp add: newest_row_def)
qed

section \<open>Providers: identity under upserts\<close>

lemma provider_by_name_Some:
  assumes "db_ok d" and "r \<in> set (providers d)"
  shows "provider_by_name (pr_name r) d = Some r"
  using assms find_unique_key [of pr_name "providers d" r] by (simp add: provider_by_name_def db_ok_defs)

lemma provider_by_name_None: "provider_by_name n d = None \<longleftrightarrow> n \<notin> pr_name ` set (providers d)"
  by (simp add: provider_by_name_def find_key_None)

text \<open>The statements of an upsert that meets no driver error.\<close>

lemma UpsertProvider_ok:
  assumes "fault E (stmts d) = None" and "fault E (Suc (stmts d)) = None"
    and d1_def: "d1 = upsert_row E (fmt_rfc3339 now)
      (case json_enc E (p_Config p) of Some j \<Rightarrow> j | None \<Rightarrow> ''{}'') p (d\<lparr>stmts := Suc (stmts d)\<rparr>)"
  shows "UpsertProvider E now p d =
     (if last_rowid d1 = 0 then select_id (p_Name p) (d1\<lparr>stmts := Suc (stmts d1)\<rparr>)
      else (Inr (last_rowid d1), d1))"
proof -
  have "stmts d1 = Suc (stmts d)" by (simp add: d1_def upsert_row_def Let_def)
  with assms show ?thesis by (simp add: UpsertProvider_def go_simps Let_def d1_def)
qed

lemma upsert_row_providers:
  "providers (upsert_row E ts cfg p d) =
     (if p_Name p \<in> pr_name ` set (providers d) then update_named ts cfg p (providers d)
      else providers d @ [\<lparr>pr_id = seq_providers d + 1 + int (id_gap E (stmts d)), pr_name = p_Name p,
        pr_type = p_Type p, pr_config_json = cfg, pr_priority = p_Priority p,
        pr_calls_per_day = p_CallsPerDay p, pr_schedule_cron = p_ScheduleCron p,
        pr_enabled = boolToInt (p_Enabled p), pr_created_at = ts, pr_updated_at = ts\<rparr>])"
  "last_rowid (upsert_row E ts cfg p d) =
     (if p_Name p \<in> pr_name ` set (providers d) then last_rowid d
      else seq_providers d + 1 + int (id_gap E (stmts d)))"
  by (simp_all add: upsert_row_def Let_def)

text \<open>The row an upsert leaves under the provider's name.\<close>

definition holds_provider :: "provider \<Rightarrow> provider_row \<Rightarrow> bool" where
  "holds_provider p r \<longleftrightarrow> pr_name r = p_Name p \<and> pr_type r = p_Type p \<and> pr_priority r = p_Priority p
     \<and> pr_calls_per_day r = p_CallsPerDay p \<and> pr_schedule_cron r = p_ScheduleCron p
     \<and> pr_enabled r = boolToInt (p_Enabled p)"

lemma upsert_row_named:
  assumes "db_ok d"
  obtains r where "r \<in> set (providers (upsert_row E ts cfg p d))" "holds_provider p r"
proof (cases "p_Name p \<in> pr_name ` set (providers d)")
  case True
  then obtain r where "r \<in> set (providers d)" "pr_name r = p_Name p" by auto
  then have "update_row ts cfg p r \<in> set (providers (upsert_row E ts cfg p d))"
    using True by (force simp: upsert_row_providers update_named_def)
  moreover have "holds_provider p (update_row ts cfg p r)"
    using \<open>pr_name r = p_Name p\<close> by (simp add: holds_provider_def update_row_def)
  ultimately show ?thesis by (rule that)
next
  case False
  then show ?thesis by (intro that) (auto simp: upsert_row_providers holds_provider_def)
qed

text \<open>Ids, names and creation times of the rows that were there are kept, in their order.\<close>

lemma upsert_row_keeps:
  "\<exists>new. map (\<lambda>r. (pr_id r, pr_name r, pr_created_at r)) (providers (upsert_row E ts cfg p d)) =
     map (\<lambda>r. (pr_id r, pr_name r, pr_created_at r)) (providers d) @ new
     \<and> (new = [] \<longleftrightarrow> p_Name p \<in> pr_name ` set (providers d))"
  by (auto simp: upsert_row_providers update_named_def)

text \<open>
  \<open>UpsertProvider\<close> registers a provider under a stable identity. Without a driver error,
  and unless the name is already stored while the connection has inserted a row before, the
  returned id is the id of the row that now holds the provider; rows that were there keep id,
  name and creation time, and a row is added exactly when the name was new.
\<close>

theorem upsert_returns_own_id:
  assumes "db_ok d" and "fault E (stmts d) = None" and "fault E (Suc (stmts d)) = None"
    and "p_Name p \<notin> pr_name ` set (providers d) \<or> last_rowid d = 0"
  shows "\<exists>r d'. UpsertProvider E now p d = (Inr (pr_id r), d') \<and> db_ok d'
     \<and> r \<in> set (providers d') \<and> holds_provider p r
     \<and> (\<exists>new. map (\<lambda>r. (pr_id r, pr_name r, pr_created_at r)) (providers d') =
           map (\<lambda>r. (pr_id r, pr_name r, pr_created_at r)) (providers d) @ new
           \<and> (new = [] \<longleftrightarrow> p_Name p \<in> pr_name ` set (providers d)))"
proof -
  define d0 where "d0 = d\<lparr>stmts := Suc (stmts d)\<rparr>"
  define cfg where "cfg = (case json_enc E (p_Config p) of Some j \<Rightarrow> j | None \<Rightarrow> ''{}'')"
  define d1 where "d1 = upsert_row E (fmt_rfc3339 now) cfg p d0"
  have ok0: "db_ok d0" using assms(1) by (simp add: d0_def)
  then have ok1: "db_ok d1" by (simp add: d1_def db_ok_upsert_row)
  obtain r where r: "r \<in> set (providers d1)" "holds_provider p r"
    using upsert_row_named [OF ok0] d1_def by blast
  have keeps: "\<exists>new. map (\<lambda>r. (pr_id r, pr_name r, pr_created_at r)) (providers d1) =
           map (\<lambda>r. (pr_id r, pr_name r, pr_created_at r)) (providers d) @ new
           \<and> (new = [] \<longleftrightarrow> p_Name p \<in> pr_name ` set (providers d))"
    using upsert_row_keeps [of E "fmt_rfc3339 now" cfg p d0] by (simp add: d1_def d0_def)
  have U: "UpsertProvider E now p d =
      (if last_rowid d1 = 0 then select_id (p_Name p) (d1\<lparr>stmts := Suc (stmts d1)\<rparr>)
       else (Inr (last_rowid d1), d1))"
    by (rule UpsertProvider_ok [OF assms(2,3)]) (simp add: d1_def d0_def cfg_def)
  have named: "provider_by_name (p_Name p) (d1\<lparr>stmts := n\<rparr>) = Some r" for n
    using provider_by_name_Some [of "d1\<lparr>stmts := n\<rparr>" r] ok1 r by (simp add: holds_provider_def)
  have "\<exists>d'. UpsertProvider E now p d = (Inr (pr_id r), d') \<and> (\<exists>n. d' = d1\<lparr>stmts := n\<rparr>)"
  proof (cases "last_rowid d1 = 0")
    case True
    then show ?thesis by (auto simp: U select_id_def named)
  next
    case False
    then have new: "p_Name p \<notin> pr_name ` set (providers d0)"
      using assms(4) by (auto simp: d1_def upsert_row_providers d0_def)
    then have "last_rowid d1 \<in> pr_id ` {x \<in> set (providers d1). pr_name x = p_Name p}"
      by (force simp: d1_def upsert_row_providers)
    then have "last_rowid d1 = pr_id r"
      using named [of "stmts d1"] by (fastforce dest: provider_by_name_Some [OF ok1])
    with False show ?thesis by (intro exI [of _ d1]) (simp add: U, metis db.surjective db.update_convs(7))
  qed
  then show ?thesis using r ok1 keeps by fastforce
qed

text \<open>Provider values for the instances.\<close>

definition sample_config :: "string \<Rightarrow> provider" where
  "sample_config n = \<lparr>p_ID = 0, p_Name = n, p_Type = n, p_Config = None, p_Priority = 3,
     p_CallsPerDay = Some 2000, p_ScheduleCron = '''', p_Enabled = True,
     p_CreatedAt = 0, p_UpdatedAt = 0\<rparr>"

lemma sample_config_Name [simp]: "p_Name (sample_config n) = n"
  by (simp add: sample_config_def)

theorem upsert_returns_own_id_witness:
  "\<exists>d'. UpsertProvider plain_engine 0 (sample_config ''frankfurter'') sample_db = (Inr 2, d')
     \<and> map pr_id (providers d') = [1, 2]"
proof -
  have "\<exists>r d'. UpsertProvider plain_engine 0 (sample_config ''frankfurter'') sample_db = (Inr (pr_id r), d')
     \<and> db_ok d' \<and> r \<in> set (providers d') \<and> holds_provider (sample_config ''frankfurter'') r
     \<and> (\<exists>new. map (\<lambda>r. (pr_id r, pr_name r, pr_created_at r)) (providers d') =
           map (\<lambda>r. (pr_id r, pr_name r, pr_created_at r)) (providers sample_db) @ new
           \<and> (new = [] \<longleftrightarrow> p_Name (sample_config ''frankfurter'') \<in> pr_name ` set (providers sample_db)))"
    by (rule upsert_returns_own_id) (simp_all add: sample_db_ok)
  then obtain r d' where u: "UpsertProvider plain_engine 0 (sample_config ''frankfurter'') sample_db = (Inr (pr_id r), d')"
    and r: "r \<in> set (providers d')" "pr_name r = ''frankfurter''"
    and m: "map (\<lambda>r. (pr_id r, pr_name r, pr_created_at r)) (providers d')
      = [(1, ''yahoo'', fmt_rfc3339 0), (2, ''frankfurter'', fmt_rfc3339 0)]"
    by (auto simp: sample_config_def sample_provider_def holds_provider_def)
  have "(pr_id r, pr_name r, pr_created_at r) \<in> set (map (\<lambda>r. (pr_id r, pr_name r, pr_created_at r)) (providers d'))"
    using r(1) by simp
  with r(2) have "pr_id r = 2" by (simp add: m)
  moreover have "map pr_id (providers d') = map fst (map (\<lambda>r. (pr_id r, pr_name r, pr_created_at r)) (providers d'))"
    by simp
  ultimately show ?thesis using u m by simp
qed

text \<open>
  The id \<open>UpsertProvider\<close> returns is wrong when the name is already stored and the same
  connection has inserted some row before: \<open>LastInsertId\<close> then still names that other row
  (a new provider registered earlier in the configuration, say), and it is returned as the
  provider's id although the provider's own row keeps its id.
\<close>

theorem upsert_known_name_returns_last_insert:
  assumes "fault E (stmts d) = None" and "p_Name p \<in> pr_name ` set (providers d)"
    and "last_rowid d \<noteq> 0"
  shows "fst (UpsertProvider E now p d) = Inr (last_rowid d)
     \<and> map pr_id (providers (snd (UpsertProvider E now p d))) = map pr_id (providers d)"
  using assms by (simp add: UpsertProvider_def go_simps Let_def upsert_row_providers)

theorem upsert_known_name_returns_last_insert_witness:
  "let d1 = snd (UpsertProvider plain_engine 0 (sample_config ''moneyconvert'') sample_db)
   in fst (UpsertProvider plain_engine 0 (sample_config ''yahoo'') d1) = Inr 3
      \<and> map pr_id (filter (\<lambda>r. pr_name r = ''yahoo'') (providers d1)) = [1]"
proof -
  define d1 where "d1 = snd (UpsertProvider plain_engine 0 (sample_config ''moneyconvert'') sample_db)"
  have "last_rowid d1 = 3" "map pr_id (filter (\<lambda>r. pr_name r = ''yahoo'') (providers d1)) = [1]"
    "''yahoo'' \<in> pr_name ` set (providers d1)"
    by (simp_all add: d1_def UpsertProvider_def go_simps Let_def upsert_row_def sample_config_def
        sample_db_def sample_provider_def)
  with upsert_known_name_returns_last_insert [of plain_engine d1 "sample_config ''yahoo''" 0]
  show ?thesis by (simp add: Let_def flip: d1_def)
qed

section \<open>Usage counters\<close>

lemma UsageToday_ok [go_simps]:
  "fault E (stmts d) = None \<Longrightarrow>
   fst (UsageToday E p t d) = Inr (case map_get (usage d) (p, fmt_day t) of Some n \<Rightarrow> n | None \<Rightarrow> 0)"
  by (simp add: UsageToday_def go_simps split: option.split)

text \<open>The counter of a provider on the UTC day of \<open>t\<close>.\<close>

definition usage_count :: "db \<Rightarrow> int \<Rightarrow> time \<Rightarrow> int" where
  "usage_count d p t = (case map_get (usage d) (p, fmt_day t) of Some n \<Rightarrow> n | None \<Rightarrow> 0)"

lemma usage_count_stmts [simp]: "usage_count (d\<lparr>stmts := n\<rparr>) p t = usage_count d p t"
  by (simp add: usage_count_def)

lemma usage_count_same: "usage d' = usage d \<Longrightarrow> usage_count d' p t = usage_count d p t"
  by (simp add: usage_count_def)

lemma usage_count_nonneg: "db_ok d \<Longrightarrow> 0 \<le> usage_count d p t"
  by (fastforce simp: usage_count_def db_ok_def usage_ok_def split: option.split)

lemma UsageToday_count:
  "UsageToday E p t d = (Inr n, d') \<Longrightarrow> n = usage_count d p t"
  by (auto simp: UsageToday_def usage_count_def split: stmt_split_asm option.splits)

lemma IncrementUsage_count:
  assumes "db_ok d" and "fmt_range t" and "fmt_range u"
    and "IncrementUsage E p t d = (Inr (), d')"
  shows "usage_count d' q u = usage_count d q u + (if q = p \<and> day_number u = day_number t then 1 else 0)"
proof -
  have wf: "map_wf (usage d)" using assms(1) by (simp add: db_ok_defs)
  have "map_get (usage d') = (map_get (usage d))((p, fmt_day t) \<mapsto>
      (case map_get (usage d) (p, fmt_day t) of Some n \<Rightarrow> n + 1 | None \<Rightarrow> 1))"
    using assms(4) wf
    by (auto simp: IncrementUsage_def Let_def gm.get_put split: stmt_split_asm option.splits)
  with fmt_day_eq [OF assms(3,2)] show ?thesis
    by (auto simp: usage_count_def split: option.splits)
qed

lemma IncrementUsage_err:
  "IncrementUsage E p t d = (Inl e, d') \<Longrightarrow> usage d' = usage d"
  by (auto simp: IncrementUsage_def Let_def split: stmt_split_asm option.splits)

end
