(* ===== verification/Aggregator.thy ===== *)
theory Aggregator
  imports Stats Store
begin

text \<open>
  \<^verbatim>\<open>internal/aggregator/aggregator.go\<close>: a rate from the newest reading of every provider. The
  methods of \<open>Aggregator\<close> run on the database of \<open>Store\<close>; the readings of \<open>time.Now()\<close> they
  make, in order, are the argument \<open>clk\<close>, so any clock is covered. A Go pair of a result and
  an error is a sum: the result next to a non-nil error is never used by a caller.
\<close>

section \<open>Data\<close>

record agg_config =
  OutlierTolerancePct :: f64
  MinProviders :: go_int
  MaxAgeSeconds :: go_int
  Base :: string

record source =
  s_ProviderID :: int
  s_ProviderName :: string
  s_Rate :: f64
  s_FetchedAt :: time
  s_ProviderTS :: string

record rate_result =
  res_From :: string
  res_To :: string
  res_Rate :: f64
  res_FreshnessSeconds :: f64
  res_ProvidersUsed :: "string list"
  res_Sources :: "(string, source) go_map"
  res_MedianFrom :: f64
  res_MedianTo :: f64
  res_ComputedAt :: time

datatype agg_error =
    CodesRequired
  | ReadReadings db_error
  | ReadProviders db_error
  | ErrInsufficientProviders int int
  | FromSide agg_error
  | ToSide agg_error
  | FromRateZero
  | RateZero
  | SameCodes

type_synonym clock = "nat \<Rightarrow> time"

definition shift :: "nat \<Rightarrow> clock \<Rightarrow> clock" where
  "shift n clk i = clk (n + i)"

text \<open>\<open>New\<close> fills in the base currency.\<close>

definition New :: "agg_config \<Rightarrow> agg_config" where
  "New cfg = (if Base cfg = [] then cfg\<lparr>Base := ''USD''\<rparr> else cfg)"

text \<open>\<open>time.Since(t).Seconds()\<close>: Go divides towards zero.\<close>

definition quo :: "int \<Rightarrow> int \<Rightarrow> int" where
  "quo a b = sgn a * sgn b * (\<bar>a\<bar> div \<bar>b\<bar>)"

definition dur_seconds :: "duration \<Rightarrow> f64" where
  "dur_seconds d =
     (let q = quo (sint d) ns_per_sec
      in fadd (f64_of_int q) (fdiv (f64_of_int (sint d - q * ns_per_sec)) (f64_of_int ns_per_sec)))"

definition since_seconds :: "time \<Rightarrow> time \<Rightarrow> f64" where
  "since_seconds now t = dur_seconds (time_sub now t)"

text \<open>\<open>time.Now().UTC().Add(-time.Duration(a.cfg.MaxAgeSeconds) * time.Second)\<close>\<close>

definition oldest_allowed :: "agg_config \<Rightarrow> time \<Rightarrow> time" where
  "oldest_allowed cfg now = time_add now (- MaxAgeSeconds cfg * second)"

section \<open>One side of a rate\<close>

definition indexOf :: "f64 list \<Rightarrow> f64 \<Rightarrow> nat option" where
  "indexOf s target = find (\<lambda>i. flt (fabs (fsub (s ! i) target)) (f64_const (1 / 10 ^ 12))) [0..<length s]"

definition contains :: "string list \<Rightarrow> string \<Rightarrow> bool" where
  "contains s v \<longleftrightarrow> list_ex (\<lambda>x. x = v) s"

definition name_by_id :: "provider list \<Rightarrow> (int, string) go_map" where
  "name_by_id ps = fold (\<lambda>p m. map_set (p_ID p) (p_Name p) m) ps []"

text \<open>\<open>nameByID[id]\<close> is the empty string when the id is missing.\<close>

definition name_of :: "(int, string) go_map \<Rightarrow> int \<Rightarrow> string" where
  "name_of m i = (case map_get m i of Some n \<Rightarrow> n | None \<Rightarrow> [])"

definition newest_time :: "reading list \<Rightarrow> time" where
  "newest_time rs = fold (\<lambda>r f. if f < r_FetchedAt r then r_FetchedAt r else f) rs zero_time"

definition source_of :: "(int, string) go_map \<Rightarrow> reading \<Rightarrow> source" where
  "source_of names r = \<lparr>s_ProviderID = r_ProviderID r, s_ProviderName = name_of names (r_ProviderID r),
     s_Rate = r_Rate r, s_FetchedAt = r_FetchedAt r, s_ProviderTS = r_ProviderTS r\<rparr>"

definition source_map :: "(int, string) go_map \<Rightarrow> reading list \<Rightarrow> (string, source) go_map" where
  "source_map names rs =
     fold (\<lambda>r m. map_set (name_of names (r_ProviderID r)) (source_of names r) m) rs []"

text \<open>The loop that names the provider of every value the filter kept.\<close>

definition note_provider ::
    "(int, string) go_map \<Rightarrow> f64 list \<Rightarrow> int list \<Rightarrow> f64 \<Rightarrow> string list \<Rightarrow> string list" where
  "note_provider names vs ids v used =
     (case indexOf vs v of
        None \<Rightarrow> used
      | Some i \<Rightarrow> (case map_get names (ids ! i) of
                     None \<Rightarrow> used
                   | Some n \<Rightarrow> if \<not> contains used n then used @ [n] else used))"

definition providers_used :: "(int, string) go_map \<Rightarrow> f64 list \<Rightarrow> int list \<Rightarrow> f64 list \<Rightarrow> string list" where
  "providers_used names vs ids kept = sort (fold (note_provider names vs ids) kept [])"

text \<open>The result from the readings and the provider list.\<close>

definition direct_result ::
    "agg_config \<Rightarrow> clock \<Rightarrow> string \<Rightarrow> reading list \<Rightarrow> int list \<Rightarrow> provider list \<Rightarrow> rate_result" where
  "direct_result cfg clk quote rs ids ps =
     (let names = name_by_id ps; vs = map r_Rate rs; newest = newest_time rs;
          kept = FilterOutliers vs (fdiv (OutlierTolerancePct cfg) (Fin 100));
          med = fst (Median kept)
      in \<lparr>res_From = Base cfg, res_To = to_upper quote, res_Rate = med,
          res_FreshnessSeconds = (if is_zero newest then Fin 0 else since_seconds (clk 0) newest),
          res_ProvidersUsed = providers_used names vs ids kept, res_Sources = source_map names rs,
          res_MedianFrom = Fin 1, res_MedianTo = med, res_ComputedAt = clk 1\<rparr>)"

type_synonym 'a agg = "db \<Rightarrow> (agg_error + 'a) \<times> db"

definition computeDirect :: "engine \<Rightarrow> agg_config \<Rightarrow> clock \<Rightarrow> string \<Rightarrow> time \<Rightarrow> rate_result agg" where
  "computeDirect E cfg clk quote since d =
     (case LatestReadingsPerProvider E quote since d of
        (Inl e, d1) \<Rightarrow> (Inl (ReadReadings e), d1)
      | (Inr (rs, ids), d1) \<Rightarrow>
          if int (length rs) < sint (MinProviders cfg)
          then (Inl (ErrInsufficientProviders (int (length rs)) (sint (MinProviders cfg))), d1)
          else case ListProviders E d1 of
                 (Inl e, d2) \<Rightarrow> (Inl (ReadProviders e), d2)
               | (Inr ps, d2) \<Rightarrow> (Inr (direct_result cfg clk quote rs ids ps), d2))"

section \<open>Pairs\<close>

definition map_vals :: "('v \<Rightarrow> 'w) \<Rightarrow> ('k, 'v) go_map \<Rightarrow> ('k, 'w) go_map" where
  "map_vals f m = map (\<lambda>(k, v). (k, f v)) m"

definition invert_source :: "source \<Rightarrow> source" where
  "invert_source s = s\<lparr>s_Rate := fdiv (Fin 1) (s_Rate s)\<rparr>"

definition invertTo :: "rate_result \<Rightarrow> string \<Rightarrow> agg_error + rate_result" where
  "invertTo r to =
     (if feq (res_Rate r) (Fin 0) then Inl RateZero
      else let newRate = fdiv (Fin 1) (res_Rate r)
           in Inr (r\<lparr>res_From := res_To r, res_To := to_upper to, res_Rate := newRate,
                     res_MedianFrom := res_MedianTo r, res_MedianTo := newRate,
                     res_Sources := map_vals invert_source (res_Sources r)\<rparr>))"

text \<open>The bytes of the arrow that joins provider and currency in a cross rate's source keys.\<close>

definition arrow :: string where
  "arrow = [CHR 0xE2, CHR 0x86, CHR 0x92]"

definition tag_sources ::
    "string \<Rightarrow> (string, source) go_map \<Rightarrow> (string, source) go_map \<Rightarrow> (string, source) go_map" where
  "tag_sources code src m = fold (\<lambda>(k, v) m. map_set (k @ arrow @ code) v m) src m"

text \<open>\<open>out\<close> also serves as the set \<open>seen\<close>: both hold the strings met so far.\<close>

definition mergeUnique :: "string list \<Rightarrow> string list \<Rightarrow> string list" where
  "mergeUnique a b = sort (fold (\<lambda>s out. if s \<in> set out then out else out @ [s]) (a @ b) [])"

definition computeCross ::
    "engine \<Rightarrow> agg_config \<Rightarrow> clock \<Rightarrow> string \<Rightarrow> string \<Rightarrow> time \<Rightarrow> rate_result agg" where
  "computeCross E cfg clk from to since d =
     (case computeDirect E cfg clk from since d of
        (Inl e, d1) \<Rightarrow> (Inl (FromSide e), d1)
      | (Inr f, d1) \<Rightarrow>
          (case computeDirect E cfg (shift 2 clk) to since d1 of
             (Inl e, d2) \<Rightarrow> (Inl (ToSide e), d2)
           | (Inr t, d2) \<Rightarrow>
               if feq (res_Rate f) (Fin 0) then (Inl FromRateZero, d2)
               else (Inr \<lparr>res_From = from, res_To = to, res_Rate = fdiv (res_Rate t) (res_Rate f),
                       res_FreshnessSeconds = since_seconds (clk 4)
                         (if res_ComputedAt t < res_ComputedAt f then res_ComputedAt t else res_ComputedAt f),
                       res_ProvidersUsed = mergeUnique (res_ProvidersUsed f) (res_ProvidersUsed t),
                       res_Sources = tag_sources to (res_Sources t) (tag_sources from (res_Sources f) []),
                       res_MedianFrom = res_Rate f, res_MedianTo = res_Rate t,
                       res_ComputedAt = clk 5\<rparr>, d2)))"

definition Compute :: "engine \<Rightarrow> agg_config \<Rightarrow> clock \<Rightarrow> string \<Rightarrow> string \<Rightarrow> rate_result agg" where
  "Compute E cfg clk from0 to0 d =
     (let from = to_upper from0; to = to_upper to0
      in if from = [] \<or> to = [] then (Inl CodesRequired, d)
         else if from = to
         then (Inr \<lparr>res_From = from, res_To = to, res_Rate = Fin 1, res_FreshnessSeconds = Fin 0,
                   res_ProvidersUsed = [], res_Sources = [], res_MedianFrom = Fin 0,
                   res_MedianTo = Fin 0, res_ComputedAt = clk 0\<rparr>, d)
         else let since = oldest_allowed cfg (clk 0); c = shift 1 clk
              in if from = Base cfg then computeDirect E cfg c to since d
                 else if to = Base cfg
                 then case computeDirect E cfg c from since d of
                        (Inl e, d1) \<Rightarrow> (Inl e, d1)
                      | (Inr r, d1) \<Rightarrow> (invertTo r to, d1)
                 else computeCross E cfg c from to since d)"

text \<open>One round per code; the clock readings of round \<open>i\<close> are \<open>clk (2 i + 1)\<close> and \<open>clk (2 i + 2)\<close>.\<close>

fun all_rounds ::
    "engine \<Rightarrow> agg_config \<Rightarrow> clock \<Rightarrow> time \<Rightarrow> string list \<Rightarrow> (string, rate_result) go_map \<Rightarrow> db \<Rightarrow>
     (string, rate_result) go_map \<times> db" where
  "all_rounds E cfg clk since [] out d = (out, d)"
| "all_rounds E cfg clk since (code # codes) out d =
     (if code = Base cfg then all_rounds E cfg (shift 2 clk) since codes out d
      else case computeDirect E cfg clk code since d of
             (Inl e, d1) \<Rightarrow> all_rounds E cfg (shift 2 clk) since codes out d1
           | (Inr r, d1) \<Rightarrow> all_rounds E cfg (shift 2 clk) since codes (map_set code r out) d1)"

definition AllCurrencies ::
    "engine \<Rightarrow> agg_config \<Rightarrow> clock \<Rightarrow> string list \<Rightarrow> db \<Rightarrow> (string, rate_result) go_map \<times> db" where
  "AllCurrencies E cfg clk codes d =
     all_rounds E cfg (shift 1 clk) (oldest_allowed cfg (clk 0)) codes [] d"

section \<open>History and pruning\<close>

definition historySide ::
    "engine \<Rightarrow> string \<Rightarrow> time \<Rightarrow> time \<Rightarrow> duration \<Rightarrow> db \<Rightarrow> history_point list \<times> db" where
  "historySide E quote start finish step d =
     (case History E quote start finish step d of
        (Inl e, d1) \<Rightarrow> ([], d1)
      | (Inr raw, d1) \<Rightarrow> (map (\<lambda>p. \<lparr>hp_FetchedAt = hp_FetchedAt p, hp_Rate = hp_Rate p\<rparr>) raw, d1))"

text \<open>A point whose rate is zero stays the zero value of the result slice.\<close>

definition invertHistory :: "history_point list \<Rightarrow> history_point list" where
  "invertHistory ps = map (\<lambda>p. if \<not> feq (hp_Rate p) (Fin 0)
      then \<lparr>hp_FetchedAt = hp_FetchedAt p, hp_Rate = fdiv (Fin 1) (hp_Rate p)\<rparr>
      else \<lparr>hp_FetchedAt = zero_time, hp_Rate = Fin 0\<rparr>) ps"

definition by_second :: "history_point list \<Rightarrow> (int, f64) go_map" where
  "by_second ps = fold (\<lambda>p m. map_set (time_unix (hp_FetchedAt p)) (hp_Rate p) m) ps []"

definition cross_point :: "(int, f64) go_map \<Rightarrow> history_point \<Rightarrow> history_point list \<Rightarrow> history_point list" where
  "cross_point byT p out =
     (case map_get byT (time_unix (hp_FetchedAt p)) of
        None \<Rightarrow> out
      | Some f \<Rightarrow> if feq f (Fin 0) \<or> feq (hp_Rate p) (Fin 0) then out
                  else out @ [\<lparr>hp_FetchedAt = hp_FetchedAt p, hp_Rate = fdiv (hp_Rate p) f\<rparr>])"

definition crossHistory :: "history_point list \<Rightarrow> history_point list \<Rightarrow> history_point list" where
  "crossHistory fromSide toSide = fold (cross_point (by_second fromSide)) toSide []"

definition AggHistory ::
    "engine \<Rightarrow> agg_config \<Rightarrow> string \<Rightarrow> string \<Rightarrow> time \<Rightarrow> time \<Rightarrow> duration \<Rightarrow> history_point list agg" where
  "AggHistory E cfg from0 to0 start finish step d =
     (let from = to_upper from0; to = to_upper to0
      in if from = to then (Inl SameCodes, d)
         else if from = Base cfg
         then (case historySide E to start finish step d of (ps, d1) \<Rightarrow> (Inr ps, d1))
         else if to = Base cfg
         then (case historySide E from start finish step d of (ps, d1) \<Rightarrow> (Inr (invertHistory ps), d1))
         else case historySide E from start finish step d of
                (fs, d1) \<Rightarrow> (case historySide E to start finish step d1 of
                   (ts, d2) \<Rightarrow> (Inr (crossHistory fs ts), d2)))"

definition Prune :: "engine \<Rightarrow> time \<Rightarrow> duration \<Rightarrow> int dbm" where
  "Prune E now retention = PruneOlderThan E (time_add now (- retention))"

end
