(* ===== verification/RateCache.thy ===== *)
theory RateCache
  imports GoTime GoValues
begin

text \<open>
  \<^verbatim>\<open>internal/ratelookup/cache.go\<close>: the TTL cache of response bodies. \<open>cache_Get\<close> to \<open>cache_Len\<close>
  are the methods run one at a time, with the clock reading of \<open>time.Now()\<close> as an argument;
  \<open>cache_step\<close> is the same code with its lock regions interleaved by concurrent requests.

  The interface the HTTP handlers rely on is the locale \<open>ttl_cache\<close>: what a lookup answers
  after each operation. Its client lemma says that a lookup answers with the last value
  written under the key, until the time to live has passed.
\<close>

section \<open>State and operations\<close>

record item =
  it_value :: string
  it_expiresAt :: time

record cache =
  c_ttl :: duration
  c_items :: "(string, item) go_map"

definition NewCache :: "duration \<Rightarrow> cache" where
  "NewCache ttl = \<lparr>c_ttl = (if sint ttl \<le> 0 then 60 * second else ttl), c_items = []\<rparr>"

definition cache_Get :: "time \<Rightarrow> string \<Rightarrow> cache \<Rightarrow> string option \<times> cache" where
  "cache_Get now key c =
     (case map_get (c_items c) key of
        None \<Rightarrow> (None, c)
      | Some it \<Rightarrow> if it_expiresAt it < now then (None, c\<lparr>c_items := map_del key (c_items c)\<rparr>)
                   else (Some (it_value it), c))"

definition cache_Set :: "time \<Rightarrow> string \<Rightarrow> string \<Rightarrow> cache \<Rightarrow> cache" where
  "cache_Set now key value c =
     c\<lparr>c_items := map_set key \<lparr>it_value = value, it_expiresAt = time_add now (c_ttl c)\<rparr> (c_items c)\<rparr>"

definition cache_Delete :: "string \<Rightarrow> cache \<Rightarrow> cache" where
  "cache_Delete key c = c\<lparr>c_items := map_del key (c_items c)\<rparr>"

definition cache_Purge :: "cache \<Rightarrow> cache" where
  "cache_Purge c = c\<lparr>c_items := []\<rparr>"

definition cache_Len :: "cache \<Rightarrow> int" where
  "cache_Len c = int (map_len (c_items c))"

lemmas cache_defs = NewCache_def cache_Get_def cache_Set_def cache_Delete_def cache_Purge_def cache_Len_def

section \<open>The interface\<close>

datatype cache_op = CGet string | CSet string string | CDelete string | CPurge

text \<open>The last write of a key that no later delete or purge has undone.\<close>

definition written :: "string \<Rightarrow> time \<times> cache_op \<Rightarrow> (time \<times> string) option \<Rightarrow> (time \<times> string) option" where
  "written k ev w =
     (case ev of
        (_, CGet _) \<Rightarrow> w
      | (t, CSet k' v) \<Rightarrow> if k' = k then Some (t, v) else w
      | (_, CDelete k') \<Rightarrow> if k' = k then None else w
      | (_, CPurge) \<Rightarrow> None)"

definition last_write :: "string \<Rightarrow> (time \<times> cache_op) list \<Rightarrow> (time \<times> string) option" where
  "last_write k evs = fold (written k) evs None"

definition still_fresh :: "int \<Rightarrow> time \<Rightarrow> (time \<times> string) option \<Rightarrow> string option" where
  "still_fresh ttl now w = (case w of None \<Rightarrow> None | Some (t, v) \<Rightarrow> if now \<le> t + ttl then Some v else None)"

locale ttl_cache =
  fixes look :: "'c \<Rightarrow> time \<Rightarrow> string \<Rightarrow> string option"
    and new :: 'c
    and get :: "time \<Rightarrow> string \<Rightarrow> 'c \<Rightarrow> string option \<times> 'c"
    and put :: "time \<Rightarrow> string \<Rightarrow> string \<Rightarrow> 'c \<Rightarrow> 'c"
    and del :: "string \<Rightarrow> 'c \<Rightarrow> 'c"
    and purge :: "'c \<Rightarrow> 'c"
    and wf :: "'c \<Rightarrow> bool"
    and ttl :: int
  assumes wf_new: "wf new"
    and wf_get: "wf c \<Longrightarrow> wf (snd (get now k c))"
    and wf_put: "wf c \<Longrightarrow> wf (put now k v c)"
    and wf_del: "wf c \<Longrightarrow> wf (del k c)"
    and wf_purge: "wf c \<Longrightarrow> wf (purge c)"
    and get_result: "wf c \<Longrightarrow> fst (get now k c) = look c now k"
    and look_new: "look new now k = None"
    and look_get: "wf c \<Longrightarrow> now \<le> later \<Longrightarrow> look (snd (get now k c)) later k' = look c later k'"
    and look_put: "wf c \<Longrightarrow> look (put now k v c) later k' =
      (if k' = k then still_fresh ttl later (Some (now, v)) else look c later k')"
    and look_del: "wf c \<Longrightarrow> look (del k c) later k' = (if k' = k then None else look c later k')"
    and look_purge: "wf c \<Longrightarrow> look (purge c) later k' = None"
begin

definition exec :: "time \<times> cache_op \<Rightarrow> 'c \<Rightarrow> 'c" where
  "exec ev c =
     (case ev of
        (t, CGet k) \<Rightarrow> snd (get t k c)
      | (t, CSet k v) \<Rightarrow> put t k v c
      | (t, CDelete k) \<Rightarrow> del k c
      | (t, CPurge) \<Rightarrow> purge c)"

lemma wf_exec: "wf c \<Longrightarrow> wf (exec ev c)"
  by (auto simp: exec_def wf_get wf_put wf_del wf_purge split: prod.split cache_op.split)

lemma look_exec:
  assumes "wf c" and "fst ev \<le> later" and "look c later k = still_fresh ttl later w"
  shows "look (exec ev c) later k = still_fresh ttl later (written k ev w)"
  using assms
  by (auto simp: exec_def written_def look_get look_put look_del look_purge still_fresh_def
      split: prod.split cache_op.split)

lemma look_run:
  assumes "\<forall>ev \<in> set evs. fst ev \<le> now"
  shows "look (fold exec evs new) now k = still_fresh ttl now (last_write k evs) \<and> wf (fold exec evs new)"
proof -
  have "wf c \<Longrightarrow> look c now k = still_fresh ttl now w \<Longrightarrow> \<forall>ev \<in> set evs. fst ev \<le> now \<Longrightarrow>
      look (fold exec evs c) now k = still_fresh ttl now (fold (written k) evs w) \<and> wf (fold exec evs c)" for c w
    by (induction evs arbitrary: c w) (auto simp: look_exec wf_exec)
  from this [OF wf_new _ assms, of None] show ?thesis
    by (simp add: look_new last_write_def still_fresh_def)
qed

lemma get_run:
  assumes "\<forall>ev \<in> set evs. fst ev \<le> now"
  shows "fst (get now k (fold exec evs new)) = still_fresh ttl now (last_write k evs)"
  using look_run [OF assms] get_result by simp

end

section \<open>The cache implements the interface\<close>

definition cache_look :: "cache \<Rightarrow> time \<Rightarrow> string \<Rightarrow> string option" where
  "cache_look c now key = fst (cache_Get now key c)"

definition cache_wf :: "duration \<Rightarrow> cache \<Rightarrow> bool" where
  "cache_wf ttl c \<longleftrightarrow> map_wf (c_items c) \<and> c_ttl c = c_ttl (NewCache ttl)"

lemma cache_look_cases:
  "cache_look c now k = (case map_get (c_items c) k of None \<Rightarrow> None
     | Some it \<Rightarrow> if it_expiresAt it < now then None else Some (it_value it))"
  by (simp add: cache_look_def cache_Get_def split: option.split)

interpretation rc: ttl_cache cache_look "NewCache ttl" cache_Get cache_Set cache_Delete cache_Purge
  "cache_wf ttl" "sint (c_ttl (NewCache ttl))"
proof unfold_locales
  fix c now later k k' v
  show "cache_wf ttl (NewCache ttl)" by (simp add: cache_wf_def cache_defs gm.wf_empty)
  show "cache_look (NewCache ttl) now k = None" by (simp add: cache_look_def cache_defs gm.get_empty)
  assume wf: "cache_wf ttl c"
  then have m: "map_wf (c_items c)" by (simp add: cache_wf_def)
  show "cache_wf ttl (snd (cache_Get now k c))"
    using wf by (auto simp: cache_wf_def cache_Get_def gm.wf_del split: option.split)
  show "cache_wf ttl (cache_Set now k v c)" "cache_wf ttl (cache_Delete k c)" "cache_wf ttl (cache_Purge c)"
    using wf by (simp_all add: cache_wf_def cache_Set_def cache_Delete_def cache_Purge_def
        gm.wf_put gm.wf_del gm.wf_empty)
  show "fst (cache_Get now k c) = cache_look c now k" by (simp add: cache_look_def)
  show "cache_look (snd (cache_Get now k c)) later k' = cache_look c later k'" if "now \<le> later"
    using that m by (auto simp: cache_look_cases cache_Get_def gm.get_del split: option.split)
  show "cache_look (cache_Set now k v c) later k' =
      (if k' = k then still_fresh (sint (c_ttl (NewCache ttl))) later (Some (now, v)) else cache_look c later k')"
    using wf by (auto simp: cache_look_cases cache_wf_def cache_Set_def gm.get_put still_fresh_def time_add_def)
  show "cache_look (cache_Delete k c) later k' = (if k' = k then None else cache_look c later k')"
    using m by (auto simp: cache_look_cases cache_Delete_def gm.get_del)
  show "cache_look (cache_Purge c) later k' = None"
    by (simp add: cache_look_cases cache_Purge_def gm.get_empty)
qed

definition cache_exec :: "time \<times> cache_op \<Rightarrow> cache \<Rightarrow> cache" where
  "cache_exec ev c =
     (case ev of
        (t, CGet k) \<Rightarrow> snd (cache_Get t k c)
      | (t, CSet k v) \<Rightarrow> cache_Set t k v c
      | (t, CDelete k) \<Rightarrow> cache_Delete k c
      | (t, CPurge) \<Rightarrow> cache_Purge c)"

lemma cache_exec_exec: "cache_exec = rc.exec"
  by (simp add: fun_eq_iff cache_exec_def rc.exec_def)

lemma NewCache_ttl: "sint (c_ttl (NewCache ttl)) = (if sint ttl \<le> 0 then 60000000000 else sint ttl)"
  by (simp add: NewCache_def)

text \<open>
  C8: \<open>Get\<close> answers with the last value written. After any sequence of cache calls made
  no later than \<open>now\<close>, \<open>Get\<close> returns exactly the value of the last \<open>Set\<close> of the key that no
  \<open>Delete\<close> or \<open>Purge\<close> has undone, as long as no more than the time to live has passed since
  that \<open>Set\<close>, and nothing otherwise; reads in between, with their evictions, never change the
  answer. A time to live that is not positive counts as a minute.
\<close>

theorem cache_answers_last_write:
  assumes "\<forall>ev \<in> set evs. fst ev \<le> now"
  shows "fst (cache_Get now k (fold cache_exec evs (NewCache ttl))) =
    still_fresh (if sint ttl \<le> 0 then 60000000000 else sint ttl) now (last_write k evs)"
  using rc.get_run [OF assms] by (simp add: cache_exec_exec NewCache_ttl)

theorem cache_answers_last_write_witness:
  "fst (cache_Get 70 ''k'' (fold cache_exec
      [(1, CSet ''k'' ''old''), (40, CSet ''k'' ''new''), (50, CGet ''k''), (60, CDelete ''j'')] (NewCache 30)))
    = Some ''new''
   \<and> fst (cache_Get 71 ''k'' (fold cache_exec
      [(1, CSet ''k'' ''old''), (40, CSet ''k'' ''new''), (50, CGet ''k''), (60, CDelete ''j'')] (NewCache 30)))
    = None"
proof -
  let ?evs = "[(1, CSet ''k'' ''old''), (40, CSet ''k'' ''new''), (50, CGet ''k''), (60, CDelete ''j'')]"
  have "\<forall>ev \<in> set ?evs. fst ev \<le> (70 :: time)" "\<forall>ev \<in> set ?evs. fst ev \<le> (71 :: time)" by simp_all
  then show ?thesis
    using cache_answers_last_write [of ?evs 70 "''k''" 30] cache_answers_last_write [of ?evs 71 "''k''" 30]
    by (simp add: last_write_def written_def still_fresh_def)
qed

lemma cache_Len_run:
  "cache_wf ttl c \<Longrightarrow> cache_Len c = int (card (dom (map_get (c_items c))))"
  by (simp add: cache_Len_def cache_wf_def gm.len_card)

section \<open>Concurrent requests\<close>

text \<open>
  \<open>Get\<close> holds the read lock only for the map lookup; the expiry check runs without a lock and
  the removal takes the write lock anew. Between them other requests may run. Each thread is
  idle, or has looked a key up and holds what it found, or is about to remove the key. \<open>Set\<close>,
  \<open>Delete\<close> and \<open>Purge\<close> are single lock regions. The fields \<open>s_writes\<close> and \<open>s_hits\<close> record what
  was written and what \<open>Get\<close> answered.
\<close>

datatype phase = Idle | Found string "item option" | Removing string

record shared =
  s_cache :: cache
  s_clock :: time
  s_phase :: "nat \<Rightarrow> phase"
  s_writes :: "(time \<times> string \<times> string) list"
  s_hits :: "(time \<times> string \<times> string) list"

definition shared_start :: "duration \<Rightarrow> shared" where
  "shared_start ttl = \<lparr>s_cache = NewCache ttl, s_clock = 0, s_phase = (\<lambda>_. Idle), s_writes = [], s_hits = []\<rparr>"

definition found_live :: "time \<Rightarrow> item option \<Rightarrow> string option" where
  "found_live now f = (case f of None \<Rightarrow> None | Some it \<Rightarrow> if it_expiresAt it < now then None else Some (it_value it))"

inductive cache_step :: "shared \<Rightarrow> shared \<Rightarrow> bool" where
  tick: "s_clock s \<le> t \<Longrightarrow> cache_step s (s\<lparr>s_clock := t\<rparr>)"
| get_read: "s_phase s i = Idle \<Longrightarrow>
    cache_step s (s\<lparr>s_phase := (s_phase s)(i := Found k (map_get (c_items (s_cache s)) k))\<rparr>)"
| get_absent: "s_phase s i = Found k None \<Longrightarrow> cache_step s (s\<lparr>s_phase := (s_phase s)(i := Idle)\<rparr>)"
| get_hit: "s_phase s i = Found k f \<Longrightarrow> found_live (s_clock s) f = Some v \<Longrightarrow>
    cache_step s (s\<lparr>s_phase := (s_phase s)(i := Idle), s_hits := (s_clock s, k, v) # s_hits s\<rparr>)"
| get_expired: "s_phase s i = Found k (Some it) \<Longrightarrow> it_expiresAt it < s_clock s \<Longrightarrow>
    cache_step s (s\<lparr>s_phase := (s_phase s)(i := Removing k)\<rparr>)"
| get_remove: "s_phase s i = Removing k \<Longrightarrow>
    cache_step s (s\<lparr>s_phase := (s_phase s)(i := Idle), s_cache := cache_Delete k (s_cache s)\<rparr>)"
| set_key: "cache_step s (s\<lparr>s_cache := cache_Set (s_clock s) k v (s_cache s),
    s_writes := (s_clock s, k, v) # s_writes s\<rparr>)"
| delete_key: "cache_step s (s\<lparr>s_cache := cache_Delete k (s_cache s)\<rparr>)"
| purge_all: "cache_step s (s\<lparr>s_cache := cache_Purge (s_cache s)\<rparr>)"

inductive cache_reach :: "duration \<Rightarrow> shared \<Rightarrow> bool" for ttl where
  start: "cache_reach ttl (shared_start ttl)"
| step: "cache_reach ttl s \<Longrightarrow> cache_step s s' \<Longrightarrow> cache_reach ttl s'"

text \<open>An item is backed by a recorded write that set its value and its expiry.\<close>

definition backed :: "shared \<Rightarrow> string \<Rightarrow> item \<Rightarrow> bool" where
  "backed s k it \<longleftrightarrow> (\<exists>t. (t, k, it_value it) \<in> set (s_writes s) \<and> t \<le> s_clock s
     \<and> it_expiresAt it = time_add t (c_ttl (s_cache s)))"

definition served :: "shared \<Rightarrow> time \<times> string \<times> string \<Rightarrow> bool" where
  "served s h = (case h of (t, k, v) \<Rightarrow>
     \<exists>tw. (tw, k, v) \<in> set (s_writes s) \<and> tw \<le> t \<and> t \<le> time_add tw (c_ttl (s_cache s)))"

definition cache_inv :: "duration \<Rightarrow> shared \<Rightarrow> bool" where
  "cache_inv ttl s \<longleftrightarrow> cache_wf ttl (s_cache s)
     \<and> (\<forall>k it. map_get (c_items (s_cache s)) k = Some it \<longrightarrow> backed s k it)
     \<and> (\<forall>i k it. s_phase s i = Found k (Some it) \<longrightarrow> backed s k it)
     \<and> (\<forall>h \<in> set (s_hits s). served s h)"

lemma found_live_Some: "found_live now f = Some v \<longleftrightarrow> (\<exists>it. f = Some it \<and> now \<le> it_expiresAt it \<and> v = it_value it)"
  by (auto simp: found_live_def split: option.splits if_splits)

lemma cache_inv_next:
  assumes inv: "cache_inv ttl s" and wf: "cache_wf ttl (s_cache s')"
    and w: "set (s_writes s) \<subseteq> set (s_writes s')" and c: "s_clock s \<le> s_clock s'"
    and items: "\<And>k it. map_get (c_items (s_cache s')) k = Some it \<Longrightarrow>
      map_get (c_items (s_cache s)) k = Some it \<or> backed s' k it"
    and phase: "\<And>i k it. s_phase s' i = Found k (Some it) \<Longrightarrow>
      s_phase s i = Found k (Some it) \<or> map_get (c_items (s_cache s)) k = Some it"
    and hits: "\<And>h. h \<in> set (s_hits s') \<Longrightarrow> h \<in> set (s_hits s) \<or> served s' h"
  shows "cache_inv ttl s'"
proof -
  have ttl: "c_ttl (s_cache s') = c_ttl (s_cache s)" using inv wf by (simp add: cache_inv_def cache_wf_def)
  have b: "backed s k it \<Longrightarrow> backed s' k it" for k it
    using w c ttl by (force simp: backed_def)
  have h: "served s h \<Longrightarrow> served s' h" for h
    using w ttl by (force simp: served_def)
  show ?thesis
    unfolding cache_inv_def using inv wf items phase hits b h by (fastforce simp: cache_inv_def)
qed

lemma cache_wf_ops:
  assumes "cache_wf ttl c"
  shows "cache_wf ttl (cache_Set now k v c)" "cache_wf ttl (cache_Delete k c)" "cache_wf ttl (cache_Purge c)"
  using assms by (auto intro: rc.wf_put rc.wf_del rc.wf_purge)

lemma cache_items_del [simp]:
  "map_wf (c_items c) \<Longrightarrow> map_get (c_items (cache_Delete k c)) k' = (if k' = k then None else map_get (c_items c) k')"
  "map_get (c_items (cache_Purge c)) k = None"
  by (simp_all add: cache_Delete_def cache_Purge_def gm.get_del gm.get_empty)

lemma cache_step_inv: "cache_step s s' \<Longrightarrow> cache_inv ttl s \<Longrightarrow> cache_inv ttl s'"
proof (induction rule: cache_step.induct)
  case (set_key s k v)
  let ?s = "s\<lparr>s_cache := cache_Set (s_clock s) k v (s_cache s), s_writes := (s_clock s, k, v) # s_writes s\<rparr>"
  have wf: "cache_wf ttl (s_cache s)" using set_key by (simp add: cache_inv_def)
  then have m: "map_wf (c_items (s_cache s))" by (simp add: cache_wf_def)
  have "backed ?s k \<lparr>it_value = v, it_expiresAt = time_add (s_clock s) (c_ttl (s_cache s))\<rparr>"
    by (auto simp: backed_def cache_Set_def)
  then have "map_get (c_items (s_cache ?s)) k' = Some it \<Longrightarrow>
      map_get (c_items (s_cache s)) k' = Some it \<or> backed ?s k' it" for k' it
    by (auto simp: cache_Set_def gm.get_put [OF m] split: if_splits)
  then show ?case using wf by (intro cache_inv_next [OF set_key]) (auto intro: cache_wf_ops)
next
  case (get_hit s i k f v)
  then obtain it where f: "f = Some it" "s_clock s \<le> it_expiresAt it" "v = it_value it"
    by (auto simp: found_live_Some)
  then have "backed s k it" using get_hit by (simp add: cache_inv_def)
  then have "served (s\<lparr>s_phase := (s_phase s)(i := Idle), s_hits := (s_clock s, k, v) # s_hits s\<rparr>) (s_clock s, k, v)"
    using f by (auto simp: backed_def served_def)
  then show ?case
    using get_hit(3) by (intro cache_inv_next [OF get_hit(3)]) (auto simp: cache_inv_def split: if_splits)
next
  case (get_remove s i k)
  then have "map_wf (c_items (s_cache s))" by (simp add: cache_inv_def cache_wf_def)
  with get_remove show ?case
    by (intro cache_inv_next [OF get_remove(2)])
      (auto simp: cache_inv_def cache_wf_ops split: if_splits)
next
  case (delete_key s k)
  then have "map_wf (c_items (s_cache s))" by (simp add: cache_inv_def cache_wf_def)
  with delete_key show ?case
    by (intro cache_inv_next [OF delete_key])
      (auto simp: cache_inv_def cache_wf_ops split: if_splits)
next
  case (purge_all s)
  then show ?case
    by (intro cache_inv_next [OF purge_all])
      (auto simp: cache_inv_def cache_wf_ops)
qed ((rule cache_inv_next, assumption); auto simp: cache_inv_def split: if_splits)+

lemma cache_reach_inv: "cache_reach ttl s \<Longrightarrow> cache_inv ttl s"
proof (induction rule: cache_reach.induct)
  case start
  show ?case by (simp add: cache_inv_def shared_start_def rc.wf_new) (simp add: NewCache_def gm.get_empty)
qed (rule cache_step_inv)

text \<open>
  C11: concurrent requests are never served a stale or foreign body. In every interleaving of
  \<open>Get\<close>, \<open>Set\<close>, \<open>Delete\<close> and \<open>Purge\<close>, each answer of a \<open>Get\<close> was written under the same key
  by a \<open>Set\<close> that ran no more than the time to live before the answer.
\<close>

theorem concurrent_hits_are_fresh:
  assumes "cache_reach ttl s" and "(t, k, v) \<in> set (s_hits s)"
  shows "\<exists>tw. (tw, k, v) \<in> set (s_writes s) \<and> tw \<le> t
    \<and> t \<le> tw + (if sint ttl \<le> 0 then 60000000000 else sint ttl)"
  using cache_reach_inv [OF assms(1)] assms(2) NewCache_ttl [of ttl]
  by (fastforce simp: cache_inv_def served_def cache_wf_def time_add_def)

text \<open>Runs built step by step, for the instances.\<close>

lemma shared_eqI:
  "s_cache s = s_cache s' \<Longrightarrow> s_clock s = s_clock s' \<Longrightarrow> s_phase s = s_phase s' \<Longrightarrow>
   s_writes s = s_writes s' \<Longrightarrow> s_hits s = s_hits s' \<Longrightarrow> s = (s' :: shared)"
  by simp

definition race_cache :: cache where
  "race_cache = cache_Set 40 ''k'' ''new'' (cache_Set 0 ''k'' ''old'' (NewCache 30))"

definition race_state :: "phase \<Rightarrow> shared" where
  "race_state ph = \<lparr>s_cache = race_cache, s_clock = 40, s_phase = (\<lambda>_. Idle)(0 := ph),
     s_writes = [(40, ''k'', ''new''), (0, ''k'', ''old'')], s_hits = []\<rparr>"

lemma reach_race: "cache_reach 30 (race_state (Removing ''k''))" "cache_reach 30 (race_state Idle)"
proof -
  let ?it = "\<lparr>it_value = ''old'', it_expiresAt = 30\<rparr>"
  define s where "s = (\<lambda>now ph. \<lparr>s_cache = cache_Set 0 ''k'' ''old'' (NewCache 30), s_clock = now,
     s_phase = (\<lambda>_. Idle)(0 := ph), s_writes = [(0, ''k'', ''old'')], s_hits = []\<rparr>)"
  have 1: "cache_reach 30 (s 0 Idle)"
    using cache_reach.step [OF cache_reach.start [of 30] set_key [of _ "''k''" "''old''"]]
    by (simp add: shared_start_def s_def fun_upd_idem)
  have 2: "cache_reach 30 (s 35 Idle)"
    using cache_reach.step [OF 1 tick [of _ 35]] by (simp add: s_def)
  have "map_get (c_items (cache_Set 0 ''k'' ''old'' (NewCache 30))) ''k'' = Some ?it"
    by (simp add: cache_defs map_defs time_add_def)
  then have 3: "cache_reach 30 (s 35 (Found ''k'' (Some ?it)))"
    using cache_reach.step [OF 2 get_read [of _ 0 "''k''"]] by (simp add: s_def)
  have 4: "cache_reach 30 (s 35 (Removing ''k''))"
    using cache_reach.step [OF 3 get_expired [of _ 0 "''k''" ?it]] by (simp add: s_def)
  have set40: "cache_reach 30 (race_state ph)" if "cache_reach 30 (s 35 ph)" for ph
  proof -
    have "cache_reach 30 (s 40 ph)"
      using cache_reach.step [OF that tick [of _ 40]] by (simp add: s_def)
    from cache_reach.step [OF this set_key [of _ "''k''" "''new''"]] show ?thesis
      by (simp add: s_def race_state_def race_cache_def)
  qed
  from set40 [OF 4] set40 [OF 2] show "cache_reach 30 (race_state (Removing ''k''))" "cache_reach 30 (race_state Idle)" .
qed

theorem concurrent_hits_are_fresh_witness:
  "\<exists>s tw. cache_reach 30 s \<and> (40, ''k'', ''new'') \<in> set (s_hits s)
     \<and> (tw, ''k'', ''new'') \<in> set (s_writes s) \<and> 40 \<le> tw + 30"
proof -
  let ?it = "\<lparr>it_value = ''new'', it_expiresAt = 70\<rparr>"
  have "map_get (c_items race_cache) ''k'' = Some ?it"
    by (simp add: race_cache_def cache_defs map_defs time_add_def)
  then have "cache_reach 30 (race_state (Found ''k'' (Some ?it)))"
    using cache_reach.step [OF reach_race(2) get_read [of _ 0 "''k''"]] by (simp add: race_state_def)
  from cache_reach.step [OF this get_hit [of _ 0 "''k''" "Some ?it" "''new''"]]
  obtain s where s: "cache_reach 30 s" "(40, ''k'', ''new'') \<in> set (s_hits s)"
    by (auto simp: race_state_def found_live_def)
  from concurrent_hits_are_fresh [OF s] s show ?thesis by auto
qed

text \<open>
  The eviction of an expired entry can drop a fresh one. Because \<open>Get\<close> releases the read
  lock before it takes the write lock, a reachable state exists in which the key holds a value
  written at this very moment and the pending removal of a \<open>Get\<close> that saw the old entry
  deletes it, without any \<open>Delete\<close> or \<open>Purge\<close>.
\<close>

theorem stale_eviction_drops_fresh_entry:
  "\<exists>s s'. cache_reach 30 s \<and> s_phase s 0 = Removing ''k'' \<and> cache_step s s'
     \<and> (s_clock s, ''k'', ''new'') \<in> set (s_writes s)
     \<and> cache_look (s_cache s) (s_clock s) ''k'' = Some ''new''
     \<and> s_writes s' = s_writes s \<and> s_clock s' = s_clock s
     \<and> cache_look (s_cache s') (s_clock s') ''k'' = None"
proof -
  let ?s = "race_state (Removing ''k'')"
  let ?s' = "?s\<lparr>s_phase := (s_phase ?s)(0 := Idle), s_cache := cache_Delete ''k'' (s_cache ?s)\<rparr>"
  have "cache_step ?s ?s'" by (rule get_remove) (simp add: race_state_def)
  moreover have "cache_look race_cache 40 ''k'' = Some ''new''"
    "cache_look (cache_Delete ''k'' race_cache) 40 ''k'' = None"
    by (simp_all add: race_cache_def cache_look_cases cache_defs map_defs time_add_def)
  ultimately show ?thesis
    using reach_race(1) by (intro exI [of _ ?s] exI [of _ ?s']) (simp add: race_state_def)
qed

end
