(* ===== verification/Metrics.thy ===== *)
theory Metrics
  imports Float64 GoValues
begin

text \<open>
  \<^verbatim>\<open>internal/obs/metrics.go\<close>: the registry of gauges, labelled gauges and counters. A
  \<open>sync.Map\<close> is a Go map; every method is one lock region or one atomic operation on the
  entry, and \<open>LoadOrStore\<close> creates it with the zero value. Counters are 64-bit and wrap.
\<close>

record metrics =
  m_gauges :: "(string, f64) go_map"
  m_counters :: "(string, 64 word) go_map"
  m_labeled :: "(string, (string, f64) go_map) go_map"

definition NewMetrics :: metrics where
  "NewMetrics = \<lparr>m_gauges = [], m_counters = [], m_labeled = []\<rparr>"

definition SetGauge :: "string \<Rightarrow> f64 \<Rightarrow> metrics \<Rightarrow> metrics" where
  "SetGauge name v m = m\<lparr>m_gauges := map_set name v (m_gauges m)\<rparr>"

definition GetGauge :: "string \<Rightarrow> metrics \<Rightarrow> f64" where
  "GetGauge name m = (case map_get (m_gauges m) name of None \<Rightarrow> Fin 0 | Some v \<Rightarrow> v)"

definition counter_value :: "string \<Rightarrow> metrics \<Rightarrow> 64 word" where
  "counter_value name m = (case map_get (m_counters m) name of None \<Rightarrow> 0 | Some n \<Rightarrow> n)"

definition AddCounter :: "string \<Rightarrow> 64 word \<Rightarrow> metrics \<Rightarrow> metrics" where
  "AddCounter name delta m = m\<lparr>m_counters := map_set name (counter_value name m + delta) (m_counters m)\<rparr>"

definition IncCounter :: "string \<Rightarrow> metrics \<Rightarrow> metrics" where
  "IncCounter name m = m\<lparr>m_counters := map_set name (counter_value name m + 1) (m_counters m)\<rparr>"

definition labels_of :: "string \<Rightarrow> metrics \<Rightarrow> (string, f64) go_map" where
  "labels_of name m = (case map_get (m_labeled m) name of None \<Rightarrow> [] | Some l \<Rightarrow> l)"

definition SetLabeled :: "string \<Rightarrow> string \<Rightarrow> f64 \<Rightarrow> metrics \<Rightarrow> metrics" where
  "SetLabeled name label v m =
     m\<lparr>m_labeled := map_set name (map_set label v (labels_of name m)) (m_labeled m)\<rparr>"

definition LabeledValue :: "string \<Rightarrow> string \<Rightarrow> metrics \<Rightarrow> f64" where
  "LabeledValue name label m =
     (case map_get (m_labeled m) name of
        None \<Rightarrow> Fin 0
      | Some l \<Rightarrow> (case map_get l label of None \<Rightarrow> Fin 0 | Some v \<Rightarrow> v))"

text \<open>Well-formed registries, and what each update does to the values read.\<close>

definition metrics_ok :: "metrics \<Rightarrow> bool" where
  "metrics_ok m \<longleftrightarrow> map_wf (m_gauges m) \<and> map_wf (m_counters m) \<and> map_wf (m_labeled m)
     \<and> (\<forall>n l. map_get (m_labeled m) n = Some l \<longrightarrow> map_wf l)"

lemma metrics_ok_new: "metrics_ok NewMetrics"
  by (simp add: metrics_ok_def NewMetrics_def gm.wf_empty gm.get_empty)

lemma labels_of_wf: "metrics_ok m \<Longrightarrow> map_wf (labels_of name m)"
  by (auto simp: labels_of_def metrics_ok_def gm.wf_empty split: option.split)

lemma metrics_ok_updates:
  assumes "metrics_ok m"
  shows "metrics_ok (SetGauge n v m)" "metrics_ok (AddCounter n k m)" "metrics_ok (IncCounter n m)"
    "metrics_ok (SetLabeled n l v m)"
  using assms labels_of_wf [OF assms, of n]
  by (auto simp: metrics_ok_def SetGauge_def AddCounter_def IncCounter_def SetLabeled_def gm.wf_put gm.get_put
      split: if_splits)

lemma counter_value_AddCounter:
  "metrics_ok m \<Longrightarrow> counter_value k (AddCounter n delta m) = counter_value k m + (if k = n then delta else 0)"
  by (simp add: counter_value_def AddCounter_def metrics_ok_def gm.get_put split: option.split)

lemma counter_value_IncCounter [simp]:
  "metrics_ok m \<Longrightarrow> counter_value k (IncCounter n m) = counter_value k m + (if k = n then 1 else 0)"
  by (simp add: counter_value_def IncCounter_def metrics_ok_def gm.get_put split: option.split)

lemma other_metrics [simp]:
  "counter_value k (SetGauge n v m) = counter_value k m" "counter_value k (SetLabeled n l v m) = counter_value k m"
  "LabeledValue k j (SetGauge n v m) = LabeledValue k j m" "LabeledValue k j (AddCounter n d m) = LabeledValue k j m"
  "LabeledValue k j (IncCounter n m) = LabeledValue k j m"
  by (simp_all add: counter_value_def LabeledValue_def SetGauge_def SetLabeled_def AddCounter_def IncCounter_def)

lemma GetGauge_SetGauge:
  "metrics_ok m \<Longrightarrow> GetGauge k (SetGauge n v m) = (if k = n then v else GetGauge k m)"
  by (simp add: GetGauge_def SetGauge_def metrics_ok_def gm.get_put)

lemma LabeledValue_SetLabeled:
  assumes "metrics_ok m"
  shows "LabeledValue k j (SetLabeled n l v m) = (if k = n \<and> j = l then v else LabeledValue k j m)"
  using assms labels_of_wf [OF assms, of n]
  by (auto simp: LabeledValue_def SetLabeled_def labels_of_def metrics_ok_def gm.get_put gm.get_empty
      split: option.split)

section \<open>Any sequence of updates\<close>

datatype metric_op = MSet string f64 | MAdd string "64 word" | MInc string | MLabel string string f64

primrec metric_exec :: "metric_op \<Rightarrow> metrics \<Rightarrow> metrics" where
  "metric_exec (MSet n v) m = SetGauge n v m"
| "metric_exec (MAdd n k) m = AddCounter n k m"
| "metric_exec (MInc n) m = IncCounter n m"
| "metric_exec (MLabel n l v) m = SetLabeled n l v m"

fun added :: "string \<Rightarrow> metric_op \<Rightarrow> 64 word" where
  "added k (MAdd n d) = (if n = k then d else 0)"
| "added k (MInc n) = (if n = k then 1 else 0)"
| "added k _ = 0"

text \<open>
  Counters count. After any sequence of updates of a fresh registry a counter holds the
  sum of what was added to it, modulo \<open>2 ^ 64\<close>, and a labelled gauge the last value set for that
  name and label; other metrics never interfere.
\<close>

theorem metrics_hold_last_and_sum:
  "counter_value k (fold metric_exec ops NewMetrics) = sum_list (map (added k) ops)
   \<and> LabeledValue n l (fold metric_exec ops NewMetrics) =
      fold (\<lambda>x v. case x of MLabel n' l' v' \<Rightarrow> if n' = n \<and> l' = l then v' else v | _ \<Rightarrow> v) ops (Fin 0)"
proof -
  have ok: "metrics_ok m \<Longrightarrow> metrics_ok (metric_exec x m)" for x m
    by (cases x) (simp_all add: metrics_ok_updates)
  have c: "metrics_ok m \<Longrightarrow> counter_value k (fold metric_exec ops m) = counter_value k m + sum_list (map (added k) ops)" for m
  proof (induction ops arbitrary: m)
    case (Cons x ops)
    have "counter_value k (metric_exec x m) = counter_value k m + added k x"
      using Cons.prems by (cases x) (auto simp: counter_value_AddCounter)
    with Cons.IH [OF ok [OF Cons.prems, of x]] show ?case by simp
  qed simp
  have l: "metrics_ok m \<Longrightarrow> LabeledValue n l (fold metric_exec ops m) =
      fold (\<lambda>x v. case x of MLabel n' l' v' \<Rightarrow> if n' = n \<and> l' = l then v' else v | _ \<Rightarrow> v) ops (LabeledValue n l m)" for m
  proof (induction ops arbitrary: m)
    case (Cons x ops)
    have "LabeledValue n l (metric_exec x m) =
        (case x of MLabel n' l' v' \<Rightarrow> if n' = n \<and> l' = l then v' else LabeledValue n l m | _ \<Rightarrow> LabeledValue n l m)"
      using Cons.prems
      by (cases x) (auto simp: LabeledValue_SetLabeled)
    with Cons.IH [OF ok [OF Cons.prems, of x]] show ?case by simp
  qed simp
  have "counter_value k NewMetrics = 0" "LabeledValue n l NewMetrics = Fin 0"
    by (simp_all add: counter_value_def LabeledValue_def NewMetrics_def gm.get_empty)
  with c [OF metrics_ok_new] l [OF metrics_ok_new] show ?thesis by simp
qed

end
