(* ===== verification/MetricsText.thy ===== *)
theory MetricsText
  imports Metrics Strconv
begin

text \<open>
  The text exposition of the metrics registry: \<open>Metrics.Text\<close> of \<^verbatim>\<open>internal/obs/metrics.go\<close> and
  the number formats of \<^verbatim>\<open>internal/obs/format.go\<close>. \<open>Range\<close> visits a \<open>sync.Map\<close> in any order;
  the names and rows are sorted afterwards, so the text does not depend on it. The theorem
  reads the text back.
\<close>

definition formatFloat :: "f64 \<Rightarrow> string" where
  "formatFloat v = (if feq v (Fin 0) then ''0'' else FormatFloat fmt_g v)"

definition formatUint :: "64 word \<Rightarrow> string" where
  "formatUint v = FormatUint v"

abbreviation newline :: char where
  "newline \<equiv> CHR 0x0A"

definition type_line :: "string \<Rightarrow> string \<Rightarrow> string" where
  "type_line name kind = ''# TYPE '' @ name @ '' '' @ kind @ [newline]"

definition gauge_text :: "metrics \<Rightarrow> string" where
  "gauge_text m = concat (map (\<lambda>name. type_line name ''gauge''
     @ name @ '' '' @ formatFloat (GetGauge name m) @ [newline]) (sort (map fst (m_gauges m))))"

definition labeled_rows :: "string \<Rightarrow> (string, f64) go_map \<Rightarrow> string list" where
  "labeled_rows name labels =
     sort (map (\<lambda>(label, v). name @ ''{'' @ label @ ''} '' @ formatFloat v) labels)"

definition labeled_text :: "metrics \<Rightarrow> string" where
  "labeled_text m = concat (map (\<lambda>name. type_line name ''gauge''
     @ concat (map (\<lambda>r. r @ [newline]) (labeled_rows name (labels_of name m)))) (sort (map fst (m_labeled m))))"

definition counter_text :: "metrics \<Rightarrow> string" where
  "counter_text m = concat (map (\<lambda>name. type_line name ''counter''
     @ name @ '' '' @ formatUint (counter_value name m) @ [newline]) (sort (map fst (m_counters m))))"

definition Text :: "metrics \<Rightarrow> string" where
  "Text m = gauge_text m @ labeled_text m @ counter_text m"

section \<open>Reading the text\<close>

text \<open>A sample is a line that is not a comment: a name, a space and a number.\<close>

definition sample_of_line :: "string \<Rightarrow> string \<times> string" where
  "sample_of_line l = (rev (tl (dropWhile (\<lambda>c. c \<noteq> CHR '' '') (rev l))), rev (takeWhile (\<lambda>c. c \<noteq> CHR '' '') (rev l)))"

definition samples :: "string \<Rightarrow> (string \<times> string) list" where
  "samples t = map sample_of_line (filter (\<lambda>l. l \<noteq> [] \<and> hd l \<noteq> CHR ''#'') (split_at newline t))"

text \<open>Names and labels that keep to one line.\<close>

definition one_line :: "string \<Rightarrow> bool" where
  "one_line s \<longleftrightarrow> newline \<notin> set s"

definition metric_name :: "string \<Rightarrow> bool" where
  "metric_name s \<longleftrightarrow> one_line s \<and> s \<noteq> [] \<and> hd s \<noteq> CHR ''#''"

text \<open>The characters of a number.\<close>

definition plain :: "string \<Rightarrow> bool" where
  "plain s \<longleftrightarrow> newline \<notin> set s \<and> CHR '' '' \<notin> set s"

lemma plain_simps [simp]:
  "plain []" "plain (c # s) \<longleftrightarrow> c \<noteq> newline \<and> c \<noteq> CHR '' '' \<and> plain s" "plain (a @ b) \<longleftrightarrow> plain a \<and> plain b"
  by (auto simp: plain_def)

lemma not_digit [simp]: "\<not> is_digit newline" "\<not> is_digit CHR '' ''"
  by (simp_all add: is_digit_def)

lemma plain_digits: "all_digits s \<Longrightarrow> plain s"
  by (auto simp: all_digits_def plain_def is_digit_def)

lemma plain_fmt_g: "all_digits (fst d) \<Longrightarrow> plain (fmt_g d)"
proof -
  assume a: "all_digits (fst d)"
  obtain ds dp where d: "d = (ds, dp)" by fastforce
  have ds: "all_digits ds" "all_digits (tl ds)" "plain (take n ds)" "plain (drop n ds)" "plain (zeros n)" for n
    using a by (simp_all add: d plain_digits)
  then have "plain ds" "plain (tl ds)" "\<And>c r. ds = c # r \<Longrightarrow> plain [c]" "plain (decimal n)" for n
    using plain_digits decimal_digits by auto
  with ds show "plain (fmt_g d)"
    by (cases ds) (auto simp: d fmt_g_def fmt_e_def fmt_f_def frac_text_def exp_sign_def exp_digits_def Let_def)
qed

lemma all_digits_slice: "all_digits (fst (decimal_slice x))"
proof (cases "x = 0")
  case False
  obtain c k where s: "shortest x = (c, k)" by fastforce
  obtain n where "decimal (nat c) = strip_zeros (decimal (nat c)) @ zeros n" using strip_zeros_split by blast
  then have "all_digits (strip_zeros (decimal (nat c)))" using decimal_digits by (metis all_digits_simps(3))
  with False s show ?thesis by (simp add: decimal_slice_def Let_def)
qed (simp add: decimal_slice_def)

lemma plain_formats: "plain (formatFloat v)" "plain (formatUint n)"
proof -
  note p = plain_fmt_g [OF all_digits_slice]
  show "plain (formatFloat v)" by (cases v) (auto simp: formatFloat_def FormatFloat_def p)
  show "plain (formatUint n)" using plain_digits decimal_digits by (simp add: formatUint_def FormatUint_def)
qed

lemma sample_of_line_text: "plain v \<Longrightarrow> sample_of_line (name @ CHR '' '' # v) = (name, v)"
proof -
  assume "plain v"
  then have "takeWhile (\<lambda>c. c \<noteq> CHR '' '') (rev v @ CHR '' '' # rev name) = rev v"
    "dropWhile (\<lambda>c. c \<noteq> CHR '' '') (rev v @ CHR '' '' # rev name) = CHR '' '' # rev name"
    by (auto simp: plain_def takeWhile_append dropWhile_append)
  then show ?thesis by (simp add: sample_of_line_def)
qed

lemma samples_line:
  "one_line l \<Longrightarrow> samples (l @ newline # t) = (if l \<noteq> [] \<and> hd l \<noteq> CHR ''#'' then [sample_of_line l] else []) @ samples t"
  by (simp add: samples_def one_line_def split_at_append)

lemma samples_empty [simp]: "samples [] = []"
  by (simp add: samples_def)

lemma samples_type_line: "one_line name \<Longrightarrow> one_line kind \<Longrightarrow> samples (type_line name kind @ t) = samples t"
  using samples_line [of "''# TYPE '' @ name @ '' '' @ kind" t] by (simp add: type_line_def one_line_def)

lemma samples_value:
  assumes "metric_name name" and "plain v"
  shows "samples (name @ CHR '' '' # v @ newline # t) = (name, v) # samples t"
  using samples_line [of "name @ CHR '' '' # v" t] assms sample_of_line_text [of v name]
  by (simp add: metric_name_def one_line_def plain_def)

lemma samples_names:
  assumes "\<forall>n \<in> set ns. metric_name n" and "\<And>n. plain (val n)" and "one_line kind"
  shows "samples (concat (map (\<lambda>n. type_line n kind @ n @ '' '' @ val n @ [newline]) ns) @ t)
    = map (\<lambda>n. (n, val n)) ns @ samples t"
  using assms(1)
proof (induction ns)
  case (Cons n ns)
  then have "metric_name n" "one_line n" by (simp_all add: metric_name_def)
  then show ?case using Cons assms(2,3) by (simp add: samples_type_line samples_value)
qed simp

lemma samples_rows:
  assumes "\<forall>r \<in> set rs. metric_name r"
  shows "samples (concat (map (\<lambda>r. r @ [newline]) rs) @ t) = map sample_of_line rs @ samples t"
  using assms by (induction rs) (auto simp: samples_line metric_name_def)

lemma mset_concat_sort: "mset (concat (map f (sort xs))) = mset (concat (map f xs))"
  by (simp add: mset_concat comp_def flip: sum_mset_sum_list)

lemma mset_concat_cong:
  "(\<And>x. x \<in> set xs \<Longrightarrow> mset (f x) = mset (g x)) \<Longrightarrow> mset (concat (map f xs)) = mset (concat (map g xs))"
  by (induction xs) simp_all

lemma mset_by_name:
  assumes "map_wf m"
  shows "mset (map (\<lambda>n. (n, g (case map_get m n of None \<Rightarrow> z | Some v \<Rightarrow> v))) (sort (map fst m)))
    = mset (map (\<lambda>(n, v). (n, g v)) m)"
proof -
  have "image_mset (\<lambda>p. (fst p, g (case map_get m (fst p) of None \<Rightarrow> z | Some v \<Rightarrow> v))) (mset m)
      = image_mset (\<lambda>(n, v). (n, g v)) (mset m)"
    using assms by (intro image_mset_cong) (auto simp: map_defs)
  then show ?thesis by (simp add: image_mset.compositionality comp_def)
qed

text \<open>
  C31: the exposition can be read back. The samples of the text are exactly the gauges, the
  labelled gauges and the counters of the registry, each once and under its name; the number of
  a finite gauge reads back as its value and that of a counter as its count.
\<close>

theorem text_roundtrip:
  assumes "metrics_ok m"
    and "\<forall>n \<in> fst ` set (m_gauges m) \<union> fst ` set (m_labeled m) \<union> fst ` set (m_counters m). metric_name n"
    and "\<forall>(n, ls) \<in> set (m_labeled m). \<forall>l \<in> fst ` set ls. one_line l"
  shows "mset (samples (Text m)) = mset (map (\<lambda>(n, v). (n, formatFloat v)) (m_gauges m))
      + mset (concat (map (\<lambda>(n, ls). map (\<lambda>(l, v). (n @ ''{'' @ l @ ''}'', formatFloat v)) ls) (m_labeled m)))
      + mset (map (\<lambda>(n, c). (n, formatUint c)) (m_counters m))
    \<and> (\<forall>v. ffinite v \<and> wff v \<longrightarrow> (\<exists>w. parse_float (formatFloat v) = Some w \<and> feq w v))
    \<and> (\<forall>c. digits_val (formatUint c) = unat c)"
proof -
  have kinds: "one_line ''gauge''" "one_line ''counter''" by (simp_all add: one_line_def)
  have wf: "map_wf (m_gauges m)" "map_wf (m_labeled m)" "map_wf (m_counters m)" using assms(1) by (simp_all add: metrics_ok_def)
  let ?lab = "\<lambda>n. map sample_of_line (labeled_rows n (labels_of n m))"
  have row: "metric_name r" if "metric_name n" "\<forall>l \<in> fst ` set ls. one_line l" "r \<in> set (labeled_rows n ls)" for n ls r
    using that plain_formats(1) by (auto simp: labeled_rows_def metric_name_def one_line_def plain_def)
  have labels: "\<forall>l \<in> fst ` set (labels_of n m). one_line l" for n
    using assms(3) by (cases "map_get (m_labeled m) n") (fastforce simp: labels_of_def map_defs dest: map_of_SomeD)+
  have lab: "samples (concat (map (\<lambda>name. type_line name ''gauge''
      @ concat (map (\<lambda>r. r @ [newline]) (labeled_rows name (labels_of name m)))) ns) @ t)
      = concat (map ?lab ns) @ samples t" if "\<forall>n \<in> set ns. metric_name n" for ns t
    using that
  proof (induction ns)
    case (Cons n ns)
    then have n: "metric_name n" "one_line n" by (simp_all add: metric_name_def)
    then have "\<forall>r \<in> set (labeled_rows n (labels_of n m)). metric_name r" using row labels by blast
    from samples_rows [OF this] Cons n kinds show ?case by (simp add: samples_type_line)
  qed simp
  have "samples (Text m) = map (\<lambda>n. (n, formatFloat (GetGauge n m))) (sort (map fst (m_gauges m)))
      @ concat (map ?lab (sort (map fst (m_labeled m))))
      @ map (\<lambda>n. (n, formatUint (counter_value n m))) (sort (map fst (m_counters m)))"
  proof -
    have "\<forall>n \<in> set (sort (map fst (m_gauges m))). metric_name n" "\<forall>n \<in> set (sort (map fst (m_labeled m))). metric_name n"
      "\<forall>n \<in> set (sort (map fst (m_counters m))). metric_name n" using assms(2) by auto
    then show ?thesis
      using samples_names [OF _ _ kinds(1), of _ "\<lambda>n. formatFloat (GetGauge n m)"] lab
        samples_names [OF _ _ kinds(2), of _ "\<lambda>n. formatUint (counter_value n m)" "[]"]
      by (simp add: Text_def gauge_text_def labeled_text_def counter_text_def plain_formats)
  qed
  moreover have "mset (map (\<lambda>n. (n, formatFloat (GetGauge n m))) (sort (map fst (m_gauges m))))
      = mset (map (\<lambda>(n, v). (n, formatFloat v)) (m_gauges m))"
    unfolding GetGauge_def by (rule mset_by_name [OF wf(1)])
  moreover have "mset (map (\<lambda>n. (n, formatUint (counter_value n m))) (sort (map fst (m_counters m))))
      = mset (map (\<lambda>(n, c). (n, formatUint c)) (m_counters m))"
    unfolding counter_value_def by (rule mset_by_name [OF wf(3)])
  moreover have "mset (concat (map ?lab (sort (map fst (m_labeled m)))))
      = mset (concat (map (\<lambda>(n, ls). map (\<lambda>(l, v). (n @ ''{'' @ l @ ''}'', formatFloat v)) ls) (m_labeled m)))"
  proof -
    have rows: "mset (map sample_of_line (labeled_rows n ls)) = mset (map (\<lambda>(l, v). (n @ ''{'' @ l @ ''}'', formatFloat v)) ls)" for n ls
    proof -
      have "sample_of_line (n @ ''{'' @ l @ ''} '' @ formatFloat v) = (n @ ''{'' @ l @ ''}'', formatFloat v)" for l v
        using sample_of_line_text [OF plain_formats(1), of "n @ ''{'' @ l @ ''}''" v] by simp
      then show ?thesis by (simp add: labeled_rows_def case_prod_unfold image_mset.compositionality comp_def)
    qed
    have "mset (concat (map ?lab (sort (map fst (m_labeled m))))) = mset (concat (map ?lab (map fst (m_labeled m))))"
      by (rule mset_concat_sort)
    also have "\<dots> = mset (concat (map (\<lambda>(n, ls). map (\<lambda>(l, v). (n @ ''{'' @ l @ ''}'', formatFloat v)) ls) (m_labeled m)))"
    proof -
      have l: "labels_of (fst p) m = snd p" if "p \<in> set (m_labeled m)" for p
      proof -
        have "map_of (m_labeled m) (fst p) = Some (snd p)"
          by (rule map_of_is_SomeI) (use wf(2) that in \<open>simp_all add: map_wf_def\<close>)
        then show ?thesis by (simp add: labels_of_def map_get_def)
      qed
      show ?thesis unfolding map_map
      proof (rule mset_concat_cong)
        fix p assume "p \<in> set (m_labeled m)"
        then show "mset ((?lab \<circ> fst) p) = mset (case p of (n, ls) \<Rightarrow> map (\<lambda>(l, v). (n @ ''{'' @ l @ ''}'', formatFloat v)) ls)"
          unfolding comp_apply l [OF \<open>p \<in> set (m_labeled m)\<close>] rows by (simp add: case_prod_unfold)
      qed
    qed
    finally show ?thesis .
  qed
  moreover have "\<exists>w. parse_float (formatFloat v) = Some w \<and> feq w v" if "ffinite v" "wff v" for v
  proof (cases "feq v (Fin 0)")
    case True
    have "FormatFloat fmt_g (Fin 0) = ''0''" by (simp add: FormatFloat_def decimal_slice_def fmt_g_def fmt_f_def)
    then have "parse_float ''0'' = Some (Fin 0)"
      using number_FormatFloat [of fmt_g "Fin 0"] by (simp add: float_format_def)
    with True show ?thesis by (auto simp: formatFloat_def feq_def)
  next
    case False
    then show ?thesis using number_FormatFloat [of fmt_g v] that by (simp add: formatFloat_def float_format_def feq_def)
  qed
  moreover have "digits_val (formatUint c) = unat c" for c
    using decimal_digits by (simp add: formatUint_def FormatUint_def)
  ultimately show ?thesis by (simp add: add.assoc)
qed

definition sample_metrics :: metrics where
  "sample_metrics = SetLabeled ''used'' ''p'' (Fin 2) (AddCounter ''hits'' 7 (SetGauge ''size'' (Fin (1 / 2)) NewMetrics))"

theorem text_roundtrip_witness:
  "(''hits'', formatUint 7) \<in> set (samples (Text sample_metrics)) \<and> digits_val (formatUint 7) = 7
   \<and> length (samples (Text sample_metrics)) = 3"
proof -
  have ok: "metrics_ok sample_metrics"
    unfolding sample_metrics_def by (intro metrics_ok_updates metrics_ok_new)
  have m: "m_gauges sample_metrics = [(''size'', Fin (1 / 2))]" "m_labeled sample_metrics = [(''used'', [(''p'', Fin 2)])]"
    "m_counters sample_metrics = [(''hits'', 7)]"
    by (simp_all add: sample_metrics_def SetLabeled_def AddCounter_def SetGauge_def NewMetrics_def map_defs
        labels_of_def counter_value_def)
  have names: "\<forall>n \<in> fst ` set (m_gauges sample_metrics) \<union> fst ` set (m_labeled sample_metrics)
      \<union> fst ` set (m_counters sample_metrics). metric_name n"
    by (simp add: m metric_name_def one_line_def)
  have labels: "\<forall>(n, ls) \<in> set (m_labeled sample_metrics). \<forall>l \<in> fst ` set ls. one_line l"
    by (simp add: m one_line_def)
  note r = text_roundtrip [OF ok names labels, unfolded m]
  then have eq: "mset (samples (Text sample_metrics))
      = {#(''hits'', formatUint 7), (''used{p}'', formatFloat (Fin 2)), (''size'', formatFloat (Fin (1 / 2)))#}"
    by simp
  have "length (samples (Text sample_metrics)) = 3" using arg_cong [OF eq, of size] by (simp only: size_mset) simp
  moreover have "(''hits'', formatUint 7) \<in> set (samples (Text sample_metrics))"
    using arg_cong [OF eq, of set_mset] by (simp only: set_mset_mset) simp
  ultimately show ?thesis using r by simp
qed

end
