(* ===== verification/StoreFacts.thy ===== *)
theory StoreFacts
  imports Store
begin

text \<open>
  What the queries and updates of \<^verbatim>\<open>internal/store\<close> compute beyond the table invariant: the
  usage counters count fetches per UTC day, \<open>PruneOlderThan\<close> removes exactly the old readings
  and none that a rate is computed from, \<open>ListProviders\<close> orders by priority and name,
  \<open>LatestReadingAt\<close> is the newest time stored, and \<open>History\<close> with its \<open>downsample\<close> loop is
  grouping by bucket start and averaging.
\<close>

section \<open>Usage counters\<close>

definition count_fetch :: "engine \<Rightarrow> int \<times> time \<Rightarrow> db \<Rightarrow> db" where
  "count_fetch E pt d = snd (IncrementUsage E (fst pt) (snd pt) d)"

lemma count_fetch_ok:
  assumes "\<forall>n. fault E n = None" and "db_ok d" and "fmt_range t" and "fmt_range u"
  shows "db_ok (count_fetch E (p, t) d)"
    and "usage_count (count_fetch E (p, t) d) q u =
      usage_count d q u + (if q = p \<and> day_number u = day_number t then 1 else 0)"
proof -
  show "db_ok (count_fetch E (p, t) d)" using assms(2) by (simp add: count_fetch_def db_ok_IncrementUsage)
  obtain d' where "IncrementUsage E p t d = (Inr (), d')"
    using assms(1) by (cases "map_get (usage d) (p, fmt_day t)") (auto simp: IncrementUsage_def go_simps)
  with IncrementUsage_count [OF assms(2,3,4) this, of q]
  show "usage_count (count_fetch E (p, t) d) q u =
      usage_count d q u + (if q = p \<and> day_number u = day_number t then 1 else 0)"
    by (simp add: count_fetch_def)
qed

text \<open>
  C28: the usage counter of a provider counts its fetches of the UTC day. After any sequence of
  \<open>IncrementUsage\<close> calls, \<open>UsageToday\<close> answers with the counter before the sequence plus the
  number of calls for that provider whose time falls on the same UTC day, whatever the other
  calls were for.
\<close>

theorem usage_counts_fetches:
  assumes "\<forall>n. fault E n = None" and "db_ok d" and "fmt_range u"
    and "\<forall>pt \<in> set calls. fmt_range (snd pt)"
  shows "fst (UsageToday E q u (fold (count_fetch E) calls d)) =
    Inr (usage_count d q u
         + int (length (filter (\<lambda>pt. fst pt = q \<and> day_number (snd pt) = day_number u) calls)))"
proof -
  have "usage_count (fold (count_fetch E) calls d) q u = usage_count d q u
      + int (length (filter (\<lambda>pt. fst pt = q \<and> day_number (snd pt) = day_number u) calls))"
    using assms(2,4)
  proof (induction calls arbitrary: d)
    case (Cons pt calls)
    then show ?case
      using count_fetch_ok [OF assms(1) Cons.prems(1) _ assms(3), of "snd pt" "fst pt"] by auto
  qed simp
  then show ?thesis using assms(1) by (simp add: UsageToday_ok usage_count_def)
qed

theorem usage_counts_fetches_witness:
  "fst (UsageToday plain_engine 1 0 (fold (count_fetch plain_engine)
     [(1, 0), (2, 0), (1, 5 * ns_per_sec), (1, 90000 * ns_per_sec)] sample_db)) = Inr 2"
proof -
  have days: "day_number 0 = 0" "day_number (5 * ns_per_sec) = 0" "day_number (90000 * ns_per_sec) = 1"
    by (simp_all add: day_number_def ns_per_sec_def)
  have "fst (UsageToday plain_engine 1 0 (fold (count_fetch plain_engine)
      [(1, 0), (2, 0), (1, 5 * ns_per_sec), (1, 90000 * ns_per_sec)] sample_db)) =
    Inr (usage_count sample_db 1 0 + int (length (filter
      (\<lambda>pt. fst pt = (1::int) \<and> day_number (snd pt) = day_number 0)
      [(1, 0), (2, 0), (1, 5 * ns_per_sec), (1, 90000 * ns_per_sec)])))"
    by (rule usage_counts_fetches) (simp_all add: sample_db_ok)
  then show ?thesis by (simp add: days usage_count_def map_get_def)
qed

section \<open>Pruning\<close>

lemma PruneOlderThan_rows:
  assumes "stamped d" and "fmt_range c" and "fault E (stmts d) = None"
  shows "readings (snd (PruneOlderThan E c d)) = filter (\<lambda>r. to_second c \<le> row_time r) (readings d)"
    and "fst (PruneOlderThan E c d) = Inr (int (length (filter (\<lambda>r. row_time r < to_second c) (readings d))))"
proof -
  have keep: "filter (\<lambda>r. \<not> rr_fetched_at r < fmt_rfc3339 c) (readings d)
      = filter (\<lambda>r. to_second c \<le> row_time r) (readings d)"
    by (rule filter_cong) (use assms in \<open>auto simp: stamped_row_ge\<close>)
  then show "readings (snd (PruneOlderThan E c d)) = filter (\<lambda>r. to_second c \<le> row_time r) (readings d)"
    using assms(3) by (simp add: PruneOlderThan_def go_simps Let_def)
  have "length (readings d) = length (filter (\<lambda>r. to_second c \<le> row_time r) (readings d))
      + length (filter (\<lambda>r. row_time r < to_second c) (readings d))"
    using sum_length_filter_compl [of "\<lambda>r. to_second c \<le> row_time r" "readings d"] by (simp add: not_le)
  with keep show "fst (PruneOlderThan E c d)
      = Inr (int (length (filter (\<lambda>r. row_time r < to_second c) (readings d))))"
    using assms(3) by (simp add: PruneOlderThan_def go_simps Let_def)
qed

lemma stamped_prune: "stamped d \<Longrightarrow> stamped (snd (PruneOlderThan E c d))"
  using stamped_exec_op [of d "OpPrune c" E] by (simp add: op_in_range_def)

text \<open>
  Pruning is safe for the rates. \<open>PruneOlderThan\<close> deletes exactly the readings stored with
  a time before the cutoff (to the second), reports how many these were and touches neither
  providers nor usage counters; and a query for the newest readings of a quote since some time
  not before the cutoff finds the same readings after it as before.
\<close>

theorem prune_removes_exactly_old:
  assumes "stamped d" and "fmt_range c" and "fault E (stmts d) = None"
    and "fmt_range since" and "c \<le> since"
  shows "fst (PruneOlderThan E c d) = Inr (int (length (filter (\<lambda>r. row_time r < to_second c) (readings d))))
    \<and> readings (snd (PruneOlderThan E c d)) = filter (\<lambda>r. to_second c \<le> row_time r) (readings d)
    \<and> providers (snd (PruneOlderThan E c d)) = providers d
    \<and> usage (snd (PruneOlderThan E c d)) = usage d
    \<and> latest_rows q (fmt_rfc3339 since) (snd (PruneOlderThan E c d)) = latest_rows q (fmt_rfc3339 since) d"
proof -
  note rows = PruneOlderThan_rows [OF assms(1,2,3)]
  have "to_second c \<le> to_second since" using assms(5) by (rule to_second_mono)
  then have "latest_rows q (fmt_rfc3339 since) (snd (PruneOlderThan E c d)) = latest_rows q (fmt_rfc3339 since) d"
    unfolding latest_rows_time [OF assms(1,4)] latest_rows_time [OF stamped_prune [OF assms(1)] assms(4)] rows(1) filter_filter
    by (intro filter_cong) (fastforce simp: newest_row_def rows(1))+
  moreover have "providers (snd (PruneOlderThan E c d)) = providers d"
    "usage (snd (PruneOlderThan E c d)) = usage d"
    using assms(3) by (simp_all add: PruneOlderThan_def go_simps Let_def)
  ultimately show ?thesis using rows by blast
qed

theorem prune_removes_exactly_old_witness:
  "fst (PruneOlderThan plain_engine (12 * ns_per_sec) sample_db) = Inr 1
   \<and> readings (snd (PruneOlderThan plain_engine (12 * ns_per_sec) sample_db))
       = [sample_row 2 1 5 20, sample_row 3 2 6 15]"
  using prune_removes_exactly_old [OF sample_db_stamped, of "12 * ns_per_sec" plain_engine "12 * ns_per_sec"]
  by simp

section \<open>Provider order and newest reading\<close>

text \<open>
  \<open>ListProviders\<close> returns every stored provider once, in descending priority and, within
  one priority, in ascending name, and changes no table.
\<close>

theorem list_providers_ordered:
  assumes "ListProviders E d = (Inr ps, d')" and "db_ok d"
  shows "mset ps = mset (map (row_provider E) (providers d)) \<and> same_tables d d'
    \<and> sorted_wrt (\<lambda>p q. sint (p_Priority q) < sint (p_Priority p)
         \<or> sint (p_Priority p) = sint (p_Priority q) \<and> p_Name p < p_Name q) ps"
proof -
  let ?s = "sort_key (\<lambda>r. - sint (pr_priority r)) (sort_key pr_name (providers d))"
  have ps: "ps = map (row_provider E) ?s"
    using assms(1) by (auto simp: ListProviders_def split: stmt_split_asm)
  have same: "same_tables d d'" using same_tables_queries(1) [of d E] assms(1) by simp
  have "sorted_wrt (\<lambda>r q. - sint (pr_priority r) < - sint (pr_priority q)
      \<or> sint (pr_priority r) = sint (pr_priority q) \<and> pr_name r < pr_name q) ?s"
    using sort_key_sort_key [of pr_name "providers d" "\<lambda>r. - sint (pr_priority r)"] assms(2)
    by (simp add: db_ok_defs)
  then have "sorted_wrt (\<lambda>p q. sint (p_Priority q) < sint (p_Priority p)
         \<or> sint (p_Priority p) = sint (p_Priority q) \<and> p_Name p < p_Name q) ps"
    unfolding ps sorted_wrt_map by (simp add: row_provider_def)
  with ps same show ?thesis by simp
qed

theorem list_providers_ordered_witness:
  "\<exists>ps d'. ListProviders plain_engine sample_db = (Inr ps, d') \<and> map p_Name ps = [''frankfurter'', ''yahoo'']"
proof -
  obtain ps d' where l: "ListProviders plain_engine sample_db = (Inr ps, d')"
    by (simp add: ListProviders_def go_simps)
  from list_providers_ordered [OF l sample_db_ok]
  have m: "mset ps = mset [row_provider plain_engine (sample_provider 1 ''yahoo''),
        row_provider plain_engine (sample_provider 2 ''frankfurter'')]"
    and s: "sorted_wrt (\<lambda>p q. sint (p_Priority q) < sint (p_Priority p)
       \<or> sint (p_Priority p) = sint (p_Priority q) \<and> p_Name p < p_Name q) ps" by simp_all
  have "image_mset p_Name (mset ps) = {#''yahoo'', ''frankfurter''#}"
    unfolding m by (simp add: row_provider_def sample_provider_def)
  then have names: "mset (map p_Name ps) = mset [''frankfurter'', ''yahoo'']" by simp
  have one: "\<forall>p \<in> set ps. p_Priority p = 1"
  proof -
    have "set ps = set_mset (mset ps)" by simp
    then show ?thesis unfolding m by (simp add: row_provider_def sample_provider_def)
  qed
  have "sorted_wrt (\<lambda>p q. p_Name p \<le> p_Name q) ps"
    by (rule sorted_wrt_mono_rel [OF _ s]) (use one in auto)
  then have "sorted (map p_Name ps)" by (simp add: sorted_wrt_map)
  moreover have "sorted [''frankfurter'', ''yahoo'']" by code_simp
  moreover from this have "sort [''frankfurter'', ''yahoo''] = [''frankfurter'', ''yahoo'']"
    by (rule sort_key_id_if_sorted [of "\<lambda>x. x", simplified])
  ultimately have "map p_Name ps = [''frankfurter'', ''yahoo'']"
    using properties_for_sort [OF names] by argo
  with l show ?thesis by (intro exI conjI)
qed

text \<open>
  \<open>LatestReadingAt\<close>, the freshness probe of the health endpoints, answers with no time
  exactly when no reading is stored, and otherwise with the newest time of any stored reading.
\<close>

theorem latest_reading_at_newest:
  assumes "stamped d" and "fault E (stmts d) = None"
  shows "fst (LatestReadingAt E d) =
    Inr (if readings d = [] then None else Some (Max (row_time ` set (readings d))))"
proof (cases "map rr_fetched_at (readings d)")
  case Nil
  then show ?thesis using assms(2) by (simp add: LatestReadingAt_def go_simps)
next
  case (Cons t ts)
  have s: "set (t # ts) = rr_fetched_at ` set (readings d)" by (simp flip: Cons)
  have "fold max ts t = Max (set (t # ts))" by (simp add: Max.set_eq_fold del: list.set)
  also have "Max (set (t # ts)) \<in> set (t # ts)" by (rule Max_in) simp_all
  finally obtain r where r: "r \<in> set (readings d)" "fold max ts t = rr_fetched_at r"
    unfolding s by auto
  have ge: "rr_fetched_at q \<le> rr_fetched_at r" if "q \<in> set (readings d)" for q
    using that Max_ge [of "set (t # ts)" "rr_fetched_at q"] \<open>fold max ts t = Max (set (t # ts))\<close> r(2) s
    by simp
  then have "Max (row_time ` set (readings d)) = row_time r"
    using r(1) by (intro Max_eqI) (auto simp: stamped_row_le [OF assms(1)])
  moreover have "parse_rfc3339 (rr_fetched_at r) = Some (row_time r)"
    using stamped_row [OF assms(1) r(1)] parse_fmt_rfc3339 [of "row_time r"] by simp
  ultimately show ?thesis using Cons r assms(2) by (auto simp: LatestReadingAt_def go_simps)
qed

theorem latest_reading_at_newest_witness:
  "fst (LatestReadingAt plain_engine sample_db) = Inr (Some (20 * ns_per_sec))"
  using latest_reading_at_newest [OF sample_db_stamped, of plain_engine] by (simp add: max_def)

section \<open>History\<close>

text \<open>The abstract meaning of \<open>downsample\<close>: consecutive points with one truncated time.\<close>

function buckets :: "duration \<Rightarrow> history_point list \<Rightarrow> history_point list list" where
  "buckets step [] = []"
| "buckets step (p # ps) =
     (let same = (\<lambda>q. time_truncate (hp_FetchedAt q) step = time_truncate (hp_FetchedAt p) step)
      in (p # takeWhile same ps) # buckets step (dropWhile same ps))"
  by pat_completeness auto

termination
  by (relation "measure (\<lambda>(_, ps). length ps)") (auto simp: less_Suc_eq_le length_dropWhile_le)

definition bucket_mean :: "duration \<Rightarrow> history_point list \<Rightarrow> history_point" where
  "bucket_mean step g = \<lparr>hp_FetchedAt = time_truncate (hp_FetchedAt (hd g)) step,
     hp_Rate = fdiv (foldl fadd (Fin 0) (map hp_Rate g)) (f64_of_int (int (length g)))\<rparr>"

lemma f64_of_small_int: "\<bar>k\<bar> \<le> 2 ^ 53 \<Longrightarrow> f64_of_int k = Fin (of_int k)"
  using fin_ok_of_int [of k] by (auto simp: f64_of_int_def mkf_def Let_def fin_ok_def)

lemma fadd_one: "int k + 1 \<le> 2 ^ 53 \<Longrightarrow> fadd (f64_of_int (int k)) (Fin 1) = f64_of_int (int (Suc k))"
  by (subst f64_of_small_int) (simp_all add: fadd_def f64_of_int_def add.commute)

lemma flt_zero_count: "0 < k \<Longrightarrow> int k \<le> 2 ^ 53 \<Longrightarrow> flt (Fin 0) (f64_of_int (int k))"
  by (simp add: f64_of_small_int flt_finite)

lemma flush_nonempty:
  assumes "bk_n b = f64_of_int (int k)" and "0 < k" and "int k \<le> 2 ^ 53"
  shows "flush b = b\<lparr>bk_out := bk_out b @ [\<lparr>hp_FetchedAt = bk_start b, hp_Rate = fdiv (bk_sum b) (bk_n b)\<rparr>],
     bk_sum := Fin 0, bk_n := Fin 0\<rparr>"
  using assms flt_zero_count [of k] by (simp add: flush_def)

text \<open>The loop with an open, non-empty bucket.\<close>

lemma downsample_open:
  assumes "bk_n b = f64_of_int (int k)" and "0 < k" and "int k + int (length ps) \<le> 2 ^ 53"
  shows "bk_out (flush (fold (downsample_step step) ps b)) = bk_out b @
    \<lparr>hp_FetchedAt = bk_start b,
      hp_Rate = fdiv (foldl fadd (bk_sum b) (map hp_Rate
          (takeWhile (\<lambda>q. time_truncate (hp_FetchedAt q) step = bk_start b) ps)))
        (f64_of_int (int (k + length (takeWhile (\<lambda>q. time_truncate (hp_FetchedAt q) step = bk_start b) ps))))\<rparr>
    # map (bucket_mean step)
        (buckets step (dropWhile (\<lambda>q. time_truncate (hp_FetchedAt q) step = bk_start b) ps))"
  using assms
proof (induction ps arbitrary: b k)
  case Nil
  then show ?case by (simp add: flush_nonempty)
next
  case (Cons p ps)
  show ?case
  proof (cases "time_truncate (hp_FetchedAt p) step = bk_start b")
    case True
    let ?b = "b\<lparr>bk_sum := fadd (bk_sum b) (hp_Rate p), bk_n := fadd (bk_n b) (Fin 1)\<rparr>"
    have step: "downsample_step step p b = ?b" using True by (simp add: downsample_step_def)
    have "bk_n ?b = f64_of_int (int (Suc k))" using Cons.prems fadd_one [of k] by simp
    from Cons.IH [OF this] Cons.prems(3) True show ?thesis by (simp add: step)
  next
    case False
    let ?c = "\<lparr>bk_start = time_truncate (hp_FetchedAt p) step, bk_sum = fadd (Fin 0) (hp_Rate p),
      bk_n = f64_of_int (int 1), bk_out = bk_out b @ [\<lparr>hp_FetchedAt = bk_start b, hp_Rate = fdiv (bk_sum b) (bk_n b)\<rparr>]\<rparr>"
    have one: "fadd (Fin 0) (Fin 1) = f64_of_int 1"
      using fadd_one [of 0] by (simp add: f64_of_small_int)
    have step: "downsample_step step p b = ?c"
      using False flush_nonempty [OF Cons.prems(1,2)] Cons.prems(3)
      by (simp add: downsample_step_def one)
    have "bk_n ?c = f64_of_int (int 1)" by simp
    from Cons.IH [OF this] Cons.prems False show ?thesis
      by (simp add: step bucket_mean_def Let_def)
  qed
qed

lemma downsample_buckets:
  assumes "int (length ps) \<le> 2 ^ 53"
  shows "downsample ps step = map (bucket_mean step) (buckets step ps)"
proof (cases ps)
  case Nil
  then show ?thesis by (simp add: downsample_def flush_def flt_def)
next
  case (Cons p qs)
  let ?c = "\<lparr>bk_start = time_truncate (hp_FetchedAt p) step, bk_sum = fadd (Fin 0) (hp_Rate p),
      bk_n = f64_of_int (int 1), bk_out = []\<rparr>"
  have one: "fadd (Fin 0) (Fin 1) = f64_of_int 1"
    using fadd_one [of 0] by (simp add: f64_of_small_int)
  have step: "downsample_step step p \<lparr>bk_start = zero_time, bk_sum = Fin 0, bk_n = Fin 0, bk_out = []\<rparr> = ?c"
    by (simp add: downsample_step_def flush_def flt_def one Let_def)
  show ?thesis
    using downsample_open [of ?c 1 qs step] assms Cons
    by (simp add: downsample_def step bucket_mean_def Let_def)
qed

text \<open>Ascending input gives strictly ascending bucket starts.\<close>

lemma time_truncate_mono: "t \<le> u \<Longrightarrow> time_truncate t d \<le> time_truncate u d"
proof -
  assume le: "t \<le> u"
  have "t - t mod m = m * (t div m)" for t m :: int
    by (simp add: minus_mod_eq_mult_div)
  with le show ?thesis by (simp add: time_truncate_def zdiv_mono1 mult_left_mono)
qed

lemma buckets_starts:
  assumes "sorted (map hp_FetchedAt ps)"
  shows "sorted_wrt (<) (map (hp_FetchedAt \<circ> bucket_mean step) (buckets step ps))
    \<and> (\<forall>g \<in> set (buckets step ps). \<exists>q \<in> set ps.
          hp_FetchedAt (bucket_mean step g) = time_truncate (hp_FetchedAt q) step)"
  using assms
proof (induction step ps rule: buckets.induct)
  case (2 step p ps)
  define same where "same = (\<lambda>q :: history_point. time_truncate (hp_FetchedAt q) step = time_truncate (hp_FetchedAt p) step)"
  let ?r = "dropWhile same ps"
  have sub: "set ?r \<subseteq> set ps" by (auto dest: set_dropWhileD)
  have "sorted (map hp_FetchedAt (takeWhile same ps @ ?r))" using "2.prems" by simp
  then have sr: "sorted (map hp_FetchedAt ?r)" unfolding map_append sorted_append by blast
  note IH = "2.IH" [OF same_def sr]
  have later: "time_truncate (hp_FetchedAt p) step < time_truncate (hp_FetchedAt q) step" if "q \<in> set ?r" for q
  proof -
    have ne: "?r \<noteq> []" using that by (metis empty_iff list.set(1))
    note hd = hd_dropWhile [OF ne] hd_in_set [OF ne]
    have "hp_FetchedAt p \<le> hp_FetchedAt (hd ?r)" using "2.prems" sub hd(2) by auto
    then have "time_truncate (hp_FetchedAt p) step \<le> time_truncate (hp_FetchedAt (hd ?r)) step"
      by (rule time_truncate_mono)
    moreover have "hp_FetchedAt (hd ?r) \<le> hp_FetchedAt q"
      using sr that by (cases ?r) auto
    then have "time_truncate (hp_FetchedAt (hd ?r)) step \<le> time_truncate (hp_FetchedAt q) step"
      by (rule time_truncate_mono)
    ultimately show ?thesis using hd(1) by (simp add: same_def)
  qed
  have first: "hp_FetchedAt (bucket_mean step (p # takeWhile same ps)) = time_truncate (hp_FetchedAt p) step"
    by (simp add: bucket_mean_def)
  have b: "buckets step (p # ps) = (p # takeWhile same ps) # buckets step ?r"
    by (simp add: Let_def same_def)
  show ?case unfolding b using IH later sub by (fastforce simp: first)
qed simp

text \<open>The rows \<open>History\<close> reads, in terms of times.\<close>

definition history_raw :: "string \<Rightarrow> time \<Rightarrow> time \<Rightarrow> db \<Rightarrow> history_point list" where
  "history_raw q a b d = map (\<lambda>r. \<lparr>hp_FetchedAt = row_time r, hp_Rate = rr_rate r\<rparr>)
     (filter (\<lambda>r. rr_quote r = to_upper q \<and> to_second a \<le> row_time r \<and> row_time r \<le> to_second b) (readings d))"

lemma History_raw:
  fixes q :: string
  assumes "engine_ok E" and "stamped d" and "fmt_range a" and "fmt_range b"
  defines "raw \<equiv> map (\<lambda>r. \<lparr>hp_FetchedAt = parse_or_zero (rr_fetched_at r), hp_Rate = rr_rate r\<rparr>)
                 (history_rows E (to_upper q) (fmt_rfc3339 a) (fmt_rfc3339 b) d)"
  shows "mset raw = mset (history_raw q a b d)" and "sorted (map hp_FetchedAt raw)"
proof -
  let ?F = "filter (\<lambda>r. rr_quote r = to_upper q \<and> fmt_rfc3339 a \<le> rr_fetched_at r
      \<and> rr_fetched_at r \<le> fmt_rfc3339 b) (readings d)"
  have F: "?F = filter (\<lambda>r. rr_quote r = to_upper q \<and> to_second a \<le> row_time r \<and> row_time r \<le> to_second b) (readings d)"
    by (rule filter_cong) (use assms in \<open>auto simp: stamped_row_ge\<close>)
  have m: "mset (history_rows E (to_upper q) (fmt_rfc3339 a) (fmt_rfc3339 b) d) = mset ?F"
    using assms(1) by (simp add: history_rows_def engine_ok_def)
  show "mset raw = mset (history_raw q a b d)"
    unfolding raw_def history_raw_def mset_map m F row_time_def ..
  have sub: "r \<in> set (readings d)" if "r \<in> set (history_rows E (to_upper q) (fmt_rfc3339 a) (fmt_rfc3339 b) d)" for r
    using mset_eq_setD [OF m] that by auto
  have "sorted (map rr_fetched_at (history_rows E (to_upper q) (fmt_rfc3339 a) (fmt_rfc3339 b) d))"
    by (simp add: history_rows_def)
  then have "sorted_wrt (\<lambda>r s. row_time r \<le> row_time s)
      (history_rows E (to_upper q) (fmt_rfc3339 a) (fmt_rfc3339 b) d)"
    unfolding sorted_map
    by (rule sorted_wrt_mono_rel [rotated]) (simp add: sub stamped_row_le [OF assms(2)])
  then show "sorted (map hp_FetchedAt raw)"
    by (simp add: raw_def sorted_map sorted_wrt_map row_time_def)
qed

lemma History_returns: "fault E (stmts d) = None \<Longrightarrow> \<exists>pts d'. History E q a b step d = (Inr pts, d')"
  by (cases "sint step \<le> 0") (auto simp: History_def go_simps Let_def)

text \<open>
  C27: \<open>History\<close> returns the stored series, downsampled. From the readings of the quote with
  \<open>start\<close> \<open>\<le>\<close> time \<open>\<le>\<close> \<open>end\<close> (to the second), ordered by time, it returns every reading when
  \<open>step\<close> is not positive, and otherwise one point per bucket of \<open>step\<close>: the bucket's start, and
  the bucket's sum divided by its number of readings. The times returned ascend, strictly so
  for buckets.
\<close>

theorem history_is_bucketed_series:
  assumes "engine_ok E" and "stamped d" and "fmt_range a" and "fmt_range b"
    and "History E q a b step d = (Inr pts, d')" and "int (length (readings d)) \<le> 2 ^ 53"
  shows "\<exists>raw. mset raw = mset (history_raw q a b d) \<and> sorted (map hp_FetchedAt raw)
    \<and> pts = (if sint step \<le> 0 then raw else map (bucket_mean step) (buckets step raw))
    \<and> sorted (map hp_FetchedAt pts)
    \<and> (0 < sint step \<longrightarrow> sorted_wrt (<) (map hp_FetchedAt pts))
    \<and> same_tables d d'"
proof -
  define raw where "raw = map (\<lambda>r. \<lparr>hp_FetchedAt = parse_or_zero (rr_fetched_at r), hp_Rate = rr_rate r\<rparr>)
                 (history_rows E (to_upper q) (fmt_rfc3339 a) (fmt_rfc3339 b) (d\<lparr>stmts := Suc (stmts d)\<rparr>))"
  let ?d = "d\<lparr>stmts := Suc (stmts d)\<rparr>"
  have st: "stamped ?d" using assms(2) by (simp add: stamped_def)
  have raw: "mset raw = mset (history_raw q a b d)" "sorted (map hp_FetchedAt raw)"
    using History_raw [OF assms(1) st assms(3,4), of q] by (simp_all add: raw_def history_raw_def)
  have "length raw = length (history_raw q a b d)" using raw(1) by (metis size_mset)
  also have "\<dots> \<le> length (readings d)" by (simp add: history_raw_def)
  finally have len: "int (length raw) \<le> 2 ^ 53" using assms(6) by simp
  have "pts = (if sint step \<le> 0 \<or> raw = [] then raw else downsample raw step)"
    using assms(5) by (auto simp: History_def Let_def raw_def split: stmt_split_asm if_splits)
  then have pts: "pts = (if sint step \<le> 0 then raw else map (bucket_mean step) (buckets step raw))"
    using downsample_buckets [OF len] by simp
  have strict: "sorted_wrt (<) (map hp_FetchedAt pts)" if "0 < sint step"
    using buckets_starts [OF raw(2), of step] that by (simp add: pts)
  then have "sorted (map hp_FetchedAt pts)"
    using raw(2) by (cases "sint step \<le> 0") (simp_all add: pts strict_sorted_imp_sorted)
  moreover have "same_tables d d'" using same_tables_queries(6) [of d E q a b step] assms(5) by simp
  ultimately show ?thesis using raw pts strict by blast
qed

theorem history_is_bucketed_series_witness:
  "\<exists>pts d'. History plain_engine ''EUR'' 0 (18 * ns_per_sec) minute sample_db = (Inr pts, d')
     \<and> pts = [\<lparr>hp_FetchedAt = 0, hp_Rate = Fin 5\<rparr>]"
proof -
  obtain pts d' where h: "History plain_engine ''EUR'' 0 (18 * ns_per_sec) minute sample_db = (Inr pts, d')"
    using History_returns [of plain_engine sample_db] plain_engine_simps(1) by blast
  have r: "fmt_range 0" "fmt_range (18 * ns_per_sec)" by simp_all
  have m: "sint (minute :: duration) = 60000000000" by simp
  have ge: "0 \<le> ns_per_sec" by (simp add: ns_per_sec_def)
  have raw0: "history_raw ''EUR'' 0 (18 * ns_per_sec) sample_db =
      [\<lparr>hp_FetchedAt = 10 * ns_per_sec, hp_Rate = Fin 4\<rparr>, \<lparr>hp_FetchedAt = 15 * ns_per_sec, hp_Rate = Fin 6\<rparr>]"
    using ge by (simp add: history_raw_def)
  from history_is_bucketed_series [OF plain_engine_simps(5) sample_db_stamped r h]
  obtain raw where raw: "mset raw = mset (history_raw ''EUR'' 0 (18 * ns_per_sec) sample_db)"
    "sorted (map hp_FetchedAt raw)" "pts = map (bucket_mean minute) (buckets minute raw)"
    by (auto simp: m)
  have two: "raw = [p, q] \<or> raw = [q, p]" if "mset raw = {#p, q#}" for p q
  proof -
    from that have "length raw = 2" by (metis size_mset size_add_mset size_empty numeral_2_eq_2)
    then obtain x y where "raw = [x, y]" by (auto simp: numeral_2_eq_2 length_Suc_conv)
    with that show ?thesis by (auto simp: add_eq_conv_ex)
  qed
  have "\<not> 15 * ns_per_sec \<le> 10 * ns_per_sec" by (simp add: ns_per_sec_def)
  with two raw have "raw = [\<lparr>hp_FetchedAt = 10 * ns_per_sec, hp_Rate = Fin 4\<rparr>,
      \<lparr>hp_FetchedAt = 15 * ns_per_sec, hp_Rate = Fin 6\<rparr>]"
    by (fastforce simp: raw0)
  moreover have "time_truncate (10 * ns_per_sec) minute = 0" "time_truncate (15 * ns_per_sec) minute = 0"
    by (simp_all add: time_truncate_def ns_per_sec_def)
  moreover have "fdiv (fadd (fadd (Fin 0) (Fin 4)) (Fin 6)) (f64_of_int 2) = Fin 5"
    by code_simp
  ultimately have "pts = [\<lparr>hp_FetchedAt = 0, hp_Rate = Fin 5\<rparr>]"
    using raw(3) by (simp add: bucket_mean_def Let_def)
  with h show ?thesis by blast
qed

section \<open>Reading a provider back\<close>

lemma find_update_named: "find (\<lambda>r. pr_name r = n) (update_named ts c p rs) =
    map_option (\<lambda>r. if pr_name r = p_Name p then update_row ts c p r else r) (find (\<lambda>r. pr_name r = n) rs)"
  by (induction rs) (auto simp: update_named_def update_row_def)

lemma find_append: "find P (xs @ ys) = (case find P xs of Some x \<Rightarrow> Some x | None \<Rightarrow> find P ys)"
  by (induction xs) auto

text \<open>The row of a name after the upsert of \<open>p\<close>.\<close>

lemma provider_by_name_upsert:
  "provider_by_name n (upsert_row E ts c p d) =
     (if n \<noteq> p_Name p then provider_by_name n d
      else Some (case provider_by_name n d of
        Some r \<Rightarrow> update_row ts c p r
      | None \<Rightarrow> \<lparr>pr_id = seq_providers d + 1 + int (id_gap E (stmts d)), pr_name = n, pr_type = p_Type p, pr_config_json = c,
          pr_priority = p_Priority p, pr_calls_per_day = p_CallsPerDay p, pr_schedule_cron = p_ScheduleCron p,
          pr_enabled = boolToInt (p_Enabled p), pr_created_at = ts, pr_updated_at = ts\<rparr>))"
proof (cases "p_Name p \<in> pr_name ` set (providers d)")
  case True
  then have "provider_by_name (p_Name p) d \<noteq> None" by (auto simp: provider_by_name_def find_None_iff)
  moreover have "pr_name r = n" if "provider_by_name n d = Some r" for r
    using that by (auto simp: provider_by_name_def find_Some_iff)
  ultimately show ?thesis using True
    by (cases "provider_by_name n d") (auto simp: upsert_row_def provider_by_name_def find_update_named)
next
  case False
  then have "find (\<lambda>r. pr_name r = p_Name p) (providers d) = None" by (force simp: find_None_iff)
  then show ?thesis using False
    by (auto simp: upsert_row_def provider_by_name_def find_append Let_def split: option.split)
qed

text \<open>
  A stored provider reads back as it was stored. After \<open>UpsertProvider\<close>, whether it inserted
  or updated and whatever id it returned, \<open>GetProviderByName\<close> finds the provider with the
  same fields, its configuration re-read from the JSON text, updated at the second of the call
  and created then or when the name was first stored; every other name reads as before.
\<close>

theorem provider_round_trip:
  assumes "\<forall>n. fault E n = None" and "fmt_range now" and "UpsertProvider E now p d = (x, d')"
  shows "\<exists>q. fst (GetProviderByName E (p_Name p) d') = Inr q \<and> p_Name q = p_Name p \<and> p_Type q = p_Type p
      \<and> p_Config q = json_dec E (case json_enc E (p_Config p) of Some j \<Rightarrow> j | None \<Rightarrow> ''{}'')
      \<and> p_Priority q = p_Priority p \<and> p_CallsPerDay q = p_CallsPerDay p \<and> p_ScheduleCron q = p_ScheduleCron p
      \<and> p_Enabled q = p_Enabled p \<and> p_UpdatedAt q = to_second now
      \<and> p_CreatedAt q = (case fst (GetProviderByName E (p_Name p) d) of Inl _ \<Rightarrow> to_second now | Inr old \<Rightarrow> p_CreatedAt old)
    \<and> (\<forall>n. n \<noteq> p_Name p \<longrightarrow> fst (GetProviderByName E n d') = fst (GetProviderByName E n d))"
proof -
  define c where "c = (case json_enc E (p_Config p) of Some j \<Rightarrow> j | None \<Rightarrow> ''{}'')"
  define d1 where "d1 = upsert_row E (fmt_rfc3339 now) c p (d\<lparr>stmts := Suc (stmts d)\<rparr>)"
  have "(x, d') = (if last_rowid d1 = 0 then select_id (p_Name p) (d1\<lparr>stmts := Suc (stmts d1)\<rparr>) else (Inr (last_rowid d1), d1))"
    unfolding assms(3) [symmetric] using assms(1) by (simp add: UpsertProvider_def go_simps Let_def d1_def c_def)
  then have "providers d' = providers d1"
    by (auto simp: select_id_def split: if_splits option.splits)
  then have by_name: "provider_by_name n d' = provider_by_name n d1" for n by (simp add: provider_by_name_def)
  have "provider_by_name n (d\<lparr>stmts := k\<rparr>) = provider_by_name n d" for n k by (simp add: provider_by_name_def)
  then have get: "fst (GetProviderByName E n d0) = (case provider_by_name n d0 of None \<Rightarrow> Inl NoRows | Some r \<Rightarrow> Inr (row_provider E r))"
      "provider_by_name n (d0\<lparr>stmts := k\<rparr>) = provider_by_name n d0" for n d0 k
    using assms(1) by (auto simp: GetProviderByName_def go_simps provider_by_name_def split: option.split)
  define r where "r = (case provider_by_name (p_Name p) d of
        Some r \<Rightarrow> update_row (fmt_rfc3339 now) c p r
      | None \<Rightarrow> \<lparr>pr_id = seq_providers d + 1 + int (id_gap E (Suc (stmts d))), pr_name = p_Name p, pr_type = p_Type p, pr_config_json = c,
          pr_priority = p_Priority p, pr_calls_per_day = p_CallsPerDay p, pr_schedule_cron = p_ScheduleCron p,
          pr_enabled = boolToInt (p_Enabled p), pr_created_at = fmt_rfc3339 now, pr_updated_at = fmt_rfc3339 now\<rparr>)"
  have "provider_by_name n d' = (if n \<noteq> p_Name p then provider_by_name n d else Some r)" for n
    by (simp add: by_name d1_def provider_by_name_upsert get(2) r_def cong: option.case_cong)
  then have "fst (GetProviderByName E (p_Name p) d') = Inr (row_provider E r)"
    "\<forall>n. n \<noteq> p_Name p \<longrightarrow> fst (GetProviderByName E n d') = fst (GetProviderByName E n d)" by (simp_all add: get(1))
  moreover have "pr_name x = p_Name p" if "provider_by_name (p_Name p) d = Some x" for x
    using that by (auto simp: provider_by_name_def find_Some_iff)
  then have "holds_provider p r" "pr_config_json r = c" "parse_or_zero (pr_updated_at r) = to_second now"
    "parse_or_zero (pr_created_at r) = (case fst (GetProviderByName E (p_Name p) d) of Inl _ \<Rightarrow> to_second now | Inr old \<Rightarrow> p_CreatedAt old)"
    by (simp_all add: r_def holds_provider_def update_row_def get(1) row_provider_def parse_or_zero_fmt [OF assms(2)] split: option.split)
  ultimately show ?thesis
    by (intro conjI exI [of _ "row_provider E r"]) (simp_all add: row_provider_def holds_provider_def c_def boolToInt_def)
qed

theorem provider_round_trip_witness:
  "\<exists>x d' q. UpsertProvider plain_engine 0 (sample_config ''frankfurter'') sample_db = (x, d')
     \<and> fst (GetProviderByName plain_engine ''frankfurter'' d') = Inr q \<and> p_CallsPerDay q = Some 2000"
proof -
  obtain x d' where u: "UpsertProvider plain_engine 0 (sample_config ''frankfurter'') sample_db = (x, d')" by fastforce
  have "fmt_range 0" by (simp add: fmt_range_def ns_per_sec_def)
  from provider_round_trip [OF _ this u] u show ?thesis by (fastforce simp: sample_config_def)
qed

end
