(* ===== verification/Scheduler.thy ===== *)
theory Scheduler
  imports StoreFacts Metrics Provider
begin

text \<open>
  \<^verbatim>\<open>internal/scheduler\<close>: the polling cadence (\<^verbatim>\<open>scheduler.go\<close>) and the fetch job
  (\<^verbatim>\<open>manager.go\<close>) over the interface of \<open>Provider\<close>; the cron library's parser is the parameter
  of \<open>Add\<close>. Log lines are left out.

  The daily budget rests on the usage counters of the store through the locale
  \<open>usage_ledger\<close>, which \<open>Store\<close> implements.
\<close>

section \<open>Cadence\<close>

datatype schedule_kind = KindEvery | KindCron

record schedule =
  sc_Kind :: schedule_kind
  sc_Cron :: string
  sc_Every :: duration

definition ComputeSchedule :: "go_int \<Rightarrow> string \<Rightarrow> schedule" where
  "ComputeSchedule callsPerDay cronExpr =
     (if cronExpr \<noteq> [] then \<lparr>sc_Kind = KindCron, sc_Cron = cronExpr, sc_Every = 0\<rparr>
      else if sint callsPerDay \<le> 0 then \<lparr>sc_Kind = KindEvery, sc_Cron = [], sc_Every = 5 * minute\<rparr>
      else let s0 = fmul (fdiv (f64_of_int 86400) (f64_of_int (sint callsPerDay))) (f64_const (9 / 10));
               seconds = (if flt s0 (Fin 1) then Fin 1 else s0)
           in \<lparr>sc_Kind = KindEvery, sc_Cron = [],
               sc_Every = word_of_int (f64_to_int (fmul seconds (f64_of_int (sint second))))\<rparr>)"

definition BudgetAllowed :: "int \<Rightarrow> go_int \<Rightarrow> bool" where
  "BudgetAllowed usedToday callsPerDay = (if sint callsPerDay \<le> 0 then True else usedToday < sint callsPerDay)"

text \<open>\<open>Jitter\<close> from \<open>time.Now().UnixNano()\<close>; Go's remainder has the sign of the dividend.\<close>

definition Jitter :: "int \<Rightarrow> duration \<Rightarrow> duration" where
  "Jitter unixNano d =
     (if sint d \<le> 0 then 0 else word_of_int (sgn unixNano * (\<bar>unixNano\<bar> mod sint d)))"

text \<open>\<open>Duration.String()\<close>: a decimal fraction without trailing zeros, units from hours down.\<close>

definition frac_digits :: "nat \<Rightarrow> nat \<Rightarrow> string" where
  "frac_digits prec n =
     (let ds = rev (dropWhile (\<lambda>c. c = CHR ''0'') (rev (pad prec (n mod 10 ^ prec))))
      in if ds = [] then [] else CHR ''.'' # ds)"

definition duration_String :: "duration \<Rightarrow> string" where
  "duration_String d =
     (let u = nat \<bar>sint d\<bar>; sign = (if sint d < 0 then ''-'' else []);
          small = (\<lambda>prec unit. decimal (u div 10 ^ prec) @ frac_digits prec u @ unit)
      in if u = 0 then ''0s''
         else if u < 10 ^ 3 then sign @ small 0 ''ns''
         else if u < 10 ^ 6 then sign @ small 3 [CHR 0xC2, CHR 0xB5, CHR ''s'']
         else if u < 10 ^ 9 then sign @ small 6 ''ms''
         else let s = u div 10 ^ 9; m = s div 60; h = m div 60
              in sign @ (if 0 < h then decimal h @ ''h'' else [])
                   @ (if 0 < m then decimal (m mod 60) @ ''m'' else [])
                   @ decimal (s mod 60) @ frac_digits 9 u @ ''s'')"

section \<open>Jobs\<close>

record provider_job =
  j_ProviderID :: int
  j_Provider :: provider_impl
  j_CurrencyCodes :: "string list"
  j_Base :: string
  j_CallsPerDay :: go_int

text \<open>The functions the cron library is given: the fetch of a provider, or the pruning \<open>main\<close> schedules.\<close>

datatype cron_fn = FetchJob provider_job | PruneJob duration

text \<open>
  \<open>Manager\<close>: the database, the optional metrics, and the state of the cron library, which is its
  entries and whether it is running.
\<close>

record manager =
  mg_db :: db
  mg_metrics :: "metrics option"
  mg_entries :: "(string \<times> cron_fn) list"
  mg_running :: bool

definition NewManager :: "db \<Rightarrow> manager" where
  "NewManager d = \<lparr>mg_db = d, mg_metrics = None, mg_entries = [], mg_running = False\<rparr>"

definition SetMetrics :: "metrics \<Rightarrow> manager \<Rightarrow> manager" where
  "SetMetrics mx m = m\<lparr>mg_metrics := Some mx\<rparr>"

definition entry_expr :: "schedule \<Rightarrow> string" where
  "entry_expr s = (if sc_Kind s = KindEvery then ''@every '' @ duration_String (sc_Every s) else sc_Cron s)"

definition Start :: "manager \<Rightarrow> manager" where
  "Start m = m\<lparr>mg_running := True\<rparr>"

definition Stop :: "manager \<Rightarrow> manager" where
  "Stop m = m\<lparr>mg_running := False\<rparr>"

text \<open>The library refuses an expression it cannot parse.\<close>

definition AddFunc :: "(string \<Rightarrow> string option) \<Rightarrow> string \<Rightarrow> cron_fn \<Rightarrow> manager \<Rightarrow> string option \<times> manager" where
  "AddFunc cron_error expr fn m =
     (case cron_error expr of
        Some e \<Rightarrow> (Some e, m)
      | None \<Rightarrow> (None, m\<lparr>mg_entries := mg_entries m @ [(expr, fn)]\<rparr>))"

definition Add :: "(string \<Rightarrow> string option) \<Rightarrow> provider_job \<Rightarrow> schedule \<Rightarrow> manager \<Rightarrow> string option \<times> manager" where
  "Add cron_error j sched m = AddFunc cron_error (entry_expr sched) (FetchJob j) m"

definition recordSuccess :: "string \<Rightarrow> manager \<Rightarrow> manager" where
  "recordSuccess name m =
     (case mg_metrics m of
        None \<Rightarrow> m
      | Some x \<Rightarrow> m\<lparr>mg_metrics := Some (IncCounter (''argosfx_fetch_total_'' @ name)
          (IncCounter ''argosfx_fetch_total'' x))\<rparr>)"

definition recordError :: "string \<Rightarrow> manager \<Rightarrow> manager" where
  "recordError name m =
     (case mg_metrics m of
        None \<Rightarrow> m
      | Some x \<Rightarrow> m\<lparr>mg_metrics := Some (IncCounter (''argosfx_fetch_errors_total_'' @ name)
          (IncCounter ''argosfx_fetch_errors_total'' x))\<rparr>)"

datatype run_error = ReadUsage db_error | FetchFailed string fetch_error | InsertFailed db_error | IncrementFailed db_error

definition store_reading :: "int \<Rightarrow> fetched \<Rightarrow> reading" where
  "store_reading pid r = \<lparr>r_ID = 0, r_ProviderID = pid, r_Base = f_Base r, r_Quote = f_Quote r,
     r_Rate = f_Rate r, r_FetchedAt = f_FetchedAt r, r_ProviderTS = f_ProviderTS r\<rparr>"

fun insert_all :: "engine \<Rightarrow> int \<Rightarrow> fetched list \<Rightarrow> unit dbm" where
  "insert_all E pid [] d = (Inr (), d)"
| "insert_all E pid (r # rs) d =
     (case InsertReading E (store_reading pid r) d of
        (Inl e, d1) \<Rightarrow> (Inl e, d1)
      | (Inr _, d1) \<Rightarrow> insert_all E pid rs d1)"

text \<open>\<open>clk 0\<close> and \<open>clk 1\<close> are the two readings of the clock; the fetch between them makes its own, \<open>clk 2\<close>.\<close>

definition RunOnce :: "engine \<Rightarrow> (nat \<Rightarrow> time) \<Rightarrow> provider_job \<Rightarrow> manager \<Rightarrow> (run_error + unit) \<times> manager" where
  "RunOnce E clk j m =
     (let name = pv_Name (j_Provider j)
      in case UsageToday E (j_ProviderID j) (clk 0) (mg_db m) of
           (Inl e, d1) \<Rightarrow> (Inl (ReadUsage e), m\<lparr>mg_db := d1\<rparr>)
         | (Inr used, d1) \<Rightarrow>
             if \<not> BudgetAllowed used (j_CallsPerDay j) then (Inr (), m\<lparr>mg_db := d1\<rparr>)
             else case pv_Fetch (j_Provider j) (clk 2) (j_Base j) (j_CurrencyCodes j) of
                    Inl e \<Rightarrow> (Inl (FetchFailed name e), recordError name (m\<lparr>mg_db := d1\<rparr>))
                  | Inr rs \<Rightarrow>
                      (case insert_all E (j_ProviderID j) rs d1 of
                         (Inl e, d2) \<Rightarrow> (Inl (InsertFailed e), m\<lparr>mg_db := d2\<rparr>)
                       | (Inr _, d2) \<Rightarrow>
                           (case IncrementUsage E (j_ProviderID j) (clk 1) d2 of
                              (Inl e, d3) \<Rightarrow> (Inl (IncrementFailed e), m\<lparr>mg_db := d3\<rparr>)
                            | (Inr _, d3) \<Rightarrow> (Inr (), recordSuccess name (m\<lparr>mg_db := d3\<rparr>)))))"

text \<open>
  The function of a provider's entry. Its limit of 30 seconds shows up as a failing fetch or a
  failing statement; an error is only logged.
\<close>

definition runWithTimeout :: "engine \<Rightarrow> (nat \<Rightarrow> time) \<Rightarrow> provider_job \<Rightarrow> manager \<Rightarrow> manager" where
  "runWithTimeout E clk j m = snd (RunOnce E clk j m)"

section \<open>The ledger of usage\<close>

locale usage_ledger =
  fixes used :: "'s \<Rightarrow> int \<Rightarrow> time \<Rightarrow> int"
    and read :: "int \<Rightarrow> time \<Rightarrow> 's \<Rightarrow> ('e + int) \<times> 's"
    and count :: "int \<Rightarrow> time \<Rightarrow> 's \<Rightarrow> ('e + unit) \<times> 's"
    and good :: "'s \<Rightarrow> bool"
  assumes read_used: "read p t s = (Inr n, s') \<Longrightarrow> n = used s p t"
    and read_frame: "used (snd (read p t s)) = used s"
    and good_read: "good s \<Longrightarrow> good (snd (read p t s))"
    and good_count: "good s \<Longrightarrow> good (snd (count p t s))"
    and count_used: "good s \<Longrightarrow> fmt_range t \<Longrightarrow> fmt_range u \<Longrightarrow> count p t s = (Inr (), s') \<Longrightarrow>
      used s' q u = used s q u + (if q = p \<and> day_number u = day_number t then 1 else 0)"
    and count_fails: "count p t s = (Inl e, s') \<Longrightarrow> used s' = used s"
    and used_day: "fmt_range t \<Longrightarrow> fmt_range u \<Longrightarrow> day_number t = day_number u \<Longrightarrow> used s p t = used s p u"
begin

lemma count_le:
  assumes "good s" and "fmt_range t" and "fmt_range u"
  shows "used (snd (count p t s)) q u \<le> used s q u + (if q = p \<and> day_number u = day_number t then 1 else 0)"
proof (cases "count p t s")
  case (Pair x s')
  then show ?thesis
    using count_used [OF assms, of p s' q] count_fails [of p t s _ s'] by (cases x) auto
qed

text \<open>Checked counting never passes the limit.\<close>

lemma checked_count:
  assumes "good s" and "fmt_range t" and "fmt_range u"
    and "q = p \<longrightarrow> day_number u = day_number t \<longrightarrow> used s p u < n" and "used s q u \<le> n"
  shows "used (snd (count p t s)) q u \<le> n"
  using count_le [OF assms(1-3), of p q] assms(4,5) by (auto split: if_splits)

end

lemma usage_count_day:
  "fmt_range t \<Longrightarrow> fmt_range u \<Longrightarrow> day_number t = day_number u \<Longrightarrow> usage_count d p t = usage_count d p u"
  using fmt_day_eq [of t u] by (simp add: usage_count_def)

interpretation ul: usage_ledger usage_count "UsageToday E" "IncrementUsage E" db_ok for E
proof unfold_locales
  fix p t s s' n u q e
  show "UsageToday E p t s = (Inr n, s') \<Longrightarrow> n = usage_count s p t" by (rule UsageToday_count)
  show "usage_count (snd (UsageToday E p t s)) = usage_count s" by (intro ext usage_count_same) simp
  show "db_ok s \<Longrightarrow> db_ok (snd (UsageToday E p t s))" by simp
  show "db_ok s \<Longrightarrow> db_ok (snd (IncrementUsage E p t s))" by (rule db_ok_IncrementUsage)
  show "db_ok s \<Longrightarrow> fmt_range t \<Longrightarrow> fmt_range u \<Longrightarrow> IncrementUsage E p t s = (Inr (), s') \<Longrightarrow>
      usage_count s' q u = usage_count s q u + (if q = p \<and> day_number u = day_number t then 1 else 0)"
    by (rule IncrementUsage_count)
  show "IncrementUsage E p t s = (Inl e, s') \<Longrightarrow> usage_count s' = usage_count s"
    by (intro ext usage_count_same) (rule IncrementUsage_err)
  show "fmt_range t \<Longrightarrow> fmt_range u \<Longrightarrow> day_number t = day_number u \<Longrightarrow> usage_count s p t = usage_count s p u"
    by (rule usage_count_day)
qed

section \<open>What a run does\<close>

lemma usage_InsertReading [simp]: "usage (snd (InsertReading E r d)) = usage d"
  by (auto simp: InsertReading_def insert_row_def Let_def split: stmt_split)

lemma insert_all_frame:
  "usage (snd (insert_all E pid rs d)) = usage d \<and> (db_ok d \<longrightarrow> db_ok (snd (insert_all E pid rs d)))"
proof (induction rs arbitrary: d)
  case (Cons r rs)
  obtain x d1 where ins: "InsertReading E (store_reading pid r) d = (x, d1)" by fastforce
  have "usage d1 = usage d" using usage_InsertReading [of E "store_reading pid r" d] by (simp add: ins)
  moreover have "db_ok d \<longrightarrow> db_ok d1" using db_ok_InsertReading [of d E "store_reading pid r"] by (simp add: ins)
  ultimately show ?case using Cons [of d1] by (simp add: ins split: sum.split)
qed simp

lemma mg_db_record [simp]: "mg_db (recordSuccess n m) = mg_db m" "mg_db (recordError n m) = mg_db m"
  by (simp_all add: recordSuccess_def recordError_def split: option.split)

text \<open>The database after a run: nothing counted, or the run passed the check and counted.\<close>

lemma RunOnce_db:
  fixes E :: engine and clk :: "nat \<Rightarrow> time" and j :: provider_job and m :: manager
  assumes "db_ok (mg_db m)"
  defines "d' \<equiv> mg_db (snd (RunOnce E clk j m))" and "p \<equiv> j_ProviderID j"
  shows "db_ok d' \<and> (usage_count d' = usage_count (mg_db m)
    \<or> (\<exists>used d2. BudgetAllowed used (j_CallsPerDay j) \<and> used = usage_count (mg_db m) p (clk 0)
         \<and> db_ok d2 \<and> usage_count d2 = usage_count (mg_db m) \<and> d' = snd (IncrementUsage E p (clk 1) d2)))"
proof (cases "UsageToday E p (clk 0) (mg_db m)")
  case (Pair x d1)
  have d1: "db_ok d1" "usage_count d1 = usage_count (mg_db m)"
    using ul.good_read [OF assms(1), of E p "clk 0"] ul.read_frame [of E p "clk 0" "mg_db m"] Pair by auto
  show ?thesis
  proof (cases x)
    case (Inl e)
    then show ?thesis using Pair d1 by (simp add: d'_def RunOnce_def Let_def p_def)
  next
    case (Inr used)
    have used: "used = usage_count (mg_db m) p (clk 0)" using Pair Inr ul.read_used by blast
    show ?thesis
    proof (cases "BudgetAllowed used (j_CallsPerDay j)")
      case False
      then show ?thesis using Pair Inr d1 by (simp add: d'_def RunOnce_def Let_def p_def)
    next
      case True
      show ?thesis
      proof (cases "pv_Fetch (j_Provider j) (clk 2) (j_Base j) (j_CurrencyCodes j)")
        case (Inl e)
        then show ?thesis using Pair Inr True d1 by (simp add: d'_def RunOnce_def Let_def p_def)
      next
        case rs: (Inr rs)
        obtain y d2 where ins: "insert_all E p rs d1 = (y, d2)" by fastforce
        have "usage d2 = usage d1" "db_ok d2" using insert_all_frame [of E p rs d1] ins d1(1) by auto
        then have d2: "db_ok d2" "usage_count d2 = usage_count (mg_db m)"
          using d1(2) by (auto simp: fun_eq_iff usage_count_def)
        obtain z d3 where inc: "IncrementUsage E p (clk 1) d2 = (z, d3)" by fastforce
        have d3: "db_ok d3" using ul.good_count [OF d2(1), of E p "clk 1"] inc by simp
        show ?thesis
        proof (cases y)
          case (Inl e)
          then show ?thesis using Pair Inr True rs ins d2 by (simp add: d'_def RunOnce_def Let_def p_def)
        next
          case (Inr u)
          then have "d' = d3"
            using Pair \<open>x = Inr used\<close> True rs ins inc
            by (auto simp: d'_def RunOnce_def Let_def p_def split: sum.split)
          then have "d' = snd (IncrementUsage E p (clk 1) d2)" by (simp only: inc snd_conv)
          then show ?thesis using True used d2 d3 \<open>d' = d3\<close> by blast
        qed
      qed
    qed
  qed
qed

definition run_jobs :: "engine \<Rightarrow> ((nat \<Rightarrow> time) \<times> provider_job) list \<Rightarrow> manager \<Rightarrow> manager" where
  "run_jobs E runs m = fold (\<lambda>(clk, j). runWithTimeout E clk j) runs m"

text \<open>A run whose two clock readings fall on one UTC day.\<close>

definition within_day :: "(nat \<Rightarrow> time) \<Rightarrow> bool" where
  "within_day clk \<longleftrightarrow> fmt_range (clk 0) \<and> fmt_range (clk 1) \<and> day_number (clk 0) = day_number (clk 1)"

lemma RunOnce_budget:
  assumes "db_ok (mg_db m)" and "within_day clk" and "fmt_range u" and "0 < n"
    and "j_ProviderID j = q \<longrightarrow> sint (j_CallsPerDay j) = n" and "usage_count (mg_db m) q u \<le> n"
  shows "usage_count (mg_db (snd (RunOnce E clk j m))) q u \<le> n"
proof -
  let ?d' = "mg_db (snd (RunOnce E clk j m))" and ?p = "j_ProviderID j"
  consider "usage_count ?d' = usage_count (mg_db m)"
    | used d2 where "BudgetAllowed used (j_CallsPerDay j)" "used = usage_count (mg_db m) ?p (clk 0)"
      "db_ok d2" "usage_count d2 = usage_count (mg_db m)" "?d' = snd (IncrementUsage E ?p (clk 1) d2)"
    using RunOnce_db [OF assms(1), of E clk j] by blast
  then show ?thesis
  proof cases
    case 1
    then show ?thesis using assms(6) by simp
  next
    case 2
    have "usage_count d2 ?p u < n" if "q = ?p" "day_number u = day_number (clk 1)"
    proof -
      have "sint (j_CallsPerDay j) = n" using assms(5) that(1) by blast
      then have "used < n" using 2(1) assms(4) by (simp add: BudgetAllowed_def)
      moreover have "usage_count d2 ?p u = used"
        unfolding 2(2,4) by (rule ul.used_day) (use assms(2,3) that(2) in \<open>simp_all add: within_day_def\<close>)
      ultimately show ?thesis by simp
    qed
    then have lt: "q = ?p \<longrightarrow> day_number u = day_number (clk 1) \<longrightarrow> usage_count d2 ?p u < n" by blast
    have le: "usage_count d2 q u \<le> n" using assms(6) by (simp only: 2(4))
    have r: "fmt_range (clk 1)" using assms(2) by (simp add: within_day_def)
    show ?thesis unfolding 2(5) by (rule ul.checked_count [OF 2(3) r assms(3) lt le])
  qed
qed

text \<open>
  C5: the daily budget holds for runs one after another. Whatever jobs run in whatever order,
  with fetches and statements succeeding or failing at any point, the usage counter of a
  provider on a UTC day never passes its \<open>CallsPerDay\<close>, provided no run straddles midnight.
\<close>

theorem budget_never_exceeded:
  assumes "db_ok (mg_db m)" and "fmt_range u" and "0 < n" and "usage_count (mg_db m) q u \<le> n"
    and "\<forall>(clk, j) \<in> set runs. within_day clk \<and> (j_ProviderID j = q \<longrightarrow> sint (j_CallsPerDay j) = n)"
  shows "usage_count (mg_db (run_jobs E runs m)) q u \<le> n"
  using assms(1,4,5)
proof (induction runs arbitrary: m)
  case Nil
  then show ?case by (simp add: run_jobs_def)
next
  case (Cons r runs)
  obtain clk j where r: "r = (clk, j)" by fastforce
  have "db_ok (mg_db (snd (RunOnce E clk j m)))" using RunOnce_db [OF Cons.prems(1)] by blast
  moreover have "usage_count (mg_db (snd (RunOnce E clk j m))) q u \<le> n"
    using Cons.prems r by (intro RunOnce_budget [OF _ _ assms(2,3)]) auto
  ultimately show ?case
    using Cons.IH [of "snd (RunOnce E clk j m)"] Cons.prems(3) by (simp add: run_jobs_def runWithTimeout_def r)
qed

definition sample_job :: "fetch_error + fetched list \<Rightarrow> int \<Rightarrow> provider_job" where
  "sample_job out n = \<lparr>j_ProviderID = 1, j_Provider = \<lparr>pv_Name = ''yahoo'', pv_Type = ''yahoo'', pv_Fetch = (\<lambda>_ _ _. out)\<rparr>,
     j_CurrencyCodes = [''EUR''], j_Base = ''USD'', j_CallsPerDay = word_of_int n\<rparr>"

theorem budget_never_exceeded_witness:
  "usage_count (mg_db (run_jobs plain_engine (replicate 5 (\<lambda>_. 0, sample_job (Inr []) 2)) (NewManager sample_db))) 1 0 \<le> 2"
proof (rule budget_never_exceeded)
  show "db_ok (mg_db (NewManager sample_db))" by (simp add: NewManager_def sample_db_ok)
  show "usage_count (mg_db (NewManager sample_db)) 1 0 \<le> 2"
    by (simp add: NewManager_def usage_count_def map_get_def)
  show "\<forall>(clk, j) \<in> set (replicate 5 (\<lambda>_. 0, sample_job (Inr []) 2)).
      within_day clk \<and> (j_ProviderID j = 1 \<longrightarrow> sint (j_CallsPerDay j) = 2)"
    by (auto simp: within_day_def sample_job_def)
qed simp_all

end
