(* ===== verification/HttpApi.thy ===== *)
theory HttpApi
  imports Config Json Aggregator RateCache MetricsText Scheduler
begin

text \<open>
  \<^verbatim>\<open>internal/httpapi/httpapi.go\<close>: the handlers of the HTTP interface. A handler takes the state of
  the server (the database the aggregator and the store share, the response cache, the metrics)
  to a response and the new state. The router and the sockets are third-party or library code:
  a request arrives as a \<open>route\<close> with its parameters.

  The readings of the clock are the argument \<open>clk\<close>, the order in which Go iterates over the map
  of currencies is \<open>order\<close>, and the text of a driver error is \<open>dbtext\<close>. Time limits of requests
  show up as failing statements of the engine.
\<close>

section \<open>Text\<close>

text \<open>\<open>fmt\<close>'s \<open>%q\<close>; encoded code points above ASCII are printed as they are.\<close>

definition quote_ascii :: "char \<Rightarrow> string" where
  "quote_ascii c =
     (if c = CHR 0x22 \<or> c = CHR 0x5C then [CHR 0x5C, c]
      else if c = CHR 0x07 then [CHR 0x5C, CHR ''a''] else if c = CHR 0x08 then [CHR 0x5C, CHR ''b'']
      else if c = CHR 0x0C then [CHR 0x5C, CHR ''f''] else if c = CHR 0x0A then [CHR 0x5C, CHR ''n'']
      else if c = CHR 0x0D then [CHR 0x5C, CHR ''r''] else if c = CHR 0x09 then [CHR 0x5C, CHR ''t'']
      else if c = CHR 0x0B then [CHR 0x5C, CHR ''v'']
      else if of_char c < (0x20 :: nat) \<or> (0x7F :: nat) \<le> of_char c
      then [CHR 0x5C, CHR ''x'', hexdigit (of_char c div 16), hexdigit (of_char c mod 16)] else [c])"

function quote_chars :: "string \<Rightarrow> string" where
  "quote_chars [] = []"
| "quote_chars (c # r) =
     (let k = utf8_len (c # r)
      in if k \<le> 1 then quote_ascii c @ quote_chars r else take k (c # r) @ quote_chars (drop (k - 1) r))"
  by pat_completeness auto
termination
  by (relation "measure length") auto

definition Quote :: "string \<Rightarrow> string" where
  "Quote s = CHR 0x22 # quote_chars s @ [CHR 0x22]"

definition int_text :: "int \<Rightarrow> string" where
  "int_text n = (if n < 0 then ''-'' else []) @ decimal (nat \<bar>n\<bar>)"

fun agg_error_text :: "(db_error \<Rightarrow> string) \<Rightarrow> agg_error \<Rightarrow> string" where
  "agg_error_text dbtext CodesRequired = ''from and to are required''"
| "agg_error_text dbtext (ReadReadings e) = ''read latest readings: '' @ dbtext e"
| "agg_error_text dbtext (ReadProviders e) = dbtext e"
| "agg_error_text dbtext (ErrInsufficientProviders have need) =
     ''insufficient providers: have '' @ int_text have @ '', need '' @ int_text need"
| "agg_error_text dbtext (FromSide e) = ''from-side: '' @ agg_error_text dbtext e"
| "agg_error_text dbtext (ToSide e) = ''to-side: '' @ agg_error_text dbtext e"
| "agg_error_text dbtext FromRateZero = ''from-side rate is zero''"
| "agg_error_text dbtext RateZero = ''rate is zero, cannot invert''"
| "agg_error_text dbtext SameCodes = ''from and to must differ''"

text \<open>\<open>errors.Is(err, ErrInsufficientProviders)\<close> looks through the wrapped errors.\<close>

fun is_insufficient :: "agg_error \<Rightarrow> bool" where
  "is_insufficient (ErrInsufficientProviders _ _) = True"
| "is_insufficient (FromSide e) = is_insufficient e"
| "is_insufficient (ToSide e) = is_insufficient e"
| "is_insufficient _ = False"

section \<open>Durations\<close>

text \<open>\<open>Duration.Round\<close>: halves away from zero, saturating.\<close>

definition duration_Round :: "duration \<Rightarrow> duration \<Rightarrow> duration" where
  "duration_Round d m =
     (let x = sint d; k = sint m; r = \<bar>x\<bar> mod k;
          up = (if 2 * r < k then \<bar>x\<bar> - r else \<bar>x\<bar> + k - r)
      in if k \<le> 0 then d
         else if x < 0 then word_of_int (max (- (2 ^ 63)) (- up)) else word_of_int (min (2 ^ 63 - 1) up))"

text \<open>
  \<open>time.ParseDuration\<close>: a sequence of decimal numbers with units. Digits of a fraction beyond
  what fits in 63 bits are dropped; the fraction is scaled in floating point.
\<close>

definition unit_ns :: "string \<Rightarrow> int option" where
  "unit_ns u =
     (if u = ''ns'' then Some 1
      else if u = ''us'' \<or> u = [CHR 0xC2, CHR 0xB5, CHR ''s''] \<or> u = [CHR 0xCE, CHR 0xBC, CHR ''s''] then Some 1000
      else if u = ''ms'' then Some 1000000 else if u = ''s'' then Some 1000000000
      else if u = ''m'' then Some 60000000000 else if u = ''h'' then Some 3600000000000 else None)"

definition lead_frac :: "string \<Rightarrow> int \<times> f64" where
  "lead_frac ds = (let (x, scale, over) = fold (\<lambda>c (x, scale, over).
       if over \<or> (2 ^ 63 - 1) div 10 < x then (x, scale, True)
       else let y = 10 * x + int (digit_val c)
            in if 2 ^ 63 < y then (x, scale, True) else (y, fmul scale (Fin 10), False)) ds (0, Fin 1, False)
     in (x, scale))"

text \<open>One number with its unit in nanoseconds, and the rest.\<close>

definition duration_term :: "string \<Rightarrow> (int \<times> string) option" where
  "duration_term s =
     (let ip = takeWhile is_digit s; r1 = dropWhile is_digit s;
          point = starts_with ''.'' r1;
          fp = (if point then takeWhile is_digit (tl r1) else []);
          r2 = (if point then dropWhile is_digit (tl r1) else r1);
          u = takeWhile (\<lambda>c. c \<noteq> CHR ''.'' \<and> \<not> is_digit c) r2; r3 = dropWhile (\<lambda>c. c \<noteq> CHR ''.'' \<and> \<not> is_digit c) r2;
          v = int (digits_val ip)
      in if 2 ^ 63 < v \<or> (ip = [] \<and> fp = []) then None
         else case unit_ns u of
                None \<Rightarrow> None
              | Some n \<Rightarrow>
                  if 2 ^ 63 div n < v then None
                  else let (f, scale) = lead_frac fp;
                           w = v * n + (if 0 < f then f64_to_int (fmul (f64_of_int f) (fdiv (f64_of_int n) scale)) else 0)
                       in if 2 ^ 63 < w then None else Some (w, r3))"

lemma duration_term_shorter:
  assumes "duration_term s = Some (w, r)"
  shows "length r < length s"
proof -
  have drop: "length (dropWhile P x) \<le> length x" for P and x :: string by (rule length_dropWhile_le)
  define r1 where "r1 = dropWhile is_digit s"
  define r2 where "r2 = (if starts_with ''.'' r1 then dropWhile is_digit (tl r1) else r1)"
  define u where "u = takeWhile (\<lambda>c. c \<noteq> CHR ''.'' \<and> \<not> is_digit c) r2"
  have "unit_ns u \<noteq> None" and r: "r = dropWhile (\<lambda>c. c \<noteq> CHR ''.'' \<and> \<not> is_digit c) r2"
    using assms unfolding duration_term_def Let_def r1_def [symmetric] r2_def [symmetric] u_def [symmetric]
    by (auto split: if_splits option.splits prod.splits)
  then have "u \<noteq> []" by (auto simp: unit_ns_def)
  moreover have "r2 = u @ r" by (simp add: u_def r)
  ultimately have "length r < length r2" by simp
  also have "\<dots> \<le> length r1" using drop [of is_digit "tl r1"] by (auto simp: r2_def)
  also have "\<dots> \<le> length s" by (simp add: r1_def drop)
  finally show ?thesis .
qed

function duration_terms :: "int \<Rightarrow> string \<Rightarrow> int option" where
  "duration_terms acc s =
     (if s = [] then Some acc
      else case duration_term s of
             None \<Rightarrow> None
           | Some (w, r) \<Rightarrow> if 2 ^ 63 < acc + w then None else duration_terms (acc + w) r)"
  by pat_completeness auto
termination
  by (relation "measure (length \<circ> snd)") (auto dest: duration_term_shorter)

declare duration_terms.simps [simp del]

definition ParseDuration :: "string \<Rightarrow> duration option" where
  "ParseDuration s0 =
     (let (neg, s) = scan_sign s0
      in if s = ''0'' then Some 0
         else if s = [] then None
         else case duration_terms 0 s of
                None \<Rightarrow> None
              | Some d \<Rightarrow> if neg then Some (word_of_int (- d))
                          else if 2 ^ 63 - 1 < d then None else Some (word_of_int d))"

section \<open>State and responses\<close>

record server =
  sv_agg :: "agg_config option"
  sv_store :: bool
  sv_db :: db
  sv_cache :: "cache option"
  sv_currencies :: currencies
  sv_cacheTTL :: duration
  sv_metrics :: "metrics option"
  sv_maxAge :: duration

record options =
  op_Aggregator :: "agg_config option"
  op_Store :: "db option"
  op_Cache :: "cache option"
  op_Currencies :: currencies
  op_CacheTTL :: duration
  op_Metrics :: "metrics option"
  op_MaxAge :: duration

text \<open>\<open>New\<close>: the aggregator has its own handle of the database, which is the store's when that is given.\<close>

definition NewServer :: "db \<Rightarrow> options \<Rightarrow> server" where
  "NewServer agg_db opts =
     \<lparr>sv_agg = op_Aggregator opts, sv_store = (op_Store opts \<noteq> None),
      sv_db = (case op_Store opts of None \<Rightarrow> agg_db | Some d \<Rightarrow> d), sv_cache = op_Cache opts,
      sv_currencies = op_Currencies opts,
      sv_cacheTTL = (if sint (op_CacheTTL opts) \<le> 0 then 60 * second else op_CacheTTL opts),
      sv_metrics = op_Metrics opts, sv_maxAge = op_MaxAge opts\<rparr>"

record response =
  rp_status :: int
  rp_headers :: "(string \<times> string) list"
  rp_body :: string

type_synonym handler = "server \<Rightarrow> response \<times> server"

text \<open>An object whose members can all be encoded.\<close>

fun json_members :: "(string \<times> json option) list \<Rightarrow> (string \<times> json) list option" where
  "json_members [] = Some []"
| "json_members ((k, v) # ms) = Option.bind v (\<lambda>j. map_option (Cons (k, j)) (json_members ms))"

definition json_obj :: "(string \<times> json option) list \<Rightarrow> json option" where
  "json_obj ms = map_option JObj (json_members ms)"

definition json_type :: "string \<times> string" where
  "json_type = (''Content-Type'', ''application/json'')"

text \<open>The encoder writes a newline after the value, and nothing when it fails.\<close>

definition writeJSON :: "int \<Rightarrow> (string \<times> string) list \<Rightarrow> json option \<Rightarrow> response" where
  "writeJSON status headers body = \<lparr>rp_status = status, rp_headers = headers @ [json_type],
     rp_body = (case body of None \<Rightarrow> [] | Some j \<Rightarrow> json_text j @ [newline])\<rparr>"

definition writeBytes :: "(string \<times> string) list \<Rightarrow> string \<Rightarrow> response" where
  "writeBytes headers body = \<lparr>rp_status = 200, rp_headers = headers @ [json_type], rp_body = body\<rparr>"

definition writeError :: "int \<Rightarrow> string \<Rightarrow> response" where
  "writeError status msg = writeJSON status [] (json_obj [(''error'', Some (JStr msg))])"

definition cacheLookup :: "time \<Rightarrow> string \<Rightarrow> server \<Rightarrow> string option \<times> server" where
  "cacheLookup now key s =
     (case sv_cache s of
        None \<Rightarrow> (None, s)
      | Some c \<Rightarrow> (case cache_Get now key c of (v, c') \<Rightarrow> (v, s\<lparr>sv_cache := Some c'\<rparr>)))"

text \<open>A body that cannot be encoded is empty and is not stored.\<close>

definition cacheStore :: "time \<Rightarrow> string \<Rightarrow> json option \<Rightarrow> server \<Rightarrow> string \<times> server" where
  "cacheStore now key v s =
     (case v of
        None \<Rightarrow> ([], s)
      | Some j \<Rightarrow> (json_text j, s\<lparr>sv_cache := map_option (cache_Set now key (json_text j)) (sv_cache s)\<rparr>))"

definition cache_control :: "server \<Rightarrow> string \<times> string" where
  "cache_control s = (''Cache-Control'', ''max-age='' @ int_text (f64_to_int (dur_seconds (sv_cacheTTL s))))"

section \<open>Currencies\<close>

definition allowedCodes :: "(string list \<Rightarrow> string list) \<Rightarrow> server \<Rightarrow> string list" where
  "allowedCodes order s = (if map_len (sv_currencies s) = 0 then [] else order (map fst (sv_currencies s)))"

definition isAllowed :: "server \<Rightarrow> string \<Rightarrow> bool" where
  "isAllowed s code \<longleftrightarrow> map_get (sv_currencies s) code \<noteq> None"

text \<open>The exchange sort of \<open>sortedKeys\<close>: for every \<open>i\<close>, smaller elements behind it are swapped in.\<close>

definition exchange :: "nat \<Rightarrow> nat \<Rightarrow> string list \<Rightarrow> string list" where
  "exchange i j out = (if out ! j < out ! i then out[i := out ! j, j := out ! i] else out)"

definition sortedKeys :: "(string, unit) go_map \<Rightarrow> string list" where
  "sortedKeys m =
     (let out = map fst m; n = length out
      in fold (\<lambda>i. fold (exchange i) [Suc i..<n]) [0..<n] out)"

section \<open>Health, providers and metrics\<close>

definition status_json :: "string \<Rightarrow> time \<Rightarrow> json option" where
  "status_json status now = json_obj [(''status'', Some (JStr status)), (''time'', Some (JStr (fmt_rfc3339 now)))]"

definition healthz :: "clock \<Rightarrow> handler" where
  "healthz clk s = (writeJSON 200 [] (status_json ''ok'' (clk 0)), s)"

text \<open>The two calls of \<open>time.Since\<close> in the message of a stale store read the clock twice.\<close>

definition readyz :: "engine \<Rightarrow> clock \<Rightarrow> handler" where
  "readyz E clk s =
     (if \<not> sv_store s then (writeError 503 ''store not configured'', s)
      else if 0 < sint (sv_maxAge s) then
        (case LatestReadingAt E (sv_db s) of
           (Inl e, d) \<Rightarrow> (writeError 503 ''store read failed'', s\<lparr>sv_db := d\<rparr>)
         | (Inr None, d) \<Rightarrow> (writeError 503 ''no readings yet'', s\<lparr>sv_db := d\<rparr>)
         | (Inr (Some latest), d) \<Rightarrow>
             if sint (sv_maxAge s) < sint (time_sub (clk 0) latest)
             then (writeError 503 (''newest reading is '' @ duration_String (duration_Round (time_sub (clk 1) latest) second)
                     @ '' old (limit '' @ duration_String (sv_maxAge s) @ '')''), s\<lparr>sv_db := d\<rparr>)
             else (writeJSON 200 [] (status_json ''ready'' (clk 1)), s\<lparr>sv_db := d\<rparr>))
      else (writeJSON 200 [] (status_json ''ready'' (clk 0)), s))"

text \<open>\<open>used, _ := UsageToday\<close> is zero when the query fails.\<close>

definition used_today :: "engine \<Rightarrow> int \<Rightarrow> time \<Rightarrow> db \<Rightarrow> int \<times> db" where
  "used_today E pid now d = (case UsageToday E pid now d of (Inl _, d1) \<Rightarrow> (0, d1) | (Inr n, d1) \<Rightarrow> (n, d1))"

definition budget_label :: "string \<Rightarrow> string" where
  "budget_label name = ''provider='' @ Quote name"

fun refresh_budgets :: "engine \<Rightarrow> time \<Rightarrow> provider list \<Rightarrow> metrics \<Rightarrow> db \<Rightarrow> metrics \<times> db" where
  "refresh_budgets E now [] mx d = (mx, d)"
| "refresh_budgets E now (p # ps) mx d =
     (let label = budget_label (p_Name p);
          mx1 = SetLabeled ''argosfx_budget_used_today'' label (Fin 0) mx;
          (used, d1) = used_today E (p_ID p) now d;
          mx2 = SetLabeled ''argosfx_budget_used_today'' label (f64_of_int used) mx1;
          mx3 = (case p_CallsPerDay p of None \<Rightarrow> mx2
                 | Some n \<Rightarrow> SetLabeled ''argosfx_budget_limit'' label (f64_of_int (sint n)) mx2)
      in refresh_budgets E now ps mx3 d1)"

definition refreshProviderMetrics :: "engine \<Rightarrow> clock \<Rightarrow> server \<Rightarrow> server" where
  "refreshProviderMetrics E clk s =
     (if \<not> sv_store s then s
      else case sv_metrics s of None \<Rightarrow> s | Some mx \<Rightarrow>
        (case ListProviders E (sv_db s) of
           (Inl e, d) \<Rightarrow> s\<lparr>sv_db := d\<rparr>
         | (Inr ps, d) \<Rightarrow>
             let mx1 = SetGauge ''argosfx_providers_total'' (f64_of_int (int (length ps))) mx;
                 (mx2, d2) = refresh_budgets E (clk 0) ps mx1 d;
                 mx3 = SetGauge ''argosfx_providers_enabled'' (f64_of_int (int (length (filter p_Enabled ps)))) mx2;
                 mx4 = (case sv_cache s of None \<Rightarrow> mx3
                        | Some c \<Rightarrow> SetGauge ''argosfx_cache_size'' (f64_of_int (cache_Len c)) mx3)
             in s\<lparr>sv_db := d2, sv_metrics := Some mx4\<rparr>))"

definition metricsHandler :: "engine \<Rightarrow> clock \<Rightarrow> handler" where
  "metricsHandler E clk s =
     (case sv_metrics s of
        None \<Rightarrow> (\<lparr>rp_status = 503, rp_headers = [(''Content-Type'', ''text/plain; charset=utf-8''), (''X-Content-Type-Options'', ''nosniff'')],
                  rp_body = ''metrics not configured'' @ [newline]\<rparr>, s)
      | Some _ \<Rightarrow>
          let s1 = refreshProviderMetrics E clk s
          in (\<lparr>rp_status = 200, rp_headers = [(''Content-Type'', ''text/plain; version=0.0.4; charset=utf-8'')],
               rp_body = (case sv_metrics s1 of None \<Rightarrow> [] | Some mx \<Rightarrow> Text mx)\<rparr>, s1))"

definition provider_view :: "provider \<Rightarrow> int \<Rightarrow> json option" where
  "provider_view p used = json_obj
     ([(''name'', Some (JStr (p_Name p))), (''type'', Some (JStr (p_Type p))),
       (''priority'', Some (json_int (sint (p_Priority p)))), (''enabled'', Some (JBool (p_Enabled p)))]
      @ (case p_CallsPerDay p of None \<Rightarrow> [] | Some n \<Rightarrow> [(''calls_per_day'', Some (json_int (sint n)))])
      @ (if p_ScheduleCron p = [] then [] else [(''schedule'', Some (JStr (p_ScheduleCron p)))])
      @ [(''used_today'', Some (json_int used))])"

fun provider_views :: "engine \<Rightarrow> time \<Rightarrow> provider list \<Rightarrow> db \<Rightarrow> json option list \<times> db" where
  "provider_views E now [] d = ([], d)"
| "provider_views E now (p # ps) d =
     (case used_today E (p_ID p) now d of
        (used, d1) \<Rightarrow> (case provider_views E now ps d1 of (vs, d2) \<Rightarrow> (provider_view p used # vs, d2)))"

definition json_list :: "json option list \<Rightarrow> json option" where
  "json_list vs = (if list_all (\<lambda>v. v \<noteq> None) vs then Some (JArr (map the vs)) else None)"

definition handleProviders :: "engine \<Rightarrow> (db_error \<Rightarrow> string) \<Rightarrow> clock \<Rightarrow> handler" where
  "handleProviders E dbtext clk s =
     (if \<not> sv_store s then (writeError 503 ''store not configured'', s)
      else case ListProviders E (sv_db s) of
             (Inl e, d) \<Rightarrow> (writeError 500 (dbtext e), s\<lparr>sv_db := d\<rparr>)
           | (Inr ps, d) \<Rightarrow> (case provider_views E (clk 0) ps d of
               (vs, d2) \<Rightarrow> (writeJSON 200 [] (json_obj [(''providers'', json_list vs)]), s\<lparr>sv_db := d2\<rparr>)))"

section \<open>Rates\<close>

text \<open>A slice is None when nil, which is encoded as \<open>null\<close>.\<close>

definition json_slice :: "string list option \<Rightarrow> json" where
  "json_slice ss = (case ss of None \<Rightarrow> JNull | Some l \<Rightarrow> json_strings l)"

record rates_response =
  ra_Base :: string
  ra_AsOf :: string
  ra_FreshnessSeconds :: f64
  ra_ProvidersUsed :: "string list option"
  ra_Rates :: "(string, f64) go_map"

definition rates_json :: "rates_response \<Rightarrow> json option" where
  "rates_json r = json_obj
     [(''base'', Some (JStr (ra_Base r))), (''as_of'', Some (JStr (ra_AsOf r))),
      (''freshness_seconds'', json_float (ra_FreshnessSeconds r)),
      (''providers_used'', Some (json_slice (ra_ProvidersUsed r))), (''rates'', json_float_map (ra_Rates r))]"

record single_rate_response =
  sr_From :: string
  sr_To :: string
  sr_Rate :: f64
  sr_AsOf :: string
  sr_FreshnessSeconds :: f64
  sr_ProvidersUsed :: "string list option"

definition single_json :: "single_rate_response \<Rightarrow> json option" where
  "single_json r = json_obj
     [(''from'', Some (JStr (sr_From r))), (''to'', Some (JStr (sr_To r))), (''rate'', json_float (sr_Rate r)),
      (''as_of'', Some (JStr (sr_AsOf r))), (''freshness_seconds'', json_float (sr_FreshnessSeconds r)),
      (''providers_used'', Some (json_slice (sr_ProvidersUsed r)))]"

definition single_field :: "string \<Rightarrow> json \<Rightarrow> single_rate_response \<Rightarrow> single_rate_response option" where
  "single_field name j r =
     (if name = ''FROM'' then map_option (\<lambda>v. r\<lparr>sr_From := v\<rparr>) (dec_string (sr_From r) j)
      else if name = ''TO'' then map_option (\<lambda>v. r\<lparr>sr_To := v\<rparr>) (dec_string (sr_To r) j)
      else if name = ''RATE'' then map_option (\<lambda>v. r\<lparr>sr_Rate := v\<rparr>) (dec_float (sr_Rate r) j)
      else if name = ''AS_OF'' then map_option (\<lambda>v. r\<lparr>sr_AsOf := v\<rparr>) (dec_string (sr_AsOf r) j)
      else if name = ''FRESHNESS_SECONDS''
        then map_option (\<lambda>v. r\<lparr>sr_FreshnessSeconds := v\<rparr>) (dec_float (sr_FreshnessSeconds r) j)
      else if name = ''PROVIDERS_USED''
        then (if j = JNull then Some (r\<lparr>sr_ProvidersUsed := None\<rparr>)
              else map_option (\<lambda>v. r\<lparr>sr_ProvidersUsed := Some v\<rparr>) (dec_slice (dec_string []) [] j))
      else Some r)"

text \<open>\<open>json.Unmarshal(body, &v)\<close>\<close>

definition single_decode :: "string \<Rightarrow> single_rate_response option" where
  "single_decode body = Option.bind (decode_document body)
     (dec_struct single_field \<lparr>sr_From = [], sr_To = [], sr_Rate = Fin 0, sr_AsOf = [], sr_FreshnessSeconds = Fin 0,
        sr_ProvidersUsed = None\<rparr>)"

text \<open>The response for a computed rate; only a pair of equal codes has no provider slice.\<close>

definition single_of :: "time \<Rightarrow> rate_result \<Rightarrow> single_rate_response" where
  "single_of now res = \<lparr>sr_From = res_From res, sr_To = res_To res, sr_Rate = res_Rate res, sr_AsOf = fmt_rfc3339 now,
     sr_FreshnessSeconds = res_FreshnessSeconds res,
     sr_ProvidersUsed = (if res_From res = res_To res then None else Some (res_ProvidersUsed res))\<rparr>"

definition rate_key :: "string \<Rightarrow> string \<Rightarrow> string" where
  "rate_key from to = from @ ''->'' @ to"

text \<open>
  Readings of the clock: 0 for the lookup, 1 to 7 for \<open>Compute\<close>, 8 for the response, 9 for the
  entry that is stored.
\<close>

definition singleRate :: "engine \<Rightarrow> (db_error \<Rightarrow> string) \<Rightarrow> clock \<Rightarrow> string \<Rightarrow> string \<Rightarrow> handler" where
  "singleRate E dbtext clk base quote s =
     (let from = to_upper base; to = to_upper quote in
      if \<not> isAllowed s from \<or> \<not> isAllowed s to then (writeError 400 ''currency not allowed'', s)
      else case sv_agg s of None \<Rightarrow> (writeError 503 ''aggregator not configured'', s) | Some cfg \<Rightarrow>
        (case cacheLookup (clk 0) (rate_key from to) s of
           (Some body, s1) \<Rightarrow> (writeBytes [cache_control s] body, s1)
         | (None, s1) \<Rightarrow>
             (case Compute E cfg (shift 1 clk) from to (sv_db s1) of
                (Inl e, d) \<Rightarrow> (writeError (if is_insufficient e then 503 else 500) (agg_error_text dbtext e), s1\<lparr>sv_db := d\<rparr>)
              | (Inr res, d) \<Rightarrow>
                  (case cacheStore (clk 9) (rate_key from to) (single_json (single_of (clk 8) res)) (s1\<lparr>sv_db := d\<rparr>) of
                     (body, s2) \<Rightarrow> (writeBytes [cache_control s] body, s2)))))"

text \<open>What the loops over rates collect.\<close>

record collected =
  co_Rates :: "(string, f64) go_map"
  co_Providers :: "(string, unit) go_map"
  co_Freshness :: f64

definition collect :: "string \<Rightarrow> f64 \<Rightarrow> f64 \<Rightarrow> string list \<Rightarrow> collected \<Rightarrow> collected" where
  "collect code rate freshness ps c =
     \<lparr>co_Rates = map_set code rate (co_Rates c),
      co_Providers = fold (\<lambda>p. map_set p ()) ps (co_Providers c),
      co_Freshness = (if flt (co_Freshness c) freshness then freshness else co_Freshness c)\<rparr>"

definition nothing_collected :: collected where
  "nothing_collected = \<lparr>co_Rates = [], co_Providers = [], co_Freshness = Fin 0\<rparr>"

definition slice_elems :: "string list option \<Rightarrow> string list" where
  "slice_elems ss = (case ss of None \<Rightarrow> [] | Some l \<Rightarrow> l)"

text \<open>One code: the base itself, a cached pair that can be read, or a computed rate.\<close>

definition rate_round :: "engine \<Rightarrow> agg_config \<Rightarrow> clock \<Rightarrow> string \<Rightarrow> string \<Rightarrow> collected \<Rightarrow> server \<Rightarrow> collected \<times> server" where
  "rate_round E cfg clk base code c s =
     (if code = base then (c\<lparr>co_Rates := map_set code (Fin 1) (co_Rates c)\<rparr>, s)
      else case cacheLookup (clk 0) (rate_key base code) s of (hit, s1) \<Rightarrow>
        (case Option.bind hit single_decode of
           Some v \<Rightarrow> (collect code (sr_Rate v) (sr_FreshnessSeconds v) (slice_elems (sr_ProvidersUsed v)) c, s1)
         | None \<Rightarrow>
             (case Compute E cfg (shift 1 clk) base code (sv_db s1) of
                (Inl e, d) \<Rightarrow> (c, s1\<lparr>sv_db := d\<rparr>)
              | (Inr res, d) \<Rightarrow>
                  (collect code (res_Rate res) (res_FreshnessSeconds res) (res_ProvidersUsed res) c,
                   snd (cacheStore (clk 9) (rate_key base code) (single_json (single_of (clk 8) res)) (s1\<lparr>sv_db := d\<rparr>))))))"

fun rate_rounds :: "engine \<Rightarrow> agg_config \<Rightarrow> clock \<Rightarrow> string \<Rightarrow> string list \<Rightarrow> collected \<Rightarrow> server \<Rightarrow> collected \<times> server" where
  "rate_rounds E cfg clk base [] c s = (c, s)"
| "rate_rounds E cfg clk base (code # codes) c s =
     (case rate_round E cfg clk base code c s of (c1, s1) \<Rightarrow> rate_rounds E cfg (shift 10 clk) base codes c1 s1)"

definition ratesFromBase :: "(string list \<Rightarrow> string list) \<Rightarrow> engine \<Rightarrow> clock \<Rightarrow> string \<Rightarrow> handler" where
  "ratesFromBase order E clk base0 s =
     (let base = to_upper base0 in
      if \<not> isAllowed s base then (writeError 400 (''currency '' @ Quote base @ '' not allowed''), s)
      else case sv_agg s of None \<Rightarrow> (writeError 503 ''aggregator not configured'', s) | Some cfg \<Rightarrow>
        (let codes = allowedCodes order s
         in case rate_rounds E cfg clk base codes nothing_collected s of (c, s1) \<Rightarrow>
              (writeJSON 200 [cache_control s] (rates_json
                 \<lparr>ra_Base = base, ra_AsOf = fmt_rfc3339 (clk (10 * length codes)), ra_FreshnessSeconds = co_Freshness c,
                  ra_ProvidersUsed = Some (sortedKeys (co_Providers c)), ra_Rates = co_Rates c\<rparr>), s1)))"

text \<open>\<open>AllCurrencies\<close> reads the clock \<open>2 n + 1\<close> times for \<open>n\<close> codes.\<close>

definition allRates :: "(string list \<Rightarrow> string list) \<Rightarrow> engine \<Rightarrow> clock \<Rightarrow> handler" where
  "allRates order E clk s =
     (case sv_agg s of None \<Rightarrow> (writeError 503 ''aggregator not configured'', s) | Some cfg \<Rightarrow>
        (let codes = allowedCodes order s; n = 2 * length codes + 2 in
         if codes = [] then
           (writeJSON 200 [] (rates_json \<lparr>ra_Base = ''USD'', ra_AsOf = fmt_rfc3339 (clk 0), ra_FreshnessSeconds = Fin 0,
              ra_ProvidersUsed = None, ra_Rates = []\<rparr>), s)
         else case cacheLookup (clk 0) ''USD:*'' s of
                (Some body, s1) \<Rightarrow> (writeBytes [] body, s1)
              | (None, s1) \<Rightarrow>
                  (case AllCurrencies E cfg (shift 1 clk) codes (sv_db s1) of (results, d) \<Rightarrow>
                    let c = fold (\<lambda>(code, res). collect code (res_Rate res) (res_FreshnessSeconds res) (res_ProvidersUsed res))
                              results nothing_collected;
                        resp = \<lparr>ra_Base = ''USD'', ra_AsOf = fmt_rfc3339 (clk n), ra_FreshnessSeconds = co_Freshness c,
                                ra_ProvidersUsed = Some (sortedKeys (co_Providers c)), ra_Rates = co_Rates c\<rparr>
                    in case cacheStore (clk (n + 1)) ''USD:*'' (rates_json resp) (s1\<lparr>sv_db := d\<rparr>) of
                         (body, s2) \<Rightarrow> (writeBytes [cache_control s] body, s2))))"

section \<open>History\<close>

text \<open>\<open>time.Time\<close> is encoded with its fraction of a second, and only for years of four digits.\<close>

definition json_time :: "time \<Rightarrow> json option" where
  "json_time t =
     (let y = fst (civil_of_days (day_number t))
      in if y < 0 \<or> 9999 < y then None
         else Some (JStr (butlast (fmt_rfc3339 t) @ frac_digits 9 (nat (t mod ns_per_sec)) @ ''Z'')))"

definition point_json :: "history_point \<Rightarrow> json option" where
  "point_json p = json_obj [(''fetched_at'', json_time (hp_FetchedAt p)), (''rate'', json_float (hp_Rate p))]"

record history_response =
  hr_From :: string
  hr_To :: string
  hr_Start :: string
  hr_End :: string
  hr_Step :: string
  hr_Points :: "history_point list"

definition history_json :: "history_response \<Rightarrow> json option" where
  "history_json r = json_obj
     [(''from'', Some (JStr (hr_From r))), (''to'', Some (JStr (hr_To r))), (''start'', Some (JStr (hr_Start r))),
      (''end'', Some (JStr (hr_End r))), (''step'', Some (JStr (hr_Step r))), (''points'', json_list (map point_json (hr_Points r)))]"

text \<open>A query parameter: the default when it is empty, an error when it cannot be read.\<close>

definition param :: "(string \<Rightarrow> 'a option) \<Rightarrow> string \<Rightarrow> 'a \<Rightarrow> 'a option" where
  "param parse v dflt = (if v = [] then Some dflt else parse v)"

definition history_window :: "time \<Rightarrow> (string \<Rightarrow> string) \<Rightarrow> string + time \<times> time \<times> duration" where
  "history_window now q =
     (case param parse_rfc3339 (q ''end'') now of
        None \<Rightarrow> Inl ''end must be RFC3339''
      | Some finish \<Rightarrow> (case param parse_rfc3339 (q ''start'') (time_add now (- 24 * hour)) of
          None \<Rightarrow> Inl ''start must be RFC3339''
        | Some start \<Rightarrow> (case param ParseDuration (q ''step'') hour of
            None \<Rightarrow> Inl ''step must be a Go duration (e.g. 1m, 1h, 24h)''
          | Some step \<Rightarrow>
              if q ''step'' \<noteq> [] \<and> (sint step < sint minute \<or> sint (24 * hour) < sint step)
              then Inl ''step must be between 1m and 24h'' else Inr (start, finish, step))))"

definition history_key :: "string \<Rightarrow> string \<Rightarrow> time \<Rightarrow> time \<Rightarrow> duration \<Rightarrow> string" where
  "history_key from to start finish step =
     ''hist:'' @ from @ '':'' @ to @ '':'' @ fmt_rfc3339 start @ '':'' @ fmt_rfc3339 finish @ '':'' @ duration_String step"

definition historyHandler ::
    "engine \<Rightarrow> (db_error \<Rightarrow> string) \<Rightarrow> clock \<Rightarrow> string \<Rightarrow> string \<Rightarrow> (string \<Rightarrow> string) \<Rightarrow> handler" where
  "historyHandler E dbtext clk base quote q s =
     (case sv_agg s of None \<Rightarrow> (writeError 503 ''aggregator not configured'', s) | Some cfg \<Rightarrow>
        (let from = to_upper base; to = to_upper quote in
         if \<not> isAllowed s from \<or> \<not> isAllowed s to then (writeError 400 ''currency not allowed'', s)
         else case history_window (clk 0) q of
                Inl msg \<Rightarrow> (writeError 400 msg, s)
              | Inr (start, finish, step) \<Rightarrow>
                  (let key = history_key from to start finish step in
                   case cacheLookup (clk 1) key s of
                     (Some body, s1) \<Rightarrow> (writeBytes [cache_control s] body, s1)
                   | (None, s1) \<Rightarrow>
                       (case AggHistory E cfg from to start finish step (sv_db s1) of
                          (Inl e, d) \<Rightarrow> (writeError 400 (agg_error_text dbtext e), s1\<lparr>sv_db := d\<rparr>)
                        | (Inr pts, d) \<Rightarrow>
                            (case cacheStore (clk 2) key (history_json
                                \<lparr>hr_From = from, hr_To = to, hr_Start = fmt_rfc3339 start, hr_End = fmt_rfc3339 finish,
                                 hr_Step = duration_String step, hr_Points = pts\<rparr>) (s1\<lparr>sv_db := d\<rparr>) of
                               (body, s2) \<Rightarrow> (writeBytes [cache_control s] body, s2))))))"

section \<open>Routes\<close>

datatype route =
    Healthz | Readyz | MetricsText | AllRates | RatesFrom string | SingleRate string string
  | RateHistory string string "string \<Rightarrow> string" | ListedProviders

record world =
  w_engine :: engine
  w_dbtext :: "db_error \<Rightarrow> string"
  w_order :: "string list \<Rightarrow> string list"

fun handle :: "world \<Rightarrow> clock \<Rightarrow> route \<Rightarrow> handler" where
  "handle w clk Healthz = healthz clk"
| "handle w clk Readyz = readyz (w_engine w) clk"
| "handle w clk MetricsText = metricsHandler (w_engine w) clk"
| "handle w clk AllRates = allRates (w_order w) (w_engine w) clk"
| "handle w clk (RatesFrom base) = ratesFromBase (w_order w) (w_engine w) clk base"
| "handle w clk (SingleRate base quote) = singleRate (w_engine w) (w_dbtext w) clk base quote"
| "handle w clk (RateHistory base quote q) = historyHandler (w_engine w) (w_dbtext w) clk base quote q"
| "handle w clk ListedProviders = handleProviders (w_engine w) (w_dbtext w) clk"

end
