(* ===== verification/Migrate.thy ===== *)
theory Migrate
  imports Store
begin

text \<open>
  Opening the store: \<open>Open\<close> and \<open>migrate\<close> of \<^verbatim>\<open>internal/store/store.go\<close>. A database file is the
  rows of \<open>schema_migrations\<close>, if that table exists, and the list of migration scripts that have
  been executed on it, which stands for its schema. The directory entries of the embedded file
  system are an argument. Statements fail by number as in \<open>engine\<close>; reading an embedded file
  cannot fail, because the entry comes from the same file system. \<open>now\<close> gives the time at which
  a script is recorded.
\<close>

record dbfile =
  df_applied :: "(string \<times> string) list option"
  df_schema :: "string list"
  df_stmts :: nat

record dir_entry =
  de_name :: string
  de_dir :: bool

datatype open_error = OpenSqlite db_error | PingFailed db_error | CreateFailed db_error
  | SelectFailed db_error | ApplyFailed string db_error | RecordFailed db_error

text \<open>One statement on the file, as \<open>stmt\<close> is one on the tables.\<close>

definition fstmt :: "engine \<Rightarrow> dbfile \<Rightarrow> db_error option \<times> dbfile" where
  "fstmt E f = (fault E (df_stmts f), f\<lparr>df_stmts := Suc (df_stmts f)\<rparr>)"

definition has_sql_suffix :: "string \<Rightarrow> bool" where
  "has_sql_suffix s \<longleftrightarrow> 4 \<le> length s \<and> drop (length s - 4) s = ''.sql''"

definition migration_names :: "dir_entry list \<Rightarrow> string list" where
  "migration_names es = sort (map de_name (filter (\<lambda>e. \<not> de_dir e \<and> has_sql_suffix (de_name e)) es))"

definition applied_names :: "dbfile \<Rightarrow> string list" where
  "applied_names f = (case df_applied f of None \<Rightarrow> [] | Some rows \<Rightarrow> map fst rows)"

fun apply_all :: "engine \<Rightarrow> (string \<Rightarrow> time) \<Rightarrow> string list \<Rightarrow> dbfile \<Rightarrow> open_error option \<times> dbfile" where
  "apply_all E now [] f = (None, f)"
| "apply_all E now (name # names) f =
     (case fstmt E f of
        (Some e, f1) \<Rightarrow> (Some (SelectFailed e), f1)
      | (None, f1) \<Rightarrow>
          if name \<in> set (applied_names f1) then apply_all E now names f1
          else case fstmt E f1 of
                 (Some e, f2) \<Rightarrow> (Some (ApplyFailed name e), f2)
               | (None, f2) \<Rightarrow>
                   let f3 = f2\<lparr>df_schema := df_schema f2 @ [name]\<rparr>
                   in case fstmt E f3 of
                        (Some e, f4) \<Rightarrow> (Some (RecordFailed e), f4)
                      | (None, f4) \<Rightarrow> apply_all E now names
                          (f4\<lparr>df_applied := map_option (\<lambda>rows. rows @ [(name, fmt_rfc3339 (now name))]) (df_applied f4)\<rparr>))"

definition migrate :: "engine \<Rightarrow> (string \<Rightarrow> time) \<Rightarrow> dir_entry list \<Rightarrow> dbfile \<Rightarrow> open_error option \<times> dbfile" where
  "migrate E now es f =
     (case fstmt E f of
        (Some e, f1) \<Rightarrow> (Some (CreateFailed e), f1)
      | (None, f1) \<Rightarrow> apply_all E now (migration_names es)
          (f1\<lparr>df_applied := Some (case df_applied f1 of None \<Rightarrow> [] | Some rows \<Rightarrow> rows)\<rparr>))"

text \<open>\<open>sql.Open\<close> and the ping are the first two calls; on any error the handle is closed.\<close>

definition Open :: "engine \<Rightarrow> (string \<Rightarrow> time) \<Rightarrow> dir_entry list \<Rightarrow> dbfile \<Rightarrow> open_error option \<times> dbfile" where
  "Open E now es f =
     (case fstmt E f of
        (Some e, f1) \<Rightarrow> (Some (OpenSqlite e), f1)
      | (None, f1) \<Rightarrow> (case fstmt E f1 of
          (Some e, f2) \<Rightarrow> (Some (PingFailed e), f2)
        | (None, f2) \<Rightarrow> migrate E now es f2))"

definition new_file :: dbfile where
  "new_file = \<lparr>df_applied = None, df_schema = [], df_stmts = 0\<rparr>"

section \<open>What opening does\<close>

text \<open>The rows record distinct names, each of a script that was executed.\<close>

definition file_ok :: "dbfile \<Rightarrow> bool" where
  "file_ok f \<longleftrightarrow> distinct (applied_names f) \<and> set (applied_names f) \<subseteq> set (df_schema f)"

lemma applied_names_simps [simp]:
  "applied_names (f\<lparr>df_stmts := n\<rparr>) = applied_names f" "applied_names (f\<lparr>df_schema := s\<rparr>) = applied_names f"
  "applied_names (f\<lparr>df_applied := Some (case df_applied f of None \<Rightarrow> [] | Some rows \<Rightarrow> rows)\<rparr>) = applied_names f"
  by (simp_all add: applied_names_def split: option.split)

lemma file_ok_stmts [simp]: "file_ok (f\<lparr>df_stmts := n\<rparr>) = file_ok f"
  by (simp add: file_ok_def)

lemma apply_all_spec:
  assumes "file_ok f" and "df_applied f \<noteq> None" and "distinct names"
    and "apply_all E now names f = (out, f')"
  shows "file_ok f' \<and> (\<exists>done new. df_schema f' = df_schema f @ new
    \<and> applied_names f' = applied_names f @ done \<and> df_applied f' \<noteq> None
    \<and> set done \<subseteq> set new \<and> set new \<subseteq> set names - set (applied_names f)
    \<and> (out = None \<longrightarrow> new = done \<and> done = filter (\<lambda>n. n \<notin> set (applied_names f)) names))"
  using assms
proof (induction names arbitrary: f)
  case Nil
  then show ?case by auto
next
  case (Cons name names)
  let ?f1 = "f\<lparr>df_stmts := Suc (df_stmts f)\<rparr>"
  show ?case
  proof (cases "fault E (df_stmts f)")
    case (Some e)
    then show ?thesis using Cons.prems by (auto simp: fstmt_def)
  next
    case n1: None
    show ?thesis
    proof (cases "name \<in> set (applied_names f)")
      case True
      then have r: "apply_all E now names ?f1 = (out, f')" using Cons.prems(4) n1 by (simp add: fstmt_def)
      have "file_ok ?f1" "df_applied ?f1 \<noteq> None" "distinct names" using Cons.prems by simp_all
      from Cons.IH [OF this r] True show ?thesis by fastforce
    next
      case False
      note n1 [simp] and False [simp]
      let ?f3 = "f\<lparr>df_stmts := Suc (Suc (df_stmts f)), df_schema := df_schema f @ [name]\<rparr>"
      let ?rows = "map_option (\<lambda>rows. rows @ [(name, fmt_rfc3339 (now name))]) (df_applied f)"
      let ?f5 = "?f3\<lparr>df_stmts := Suc (Suc (Suc (df_stmts f))), df_applied := ?rows\<rparr>"
      show ?thesis
      proof (cases "fault E (Suc (df_stmts f))")
        case (Some e)
        then show ?thesis using Cons.prems by (auto simp: fstmt_def)
      next
        case n2: None
        show ?thesis
        proof (cases "fault E (Suc (Suc (df_stmts f)))")
          case (Some e)
          then have "f' = ?f3\<lparr>df_stmts := Suc (Suc (Suc (df_stmts f)))\<rparr>" "out \<noteq> None"
            using Cons.prems(4) n2 by (auto simp: fstmt_def Let_def)
          then show ?thesis using Cons.prems
            by (auto simp: file_ok_def intro!: exI [of _ "[]"] exI [of _ "[name]"])
        next
          case None
          then have r: "apply_all E now names ?f5 = (out, f')"
            using Cons.prems(4) n2 by (simp add: fstmt_def Let_def)
          have a: "applied_names ?f5 = applied_names f @ [name]"
            using Cons.prems(2) by (auto simp: applied_names_def split: option.splits)
          have "set (applied_names ?f5) \<subseteq> set (df_schema ?f5)" "distinct (applied_names ?f5)"
            using Cons.prems(1) unfolding a file_ok_def by auto
          then have "file_ok ?f5" unfolding file_ok_def by blast
          moreover have "df_applied ?f5 \<noteq> None" "distinct names" using Cons.prems(2,3) by simp_all
          ultimately have k: "file_ok ?f5" "df_applied ?f5 \<noteq> None" "distinct names" by blast+
          from Cons.IH [OF k r, unfolded a] obtain dn nw where "file_ok f'" "df_schema f' = df_schema f @ [name] @ nw"
            "applied_names f' = applied_names f @ [name] @ dn" "df_applied f' \<noteq> None" "set dn \<subseteq> set nw"
            "set nw \<subseteq> set names - set (applied_names f @ [name])"
            "out = None \<longrightarrow> nw = dn \<and> dn = filter (\<lambda>n. n \<notin> set (applied_names f @ [name])) names"
            by auto
          moreover have "filter (\<lambda>n. n \<notin> set (applied_names f @ [name])) names = filter (\<lambda>n. n \<notin> set (applied_names f)) names"
            using Cons.prems(3) by (intro filter_cong) auto
          ultimately show ?thesis
            by (intro conjI exI [of _ "name # dn"] exI [of _ "name # nw"]) auto
        qed
      qed
    qed
  qed
qed

lemma Open_apply:
  assumes "Open E now es f = (None, f')"
  obtains g where "apply_all E now (migration_names es) g = (None, f')" "applied_names g = applied_names f"
    "df_schema g = df_schema f" "df_applied g \<noteq> None"
proof -
  define g where "g = f\<lparr>df_stmts := Suc (Suc (Suc (df_stmts f))),
    df_applied := Some (case df_applied f of None \<Rightarrow> [] | Some rows \<Rightarrow> rows)\<rparr>"
  have "apply_all E now (migration_names es) g = (None, f')"
    using assms by (auto simp: Open_def migrate_def fstmt_def g_def split: option.splits)
  moreover have "applied_names g = applied_names f" by (simp add: g_def applied_names_def split: option.split)
  moreover have "df_schema g = df_schema f" "df_applied g \<noteq> None" by (simp_all add: g_def)
  ultimately show ?thesis by (rule that)
qed

text \<open>
  C36: opening a database brings its schema up to date exactly once. When \<open>Open\<close> succeeds, the
  scripts it has executed are those of the directory that were not recorded before, each once
  and in name order, and all of them are recorded now, earlier records being kept; opening the
  file again executes no script at all.
\<close>

theorem open_migrates_once:
  assumes "file_ok f" and "distinct (map de_name es)" and "Open E now es f = (None, f')"
  shows "file_ok f'
    \<and> df_schema f' = df_schema f @ filter (\<lambda>n. n \<notin> set (applied_names f)) (migration_names es)
    \<and> applied_names f' = applied_names f @ filter (\<lambda>n. n \<notin> set (applied_names f)) (migration_names es)
    \<and> sorted (migration_names es)
    \<and> (\<forall>E' now' f''. Open E' now' es f' = (None, f'') \<longrightarrow> df_schema f'' = df_schema f'
          \<and> applied_names f'' = applied_names f')"
proof -
  have dist: "distinct (migration_names es)"
    using assms(2) by (simp add: migration_names_def distinct_map_filter)
  have once: "file_ok b \<and> df_schema b = df_schema a @ filter (\<lambda>n. n \<notin> set (applied_names a)) (migration_names es)
      \<and> applied_names b = applied_names a @ filter (\<lambda>n. n \<notin> set (applied_names a)) (migration_names es)"
    if ok: "file_ok a" and o: "Open F clk es a = (None, b)" for F clk a b
  proof -
    obtain g where g: "apply_all F clk (migration_names es) g = (None, b)" "applied_names g = applied_names a"
      "df_schema g = df_schema a" "df_applied g \<noteq> None" by (rule Open_apply [OF o])
    have "file_ok g" using ok g by (simp add: file_ok_def)
    from apply_all_spec [OF this g(4) dist g(1)] g show ?thesis by auto
  qed
  note 1 = once [OF assms(1,3)]
  have "df_schema f'' = df_schema f' \<and> applied_names f'' = applied_names f'" if "Open E' now' es f' = (None, f'')" for E' now' f''
  proof -
    have "filter (\<lambda>n. n \<notin> set (applied_names f')) (migration_names es) = []"
      using 1 by (auto simp: filter_empty_conv)
    then show ?thesis using once [OF _ that] 1 by simp
  qed
  with 1 show ?thesis by (simp add: migration_names_def)
qed

definition sample_dir :: "dir_entry list" where
  "sample_dir = [\<lparr>de_name = ''0001_init.sql'', de_dir = False\<rparr>, \<lparr>de_name = ''README'', de_dir = False\<rparr>]"

theorem open_migrates_once_witness:
  "\<exists>f'. Open plain_engine (\<lambda>_. 0) sample_dir new_file = (None, f')
     \<and> df_schema f' = [''0001_init.sql''] \<and> applied_names f' = [''0001_init.sql'']"
proof -
  have names: "migration_names sample_dir = [''0001_init.sql'']"
    by (simp add: migration_names_def sample_dir_def has_sql_suffix_def)
  obtain f' where o: "Open plain_engine (\<lambda>_. 0) sample_dir new_file = (None, f')"
    by (simp add: Open_def migrate_def fstmt_def names new_file_def applied_names_def Let_def)
  have "file_ok new_file" "distinct (map de_name sample_dir)"
    by (simp_all add: file_ok_def new_file_def applied_names_def sample_dir_def)
  from open_migrates_once [OF this o] o show ?thesis
    by (auto simp: names new_file_def applied_names_def)
qed

end
