(* ===== verification/Program.thy ===== *)
theory Program
  imports HttpApi Adapters Migrate
begin

text \<open>
  \<^verbatim>\<open>cmd/argosfx/main.go\<close>: how the process starts, and how it runs. The start composes the
  components: it loads the configuration and the currencies, opens the store, registers the
  enabled providers with the scheduler, schedules the pruning, and builds the HTTP server. The
  running program is the manager and the server over one database and one metrics registry; it
  moves when the cron library runs an entry or a request is served.

  The environment variables, the files, the network and the clock are the fields of \<open>host\<close>.
  \<open>h_migrated_at\<close> is the reading of the clock when a script is recorded, \<open>h_now\<close> the reading at
  an upsert, by the number of statements executed before it.
  A signal is a step of its own; logging and the sockets are left out.
\<close>

section \<open>Starting\<close>

record host =
  h_env :: "string \<Rightarrow> string"
  h_read_file :: "string \<Rightarrow> string + string"
  h_yaml :: "string \<Rightarrow> string + config"
  h_disk :: "string \<Rightarrow> dbfile \<times> db"
  h_migrations :: "dir_entry list"
  h_engine :: engine
  h_cron_error :: "string \<Rightarrow> string option"
  h_send :: "time \<Rightarrow> network"
  h_bad_url :: url_check
  h_order :: "string list \<Rightarrow> string list"
  h_migrated_at :: "string \<Rightarrow> time"
  h_now :: "nat \<Rightarrow> time"

record program =
  pg_listen :: string
  pg_manager :: manager
  pg_server :: server

datatype start_error = LoadConfig config_error | CurrenciesFailed config_error | OpenStore open_error

definition envOr :: "(string \<Rightarrow> string) \<Rightarrow> string \<Rightarrow> string \<Rightarrow> string" where
  "envOr env key fallback = (if env key \<noteq> [] then env key else fallback)"

definition derefInt :: "go_int option \<Rightarrow> go_int" where
  "derefInt p = (case p of None \<Rightarrow> 0 | Some n \<Rightarrow> n)"

definition quoteCodes :: "(string list \<Rightarrow> string list) \<Rightarrow> currencies \<Rightarrow> string \<Rightarrow> string list" where
  "quoteCodes order c base = filter (\<lambda>code. code \<noteq> base) (order (map fst c))"

text \<open>\<open>store.Provider{...}\<close>; the fields that are not named are zero.\<close>

definition stored_provider :: "provider_cfg \<Rightarrow> provider" where
  "stored_provider pc = \<lparr>p_ID = 0, p_Name = cp_Name pc, p_Type = cp_Type pc, p_Config = cp_Config pc,
     p_Priority = cp_Priority pc, p_CallsPerDay = cp_CallsPerDay pc, p_ScheduleCron = cp_ScheduleCron pc,
     p_Enabled = cp_Enabled pc, p_CreatedAt = zero_time, p_UpdatedAt = zero_time\<rparr>"

definition job_of :: "host \<Rightarrow> string list \<Rightarrow> provider_cfg \<Rightarrow> adapter \<Rightarrow> int \<Rightarrow> provider_job" where
  "job_of h codes pc a pid = \<lparr>j_ProviderID = pid, j_Provider = provider_of (h_send h) (h_bad_url h) a,
     j_CurrencyCodes = codes, j_Base = ''USD'', j_CallsPerDay = derefInt (cp_CallsPerDay pc)\<rparr>"

text \<open>One provider of the configuration; the flag says whether it was added.\<close>

definition register :: "host \<Rightarrow> string list \<Rightarrow> provider_cfg \<Rightarrow> manager \<Rightarrow> bool \<times> manager" where
  "register h codes pc m =
     (if \<not> IsEnabled pc then (False, m)
      else case NewFromConfig pc of
             Inl e \<Rightarrow> (False, m)
           | Inr a \<Rightarrow> (case UpsertProvider (h_engine h) (h_now h (stmts (mg_db m))) (stored_provider pc) (mg_db m) of
               (Inl e, d) \<Rightarrow> (False, m\<lparr>mg_db := d\<rparr>)
             | (Inr pid, d) \<Rightarrow>
                 let sched = ComputeSchedule (derefInt (cp_CallsPerDay pc)) (cp_ScheduleCron pc)
                 in case Add (h_cron_error h) (job_of h codes pc a pid) sched (m\<lparr>mg_db := d\<rparr>) of
                      (err, m1) \<Rightarrow> (err = None, m1)))"

fun register_all :: "host \<Rightarrow> string list \<Rightarrow> provider_cfg list \<Rightarrow> manager \<Rightarrow> nat \<times> manager" where
  "register_all h codes [] m = (0, m)"
| "register_all h codes (pc # pcs) m =
     (case register h codes pc m of
        (ok, m1) \<Rightarrow> (case register_all h codes pcs m1 of
          (n, m2) \<Rightarrow> (if ok then Suc n else n, m2)))"

definition schedule_retention :: "host \<Rightarrow> go_int \<Rightarrow> manager \<Rightarrow> manager" where
  "schedule_retention h days m =
     (if 0 < sint days then snd (AddFunc (h_cron_error h) ''@daily'' (PruneJob (days * 24 * hour)) m) else m)"

definition aggregator_of :: "config \<Rightarrow> agg_config" where
  "aggregator_of c = New \<lparr>OutlierTolerancePct = ca_OutlierTolerancePct (cf_Aggregator c),
     MinProviders = ca_MinProviders (cf_Aggregator c), MaxAgeSeconds = ca_MaxAgeSeconds (cf_Aggregator c), Base = ''USD''\<rparr>"

text \<open>The part of \<open>main\<close> from a configuration and an opened database to the running server.\<close>

definition assemble :: "host \<Rightarrow> config \<Rightarrow> currencies \<Rightarrow> db \<Rightarrow> program" where
  "assemble h c currencies d =
     (let codes = quoteCodes (h_order h) currencies ''USD'';
          m0 = SetMetrics NewMetrics (NewManager d);
          m1 = snd (register_all h codes (cf_Providers c) m0);
          m2 = Start (schedule_retention h (ca_RetentionDays (cf_Aggregator c)) m1)
      in \<lparr>pg_listen = cs_Listen (cf_Server c), pg_manager = m2,
          pg_server = NewServer (mg_db m2)
            \<lparr>op_Aggregator = Some (aggregator_of c), op_Store = Some (mg_db m2),
             op_Cache = Some (NewCache (ComputeTTL (cf_Cache c))), op_Currencies = currencies,
             op_CacheTTL = HTTPMaxAge (cf_Cache c), op_Metrics = mg_metrics m2, op_MaxAge = MaxAge (cf_Aggregator c)\<rparr>\<rparr>)"

text \<open>
  The tables as the single connection sees them after \<open>Open\<close>. The last insert rowid is that of
  the newest row of \<open>schema_migrations\<close> if a script was recorded; otherwise nothing has been
  inserted yet.
\<close>

definition opened :: "dbfile \<Rightarrow> dbfile \<Rightarrow> db \<Rightarrow> db" where
  "opened before after tables = tables\<lparr>stmts := df_stmts after,
     last_rowid := (if length (applied_names after) = length (applied_names before) then 0
                    else int (length (applied_names after)))\<rparr>"

definition db_path :: "host \<Rightarrow> string" where
  "db_path h = envOr (h_env h) ''ARGOSFX_DB_PATH'' ''/data/argosfx.db''"

definition startup :: "host \<Rightarrow> start_error + program" where
  "startup h =
     (case Load (h_read_file h) (h_yaml h) (envOr (h_env h) ''ARGOSFX_CONFIG_PATH'' ''/etc/argosfx/config.yaml'') of
        Inl e \<Rightarrow> Inl (LoadConfig e)
      | Inr c \<Rightarrow> (case LoadCurrencies (h_env h) of
          Inl e \<Rightarrow> Inl (CurrenciesFailed e)
        | Inr currencies \<Rightarrow>
            let (file, tables) = h_disk h (db_path h)
            in case Open (h_engine h) (h_migrated_at h) (h_migrations h) file of
                 (Some e, _) \<Rightarrow> Inl (OpenStore e)
               | (None, f) \<Rightarrow> Inr (assemble h c currencies (opened file f tables))))"

text \<open>\<open>runHealthcheck\<close> with the HTTP client as \<open>get\<close>: the exit status of the process.\<close>

definition runHealthcheck :: "(string \<Rightarrow> string) \<Rightarrow> (string \<Rightarrow> string + http_response) \<Rightarrow> int" where
  "runHealthcheck env get =
     (case get (''http://127.0.0.1'' @ envOr env ''ARGOSFX_LISTEN'' '':8080'' @ ''/v1/healthz'') of
        Inl _ \<Rightarrow> 1
      | Inr r \<Rightarrow> if rs_status r \<noteq> 200 then 1 else 0)"

datatype outcome = Exited int | Listening program

text \<open>\<open>main\<close> up to listening; \<open>args\<close> are the arguments with the name of the program.\<close>

definition main_program :: "string list \<Rightarrow> (string \<Rightarrow> string + http_response) \<Rightarrow> host \<Rightarrow> outcome" where
  "main_program args get h =
     (if 1 < length args \<and> args ! 1 = ''--healthcheck'' then Exited (runHealthcheck (h_env h) get)
      else case startup h of Inl _ \<Rightarrow> Exited 1 | Inr p \<Rightarrow> Listening p)"

section \<open>Running\<close>

text \<open>The server answers on the database and the metrics it shares with the manager.\<close>

definition serve :: "world \<Rightarrow> clock \<Rightarrow> route \<Rightarrow> program \<Rightarrow> response \<times> program" where
  "serve w clk rt p =
     (case handle w clk rt ((pg_server p)\<lparr>sv_db := mg_db (pg_manager p), sv_metrics := mg_metrics (pg_manager p)\<rparr>) of
        (r, s) \<Rightarrow> (r, p\<lparr>pg_manager := (pg_manager p)\<lparr>mg_db := sv_db s, mg_metrics := sv_metrics s\<rparr>, pg_server := s\<rparr>))"

text \<open>The function of an entry; what \<open>Prune\<close> returns is only logged.\<close>

fun run_entry :: "engine \<Rightarrow> clock \<Rightarrow> cron_fn \<Rightarrow> manager \<Rightarrow> manager" where
  "run_entry E clk (FetchJob j) m = runWithTimeout E clk j m"
| "run_entry E clk (PruneJob retention) m = m\<lparr>mg_db := snd (Prune E (clk 0) retention (mg_db m))\<rparr>"

inductive program_step :: "world \<Rightarrow> program \<Rightarrow> program \<Rightarrow> bool" for w :: world where
  fire: "mg_running (pg_manager p) \<Longrightarrow> (expr, fn) \<in> set (mg_entries (pg_manager p)) \<Longrightarrow> \<forall>i. fmt_range (clk i) \<Longrightarrow>
    program_step w p (p\<lparr>pg_manager := run_entry (w_engine w) clk fn (pg_manager p)\<rparr>)"
| request: "program_step w p (snd (serve w clk rt p))"

inductive_cases program_stepE: "program_step w p p'"

section \<open>Shutting down\<close>

text \<open>
  The end of \<open>main\<close>. A signal makes the server shut down, which takes no new requests and waits
  at most ten seconds for those it has; scheduled entries still run. Then \<open>main\<close> returns, and its
  deferred calls stop the manager before the database is closed. If listening fails, the process
  exits at once and the deferred calls do not run.
\<close>

datatype phase = Serving | ShuttingDown | Finished int

inductive life_step :: "world \<Rightarrow> phase \<times> program \<Rightarrow> phase \<times> program \<Rightarrow> bool" for w :: world where
  work: "ph = Serving \<or> ph = ShuttingDown \<Longrightarrow> program_step w p p' \<Longrightarrow> life_step w (ph, p) (ph, p')"
| signal: "life_step w (Serving, p) (ShuttingDown, p)"
| return: "life_step w (ShuttingDown, p) (Finished 0, p\<lparr>pg_manager := Stop (pg_manager p)\<rparr>)"
| listen_failed: "life_step w (Serving, p) (Finished 1, p)"

inductive_cases life_stepE: "life_step w x y"
inductive_simps life_step_finished: "life_step w (Finished n, p) y"

end
