(* ===== verification/RateFacts.thy ===== *)
theory RateFacts
  imports Aggregator StoreFacts
begin

text \<open>
  What the rates of \<open>Aggregator\<close> rest on. The aggregator reads through an interface, the locale
  \<open>rate_source\<close>: a query for the newest readings and one for the providers, with what they
  promise to each other. \<open>Store\<close> provides it (the interpretation \<open>st\<close>); the facts on the names,
  sources and freshness of a rate are proved inside the locale.
\<close>

section \<open>The loops of a direct rate\<close>

lemma name_by_id_get:
  assumes "distinct (map p_ID ps)"
  shows "map_get (name_by_id ps) i = Some n \<longleftrightarrow> (\<exists>p \<in> set ps. p_ID p = i \<and> p_Name p = n)"
proof
  assume "map_get (name_by_id ps) i = Some n"
  then show "\<exists>p \<in> set ps. p_ID p = i \<and> p_Name p = n"
    using gm.get_fold_Some [OF gm.wf_empty, of p_ID p_Name ps i n]
    by (auto simp: name_by_id_def gm.get_empty)
next
  assume "\<exists>p \<in> set ps. p_ID p = i \<and> p_Name p = n"
  then obtain p where p: "p \<in> set ps" "p_ID p = i" "p_Name p = n" by auto
  then have "i \<in> p_ID ` set ps" by auto
  then obtain m where m: "map_get (name_by_id ps) i = Some m"
    using gm.get_fold [OF gm.wf_empty, of p_ID p_Name ps i] by (auto simp: name_by_id_def)
  then obtain q where "q \<in> set ps" "p_ID q = i" "p_Name q = m"
    using gm.get_fold_Some [OF gm.wf_empty, of p_ID p_Name ps i m]
    by (auto simp: name_by_id_def gm.get_empty)
  with p assms have "q = p" by (auto simp: distinct_map dest: inj_onD)
  with m \<open>p_Name q = m\<close> p show "map_get (name_by_id ps) i = Some n" by simp
qed

lemma source_map_wf: "map_wf (source_map names rs)"
  unfolding source_map_def by (rule gm.wf_fold [OF gm.wf_empty])

lemma source_map_get:
  "map_get (source_map names rs) n = Some s \<Longrightarrow>
   \<exists>r \<in> set rs. name_of names (r_ProviderID r) = n \<and> s = source_of names r"
  using gm.get_fold_Some [OF gm.wf_empty, of "\<lambda>r. name_of names (r_ProviderID r)" "source_of names" rs n s]
  by (auto simp: source_map_def gm.get_empty)

lemma source_map_dom: "dom (map_get (source_map names rs)) = (\<lambda>r. name_of names (r_ProviderID r)) ` set rs"
  unfolding source_map_def by (simp add: gm.dom_fold [OF gm.wf_empty] gm.get_empty)

lemma newest_time_fold:
  "(\<forall>r \<in> set rs. r_FetchedAt r \<le> fold (\<lambda>r f. if f < r_FetchedAt r then r_FetchedAt r else f) rs t)
   \<and> t \<le> fold (\<lambda>r f. if f < r_FetchedAt r then r_FetchedAt r else f) rs t
   \<and> fold (\<lambda>r f. if f < r_FetchedAt r then r_FetchedAt r else f) rs t \<in> insert t (r_FetchedAt ` set rs)"
proof (induction rs arbitrary: t)
  case (Cons r rs)
  show ?case using Cons [of "if t < r_FetchedAt r then r_FetchedAt r else t"] by (auto split: if_splits)
qed simp

lemma newest_time_ge: "r \<in> set rs \<Longrightarrow> r_FetchedAt r \<le> newest_time rs"
  using newest_time_fold [of rs zero_time] by (simp add: newest_time_def)

lemma indexOf_Some: "indexOf vs v = Some i \<Longrightarrow> i < length vs"
  by (auto simp: indexOf_def find_Some_iff)

lemma contains_set [simp]: "contains s v \<longleftrightarrow> v \<in> set s"
  by (simp add: contains_def list_ex_iff)

lemma note_provider_set:
  "set (fold (note_provider names vs ids) kept used) \<subseteq> set used \<union> {n. \<exists>i < length vs. map_get names (ids ! i) = Some n}"
proof (induction kept arbitrary: used)
  case (Cons v kept)
  have "set (note_provider names vs ids v used) \<subseteq> set used \<union> {n. \<exists>i < length vs. map_get names (ids ! i) = Some n}"
    by (auto simp: note_provider_def dest: indexOf_Some split: option.splits)
  with Cons [of "note_provider names vs ids v used"] show ?case by auto
qed simp

lemma note_provider_distinct: "distinct used \<Longrightarrow> distinct (fold (note_provider names vs ids) kept used)"
  by (induction kept arbitrary: used) (auto simp: note_provider_def split: option.split)

lemma providers_used_facts:
  "sorted (providers_used names vs ids kept) \<and> distinct (providers_used names vs ids kept)
   \<and> set (providers_used names vs ids kept) \<subseteq> {n. \<exists>i < length vs. map_get names (ids ! i) = Some n}"
  using note_provider_set [of names vs ids kept "[]"] note_provider_distinct [of "[]" names vs ids kept]
  by (simp add: providers_used_def)

section \<open>The interface to the readings\<close>

locale rate_source =
  fixes latest :: "string \<Rightarrow> time \<Rightarrow> 's \<Rightarrow> ('e + (reading list \<times> int list)) \<times> 's"
    and listed :: "'s \<Rightarrow> ('e + provider list) \<times> 's"
    and good :: "'s \<Rightarrow> bool"
    and same :: "'s \<Rightarrow> 's \<Rightarrow> bool"
  assumes same_latest: "same s (snd (latest q t s))"
    and same_listed: "same s (snd (listed s))"
    and same_trans: "same s s1 \<Longrightarrow> same s1 s2 \<Longrightarrow> same s s2"
    and good_same: "good s \<Longrightarrow> same s s' \<Longrightarrow> good s'"
    and latest_ids: "latest q t s = (Inr (rs, ids), s') \<Longrightarrow> ids = map r_ProviderID rs"
    and latest_fresh: "good s \<Longrightarrow> fmt_range t \<Longrightarrow> latest q t s = (Inr (rs, ids), s') \<Longrightarrow> r \<in> set rs \<Longrightarrow>
      r_Quote r = to_upper q \<and> to_second t \<le> r_FetchedAt r \<and> r_Rate r \<noteq> NaN"
    and listed_ids: "good s \<Longrightarrow> listed s = (Inr ps, s') \<Longrightarrow> distinct (map p_ID ps)"
    and listed_names: "good s \<Longrightarrow> listed s = (Inr ps, s') \<Longrightarrow> distinct (map p_Name ps)"
    and listed_covers: "good s \<Longrightarrow> latest q t s = (Inr (rs, ids), s1) \<Longrightarrow> listed s1 = (Inr ps, s2) \<Longrightarrow>
      r \<in> set rs \<Longrightarrow> r_ProviderID r \<in> p_ID ` set ps"
begin

text \<open>The two reads of a direct rate, one after the other.\<close>

definition reads :: "string \<Rightarrow> time \<Rightarrow> 's \<Rightarrow> reading list \<Rightarrow> int list \<Rightarrow> provider list \<Rightarrow> 's \<Rightarrow> bool" where
  "reads q t s rs ids ps s' \<longleftrightarrow>
     latest q t s = (Inr (rs, ids), snd (latest q t s)) \<and> listed (snd (latest q t s)) = (Inr ps, s')"

lemma reads_same: "reads q t s rs ids ps s' \<Longrightarrow> same s s'"
  unfolding reads_def using same_latest same_listed same_trans by (metis snd_conv)

lemma reads_name:
  assumes "good s" and "reads q t s rs ids ps s'" and "p \<in> set ps"
  shows "map_get (name_by_id ps) (p_ID p) = Some (p_Name p)" and "name_of (name_by_id ps) (p_ID p) = p_Name p"
proof -
  have "good (snd (latest q t s))" using assms(1) good_same same_latest by blast
  then have "distinct (map p_ID ps)" using assms(2) listed_ids by (auto simp: reads_def)
  from name_by_id_get [OF this, of "p_ID p" "p_Name p"] assms(3)
  show "map_get (name_by_id ps) (p_ID p) = Some (p_Name p)" by blast
  then show "name_of (name_by_id ps) (p_ID p) = p_Name p" by (simp add: name_of_def)
qed

lemma reads_provider:
  assumes "good s" and "reads q t s rs ids ps s'" and "r \<in> set rs"
  obtains p where "p \<in> set ps" "p_ID p = r_ProviderID r" "name_of (name_by_id ps) (r_ProviderID r) = p_Name p"
    "map_get (name_by_id ps) (r_ProviderID r) = Some (p_Name p)"
proof -
  obtain p where p: "p \<in> set ps" "p_ID p = r_ProviderID r"
    using listed_covers [OF assms(1) _ _ assms(3)] assms(2) unfolding reads_def by (metis imageE)
  show ?thesis using reads_name [OF assms(1,2) p(1)] p by (intro that) simp_all
qed

text \<open>The sources of a rate: per provider name, one reading of the quote that is fresh.\<close>

lemma reads_sources:
  assumes "good s" and "reads q t s rs ids ps s'" and "fmt_range t"
    and "map_get (source_map (name_by_id ps) rs) n = Some src"
  shows "\<exists>r \<in> set rs. \<exists>p \<in> set ps. p_ID p = r_ProviderID r \<and> p_Name p = n
    \<and> src = \<lparr>s_ProviderID = r_ProviderID r, s_ProviderName = n, s_Rate = r_Rate r,
              s_FetchedAt = r_FetchedAt r, s_ProviderTS = r_ProviderTS r\<rparr>
    \<and> r_Quote r = to_upper q \<and> to_second t \<le> r_FetchedAt r"
proof -
  obtain r where r: "r \<in> set rs" "name_of (name_by_id ps) (r_ProviderID r) = n"
    "src = source_of (name_by_id ps) r" using source_map_get [OF assms(4)] by blast
  have "r_Quote r = to_upper q \<and> to_second t \<le> r_FetchedAt r"
    using latest_fresh [OF assms(1,3) _ r(1)] assms(2) unfolding reads_def by blast
  moreover obtain p where "p \<in> set ps" "p_ID p = r_ProviderID r" "p_Name p = n"
    by (rule reads_provider [OF assms(1,2) r(1)]) (simp add: r(2))
  ultimately show ?thesis
    using r by (intro bexI [of _ r] bexI [of _ p]) (simp_all add: source_of_def)
qed

lemma reads_dom:
  assumes "good s" and "reads q t s rs ids ps s'"
  shows "dom (map_get (source_map (name_by_id ps) rs)) =
    {n. \<exists>r \<in> set rs. \<exists>p \<in> set ps. p_ID p = r_ProviderID r \<and> p_Name p = n}"
  unfolding source_map_dom
proof (intro set_eqI iffI)
  fix n assume "n \<in> (\<lambda>r. name_of (name_by_id ps) (r_ProviderID r)) ` set rs"
  then obtain r where r: "r \<in> set rs" "n = name_of (name_by_id ps) (r_ProviderID r)" by blast
  obtain p where "p \<in> set ps" "p_ID p = r_ProviderID r" "p_Name p = n"
    by (rule reads_provider [OF assms r(1)]) (simp add: r(2))
  with r(1) show "n \<in> {n. \<exists>r \<in> set rs. \<exists>p \<in> set ps. p_ID p = r_ProviderID r \<and> p_Name p = n}" by blast
next
  fix n assume "n \<in> {n. \<exists>r \<in> set rs. \<exists>p \<in> set ps. p_ID p = r_ProviderID r \<and> p_Name p = n}"
  then obtain r p where p: "r \<in> set rs" "p \<in> set ps" "p_ID p = r_ProviderID r" "p_Name p = n" by blast
  from reads_name(2) [OF assms p(2)] p show "n \<in> (\<lambda>r. name_of (name_by_id ps) (r_ProviderID r)) ` set rs"
    by force
qed

lemma reads_card:
  assumes "good s" and "reads q t s rs ids ps s'"
  shows "card (dom (map_get (source_map (name_by_id ps) rs))) = card (r_ProviderID ` set rs)"
proof -
  let ?n = "name_of (name_by_id ps)"
  have "good (snd (latest q t s))" using assms(1) good_same same_latest by blast
  then have names: "inj_on p_Name (set ps)"
    using assms(2) listed_names by (auto simp: reads_def distinct_map)
  have "inj_on ?n (r_ProviderID ` set rs)"
  proof (intro inj_onI, elim imageE)
    fix i j r u assume i: "i = r_ProviderID r" "r \<in> set rs" and j: "j = r_ProviderID u" "u \<in> set rs"
      and eq: "?n i = ?n j"
    obtain p where p: "p \<in> set ps" "p_ID p = i" "?n i = p_Name p"
      using reads_provider [OF assms i(2)] i(1) by metis
    obtain v where v: "v \<in> set ps" "p_ID v = j" "?n j = p_Name v"
      using reads_provider [OF assms j(2)] j(1) by metis
    from names p v eq show "i = j" by (metis inj_onD)
  qed
  from card_image [OF this] show ?thesis unfolding source_map_dom by (simp add: image_image)
qed

lemma reads_used:
  assumes "good s" and "reads q t s rs ids ps s'"
  shows "set (providers_used (name_by_id ps) (map r_Rate rs) ids kept) \<subseteq> dom (map_get (source_map (name_by_id ps) rs))"
proof
  fix n assume n: "n \<in> set (providers_used (name_by_id ps) (map r_Rate rs) ids kept)"
  have ids: "ids = map r_ProviderID rs" using assms(2) latest_ids unfolding reads_def by blast
  obtain i where i: "i < length rs" "map_get (name_by_id ps) (r_ProviderID (rs ! i)) = Some n"
    using providers_used_facts [of "name_by_id ps" "map r_Rate rs" ids kept] n by (auto simp: ids)
  then have "n = name_of (name_by_id ps) (r_ProviderID (rs ! i))" by (simp add: name_of_def)
  with i(1) show "n \<in> dom (map_get (source_map (name_by_id ps) rs))"
    unfolding source_map_dom by (intro image_eqI [of _ _ "rs ! i"]) simp_all
qed

end

section \<open>The store as the source\<close>

definition store_good :: "db \<Rightarrow> bool" where
  "store_good d \<longleftrightarrow> db_ok d \<and> stamped d"

lemma store_good_same: "store_good d \<Longrightarrow> same_tables d d' \<Longrightarrow> store_good d'"
  by (simp add: store_good_def same_tablesD stamped_same_tables)

interpretation st: rate_source "LatestReadingsPerProvider E" "ListProviders E"
  "\<lambda>d. engine_ok E \<and> store_good d" same_tables for E
proof unfold_locales
  fix q t s s' s1 s2 rs ids ps r
  show "same_tables s (snd (LatestReadingsPerProvider E q t s))" "same_tables s (snd (ListProviders E s))"
    by (rule same_tables_queries)+
  show "same_tables s s1 \<Longrightarrow> same_tables s1 s2 \<Longrightarrow> same_tables s s2" by (rule same_tables_trans)
  show "engine_ok E \<and> store_good s \<Longrightarrow> same_tables s s' \<Longrightarrow> engine_ok E \<and> store_good s'"
    by (blast intro: store_good_same)
  show "LatestReadingsPerProvider E q t s = (Inr (rs, ids), s') \<Longrightarrow> ids = map r_ProviderID rs"
    by (auto simp: LatestReadingsPerProvider_def Let_def split: stmt_split_asm)
  assume good: "engine_ok E \<and> store_good s"
  have from_row: "\<exists>x \<in> set (readings s). rr_quote x = to_upper q \<and> r = reading_of_row x
      \<and> (fmt_range t \<longrightarrow> to_second t \<le> row_time x)"
    if l: "LatestReadingsPerProvider E q t s = (Inr (rs, ids), s1)" and r: "r \<in> set rs" for s1
  proof -
    have m: "mset rs = mset (map reading_of_row (latest_rows (to_upper q) (fmt_rfc3339 t) s))"
      using LatestReadings_cases(3) [OF l] good by blast
    have "r \<in> reading_of_row ` set (latest_rows (to_upper q) (fmt_rfc3339 t) s)"
      using mset_eq_setD [OF m] r by (simp only: set_map)
    then obtain x where "r = reading_of_row x" "x \<in> set (latest_rows (to_upper q) (fmt_rfc3339 t) s)" by blast
    with good show ?thesis
      by (auto simp: latest_rows_text store_good_def stamped_row_ge intro!: bexI [of _ x])
  qed
  show "r_Quote r = to_upper q \<and> to_second t \<le> r_FetchedAt r \<and> r_Rate r \<noteq> NaN"
    if "fmt_range t" "LatestReadingsPerProvider E q t s = (Inr (rs, ids), s')" "r \<in> set rs"
    using from_row [OF that(2,3)] that(1) good
    by (auto simp: reading_of_row_def row_time_def store_good_def db_ok_defs)
  show "distinct (map p_ID ps)" "distinct (map p_Name ps)" if "ListProviders E s = (Inr ps, s')"
  proof -
    have "mset ps = mset (map (row_provider E) (providers s))"
      using that by (auto simp: ListProviders_def split: stmt_split_asm)
    then have "mset (map p_ID ps) = mset (map pr_id (providers s))"
      "mset (map p_Name ps) = mset (map pr_name (providers s))"
      by (simp_all add: row_provider_def multiset.map_comp comp_def)
    with good show "distinct (map p_ID ps)" "distinct (map p_Name ps)"
      unfolding store_good_def db_ok_defs by (metis mset_eq_imp_distinct_iff)+
  qed
  show "r_ProviderID r \<in> p_ID ` set ps"
    if l: "LatestReadingsPerProvider E q t s = (Inr (rs, ids), s1)" and p: "ListProviders E s1 = (Inr ps, s2)"
      and r: "r \<in> set rs"
  proof -
    have s1: "providers s1 = providers s"
      using same_tables_queries(3) [of s E q t] l by (auto dest: same_tablesD)
    have "set ps = row_provider E ` set (providers s)"
      using p by (auto simp: ListProviders_def s1 split: stmt_split_asm)
    then have "p_ID ` set ps = pr_id ` set (providers s)"
      by (simp add: image_image row_provider_def)
    with from_row [OF l r] good show ?thesis
      by (auto simp: reading_of_row_def store_good_def db_ok_defs)
  qed
qed

section \<open>Direct rates\<close>

lemma computeDirect_reads:
  assumes "computeDirect E cfg clk q since d = (Inr r, d')"
  obtains rs ids ps where "st.reads E q since d rs ids ps d'"
    "sint (MinProviders cfg) \<le> int (length rs)" "r = direct_result cfg clk q rs ids ps"
  using assms unfolding computeDirect_def st.reads_def
  by (auto split: prod.splits sum.splits if_splits)

text \<open>The stored rows a rate of a quote is made of.\<close>

definition rate_rows :: "string \<Rightarrow> time \<Rightarrow> db \<Rightarrow> reading_row list" where
  "rate_rows q since d = filter (\<lambda>r. rr_quote r = to_upper q \<and> to_second since \<le> row_time r
     \<and> newest_row d r) (readings d)"

lemma reads_rows:
  assumes "engine_ok E" and "store_good d" and "fmt_range since" and "st.reads E q since d rs ids ps d'"
  shows "mset rs = mset (map reading_of_row (rate_rows q since d))"
proof -
  have "LatestReadingsPerProvider E q since d = (Inr (rs, ids), snd (LatestReadingsPerProvider E q since d))"
    using assms(4) by (simp add: st.reads_def)
  from LatestReadings_cases(3) [OF this assms(1)] show ?thesis
    using assms(2,3) by (simp add: latest_rows_time store_good_def rate_rows_def)
qed

lemma within_tolerance_mset: "mset xs = mset ys \<Longrightarrow> within_tolerance xs tol = within_tolerance ys tol"
  by (simp add: fun_eq_iff within_tolerance_def Median_mset [of xs ys])

lemma FilterOutliers_mset:
  assumes "mset xs = mset ys"
  shows "mset (FilterOutliers xs tol) = mset (FilterOutliers ys tol)"
proof -
  let ?P = "\<lambda>m v. fle (fdiv (fabs (fsub v m)) m) tol"
  have len: "length xs = length ys" using assms by (metis size_mset)
  have f: "mset (filter (?P m) xs) = mset (filter (?P m) ys)" for m using assms by simp
  then have n: "filter (?P m) xs = [] \<longleftrightarrow> filter (?P m) ys = []" for m by (metis mset_zero_iff)
  show ?thesis
    unfolding FilterOutliers_def len Median_mset [OF assms]
    using assms n by (simp add: Let_def split: prod.split)
qed

lemma direct_rate_rows:
  assumes "engine_ok E" and "store_good d" and "fmt_range since" and "st.reads E q since d rs ids ps d'"
  shows "res_Rate (direct_result cfg clk q rs ids ps) =
    fst (Median (FilterOutliers (map rr_rate (rate_rows q since d)) (fdiv (OutlierTolerancePct cfg) (Fin 100))))"
    and "length rs = length (rate_rows q since d)"
proof -
  note m = reads_rows [OF assms]
  then show "length rs = length (rate_rows q since d)" by (metis length_map size_mset)
  have "mset (map r_Rate rs) = mset (map rr_rate (rate_rows q since d))"
    by (simp add: m multiset.map_comp comp_def reading_of_row_def)
  from Median_mset [OF FilterOutliers_mset [OF this]]
  show "res_Rate (direct_result cfg clk q rs ids ps) =
    fst (Median (FilterOutliers (map rr_rate (rate_rows q since d)) (fdiv (OutlierTolerancePct cfg) (Fin 100))))"
    by (simp add: direct_result_def Let_def)
qed

lemma ListProviders_set:
  "ListProviders E d = (Inr ps, d') \<Longrightarrow> set ps = row_provider E ` set (providers d)"
  by (auto simp: ListProviders_def split: stmt_split_asm)

lemma computeDirect_same: "same_tables d (snd (computeDirect E cfg clk q since d))"
  using same_tables_queries(3) [of d E q since] same_tables_queries(1) [of "snd (LatestReadingsPerProvider E q since d)" E]
  by (auto simp: computeDirect_def split: prod.split sum.split intro: same_tables_trans)

lemma LatestReadings_ok: "fault E (stmts d) = None \<Longrightarrow>
  \<exists>rs ids. LatestReadingsPerProvider E q since d = (Inr (rs, ids), d\<lparr>stmts := Suc (stmts d)\<rparr>)"
  by (simp add: LatestReadingsPerProvider_def go_simps Let_def)

lemma ListProviders_ok: "fault E (stmts d) = None \<Longrightarrow>
  \<exists>ps. ListProviders E d = (Inr ps, d\<lparr>stmts := Suc (stmts d)\<rparr>)"
  by (simp add: ListProviders_def go_simps)

text \<open>A direct rate whose two statements succeed.\<close>

lemma computeDirect_run:
  assumes "engine_ok E" and "store_good d" and "fmt_range since"
    and "fault E (stmts d) = None" and "fault E (Suc (stmts d)) = None"
  obtains rs ids ps d' where "st.reads E q since d rs ids ps d'"
    "fst (computeDirect E cfg clk q since d) =
      (if int (length (rate_rows q since d)) < sint (MinProviders cfg)
       then Inl (ErrInsufficientProviders (int (length (rate_rows q since d))) (sint (MinProviders cfg)))
       else Inr (direct_result cfg clk q rs ids ps))"
proof -
  obtain rs ids where l: "LatestReadingsPerProvider E q since d = (Inr (rs, ids), d\<lparr>stmts := Suc (stmts d)\<rparr>)"
    using LatestReadings_ok [OF assms(4)] by blast
  obtain ps d' where p: "ListProviders E (d\<lparr>stmts := Suc (stmts d)\<rparr>) = (Inr ps, d')"
    using ListProviders_ok [of E "d\<lparr>stmts := Suc (stmts d)\<rparr>"] assms(5) by auto
  have reads: "st.reads E q since d rs ids ps d'" by (simp add: st.reads_def l p)
  from direct_rate_rows(2) [OF assms(1,2,3) this]
  show ?thesis by (intro that [OF reads]) (simp add: computeDirect_def l p)
qed

text \<open>
  C13: a direct rate is the filtered median of the newest fresh readings. When the two
  statements it runs succeed, \<open>computeDirect\<close> looks at exactly the stored readings of the quote
  that are the newest of their provider and not older than \<open>since\<close>: with fewer than
  \<open>MinProviders\<close> of them it answers \<open>ErrInsufficientProviders\<close> with both numbers, otherwise with
  the median of what \<open>FilterOutliers\<close> keeps of their rates. The order in which the database
  returns the rows does not matter, and no table changes.
\<close>

theorem direct_rate_is_filtered_median:
  assumes "engine_ok E" and "db_ok d" and "stamped d" and "fmt_range since"
    and "fault E (stmts d) = None" and "fault E (Suc (stmts d)) = None"
  shows "(if int (length (rate_rows q since d)) < sint (MinProviders cfg)
      then fst (computeDirect E cfg clk q since d) =
        Inl (ErrInsufficientProviders (int (length (rate_rows q since d))) (sint (MinProviders cfg)))
      else \<exists>r. fst (computeDirect E cfg clk q since d) = Inr r
        \<and> res_From r = Base cfg \<and> res_To r = to_upper q \<and> res_MedianTo r = res_Rate r
        \<and> res_Rate r = fst (Median (FilterOutliers (map rr_rate (rate_rows q since d))
            (fdiv (OutlierTolerancePct cfg) (Fin 100)))))
    \<and> same_tables d (snd (computeDirect E cfg clk q since d))"
proof -
  have good: "store_good d" using assms(2,3) by (simp add: store_good_def)
  obtain rs ids ps d' where reads: "st.reads E q since d rs ids ps d'"
    and run: "fst (computeDirect E cfg clk q since d) =
      (if int (length (rate_rows q since d)) < sint (MinProviders cfg)
       then Inl (ErrInsufficientProviders (int (length (rate_rows q since d))) (sint (MinProviders cfg)))
       else Inr (direct_result cfg clk q rs ids ps))"
    by (rule computeDirect_run [OF assms(1) good assms(4-6)])
  from direct_rate_rows(1) [OF assms(1) good assms(4) reads, of cfg clk] show ?thesis
    using computeDirect_same [of d E cfg clk q since]
    by (simp add: run) (simp add: direct_result_def Let_def)
qed

definition sample_agg :: "int \<Rightarrow> agg_config" where
  "sample_agg n = \<lparr>OutlierTolerancePct = Fin 1, MinProviders = word_of_int n, MaxAgeSeconds = 3600, Base = ''USD''\<rparr>"

lemma sample_agg_simps [simp]:
  "Base (sample_agg n) = ''USD''" "MinProviders (sample_agg n) = word_of_int n"
  "OutlierTolerancePct (sample_agg n) = Fin 1" "MaxAgeSeconds (sample_agg n) = 3600"
  by (simp_all add: sample_agg_def)

lemma sample_rate_rows:
  "rate_rows ''EUR'' (12 * ns_per_sec) sample_db = [sample_row 2 1 5 20, sample_row 3 2 6 15]"
  by (simp add: rate_rows_def newest_row_def)

lemma sample_rate: "fst (Median (FilterOutliers [Fin 5, Fin 6] tol)) = Fin (11 / 2)"
proof -
  have "FilterOutliers [Fin 5, Fin 6] tol = [Fin 5, Fin 6]" by (rule FilterOutliers_id) simp
  moreover have "fst (Median [Fin 5, Fin 6]) = Fin (11 / 2)" by code_simp
  ultimately show ?thesis by simp
qed

theorem direct_rate_is_filtered_median_witness:
  "(\<exists>r. fst (computeDirect plain_engine (sample_agg 2) (\<lambda>_. 0) ''EUR'' (12 * ns_per_sec) sample_db) = Inr r
      \<and> res_Rate r = Fin (11 / 2))
   \<and> fst (computeDirect plain_engine (sample_agg 3) (\<lambda>_. 0) ''EUR'' (12 * ns_per_sec) sample_db)
      = Inl (ErrInsufficientProviders 2 3)"
proof -
  have r: "fmt_range (12 * ns_per_sec)" by simp
  note t = direct_rate_is_filtered_median [OF plain_engine_simps(5) sample_db_ok sample_db_stamped r, of "''EUR''"]
  show ?thesis
    using t [of "sample_agg 2" "\<lambda>_. 0"] t [of "sample_agg 3" "\<lambda>_. 0"]
    by (auto simp: sample_rate_rows sample_rate)
qed

text \<open>
  C21: a direct rate never leaves the range of the readings that passed the filter. If every
  reading looked at is a finite number below \<open>2 ^ 1023\<close>, the rate is finite and lies between two
  of the rates the filter kept; and unless the filter kept all readings, both of these are
  within the tolerance of the median of all readings.
\<close>

theorem direct_rate_between_kept_readings:
  assumes "engine_ok E" and "db_ok d" and "stamped d" and "fmt_range since"
    and "computeDirect E cfg clk q since d = (Inr r, d')"
    and "rate_rows q since d \<noteq> []" and "\<forall>x \<in> set (rate_rows q since d). moderate (rr_rate x)"
  shows "ffinite (res_Rate r) \<and> (\<exists>x \<in> set (rate_rows q since d). \<exists>y \<in> set (rate_rows q since d).
    fle (rr_rate x) (res_Rate r) \<and> fle (res_Rate r) (rr_rate y)
    \<and> (FilterOutliers (map rr_rate (rate_rows q since d)) (fdiv (OutlierTolerancePct cfg) (Fin 100))
          = map rr_rate (rate_rows q since d)
       \<or> within_tolerance (map rr_rate (rate_rows q since d)) (fdiv (OutlierTolerancePct cfg) (Fin 100)) (rr_rate x)
         \<and> within_tolerance (map rr_rate (rate_rows q since d)) (fdiv (OutlierTolerancePct cfg) (Fin 100)) (rr_rate y)))"
proof -
  let ?tol = "fdiv (OutlierTolerancePct cfg) (Fin 100)"
  define vs where "vs = map rr_rate (rate_rows q since d)"
  define kept where "kept = FilterOutliers vs ?tol"
  have good: "store_good d" using assms(2,3) by (simp add: store_good_def)
  obtain rs ids ps where reads: "st.reads E q since d rs ids ps d'" "r = direct_result cfg clk q rs ids ps"
    by (rule computeDirect_reads [OF assms(5)])
  from direct_rate_rows(1) [OF assms(1) good assms(4) reads(1), of cfg clk]
  have rate: "res_Rate r = fst (Median kept)" by (simp add: reads(2) kept_def vs_def)
  have ne: "kept \<noteq> []" using assms(6) by (simp add: kept_def vs_def)
  have sub: "set kept \<subseteq> set vs" by (simp add: kept_def FilterOutliers_set)
  have mod: "\<forall>v \<in> set kept. moderate v" using sub assms(7) by (auto simp: vs_def)
  define lo where "lo = Min (fval ` set kept)"
  define hi where "hi = Max (fval ` set kept)"
  have "lo \<in> fval ` set kept" "hi \<in> fval ` set kept" unfolding lo_def hi_def using ne by simp_all
  then obtain a b where ab: "a \<in> set kept" "fval a = lo" "b \<in> set kept" "fval b = hi" by auto
  have "\<forall>v \<in> set kept. lo \<le> fval v \<and> fval v \<le> hi" by (simp add: lo_def hi_def)
  note m = Median_within [OF ne mod this]
  have fl: "fle a (res_Rate r)" "fle (res_Rate r) b"
    using m ab mod by (simp_all add: rate fle_finite)
  have "a \<in> rr_rate ` set (rate_rows q since d)" "b \<in> rr_rate ` set (rate_rows q since d)"
    using ab sub by (auto simp: vs_def)
  then obtain x y where xy: "x \<in> set (rate_rows q since d)" "rr_rate x = a" "y \<in> set (rate_rows q since d)" "rr_rate y = b"
    by blast
  have "kept = vs \<or> within_tolerance vs ?tol a \<and> within_tolerance vs ?tol b"
    using FilterOutliers_cases [of vs ?tol] ab unfolding kept_def by auto
  then show ?thesis
    using m(1) fl xy unfolding kept_def rate [unfolded kept_def, symmetric] vs_def [symmetric] by blast
qed

text \<open>Reading \<open>computeDirect\<close> as a pair, for the instances.\<close>

lemma fst_pair: "fst x = a \<Longrightarrow> x = (a, snd x)"
  by (cases x) simp

lemma sample_direct:
  obtains r d' where "computeDirect plain_engine (sample_agg 2) clk ''EUR'' (12 * ns_per_sec) sample_db = (Inr r, d')"
    "res_Rate r = Fin (11 / 2)"
proof -
  have r: "fmt_range (12 * ns_per_sec)" by simp
  have good: "store_good sample_db" by (simp add: store_good_def sample_db_ok sample_db_stamped)
  obtain rs ids ps d' where reads: "st.reads plain_engine ''EUR'' (12 * ns_per_sec) sample_db rs ids ps d'"
    and "fst (computeDirect plain_engine (sample_agg 2) clk ''EUR'' (12 * ns_per_sec) sample_db) =
      Inr (direct_result (sample_agg 2) clk ''EUR'' rs ids ps)"
    by (rule computeDirect_run [OF plain_engine_simps(5) good r plain_engine_simps(1,1),
        where cfg = "sample_agg 2" and q = "''EUR''" and clk = clk]) (simp add: sample_rate_rows)
  with direct_rate_rows(1) [OF plain_engine_simps(5) good r reads, of "sample_agg 2" clk]
  show ?thesis by (intro that [OF fst_pair]) (simp_all add: sample_rate_rows sample_rate)
qed

theorem direct_rate_between_kept_readings_witness:
  "\<exists>r d'. computeDirect plain_engine (sample_agg 2) (\<lambda>_. 0) ''EUR'' (12 * ns_per_sec) sample_db = (Inr r, d')
     \<and> ffinite (res_Rate r) \<and> fle (Fin 5) (res_Rate r) \<and> fle (res_Rate r) (Fin 6)"
proof -
  obtain r d' where c: "computeDirect plain_engine (sample_agg 2) (\<lambda>_. 0) ''EUR'' (12 * ns_per_sec) sample_db = (Inr r, d')"
    by (rule sample_direct)
  have m: "moderate (Fin 5)" "moderate (Fin 6)"
    using moderate_small_int [of 5] moderate_small_int [of 6] by simp_all
  have t: "fmt_range (12 * ns_per_sec)" by simp
  have "ffinite (res_Rate r) \<and> (\<exists>x \<in> {Fin 5, Fin 6}. \<exists>y \<in> {Fin 5, Fin 6}. fle x (res_Rate r) \<and> fle (res_Rate r) y)"
    using direct_rate_between_kept_readings [OF plain_engine_simps(5) sample_db_ok sample_db_stamped t c]
    by (auto simp: sample_rate_rows m)
  with c show ?thesis by (auto simp: fle_finite)
qed

section \<open>How many providers stand behind a rate\<close>

text \<open>
  C22: \<open>MinProviders\<close> is enforced on readings. A direct rate rests on at least \<open>MinProviders\<close>
  rows, the fresh newest ones of the quote, and names exactly the providers of those rows as its
  sources, each with one of its own rows. The check counts rows: a provider that has several at
  its newest time counts several times, and only if none has do the sources name at least
  \<open>MinProviders\<close> different providers. The providers listed as used are sorted, distinct and among
  the sources.
\<close>

theorem min_providers_enforced:
  assumes "engine_ok E" and "db_ok d" and "stamped d" and "fmt_range since"
    and "computeDirect E cfg clk q since d = (Inr r, d')"
  shows "sint (MinProviders cfg) \<le> int (length (rate_rows q since d))
    \<and> dom (map_get (res_Sources r)) = pr_name ` {p \<in> set (providers d). pr_id p \<in> rr_provider_id ` set (rate_rows q since d)}
    \<and> map_len (res_Sources r) = card (rr_provider_id ` set (rate_rows q since d))
    \<and> (distinct (map rr_provider_id (rate_rows q since d)) \<longrightarrow> sint (MinProviders cfg) \<le> int (map_len (res_Sources r)))
    \<and> (\<forall>n src. map_get (res_Sources r) n = Some src \<longrightarrow>
          (\<exists>x \<in> set (rate_rows q since d). \<exists>p \<in> set (providers d).
             pr_id p = rr_provider_id x \<and> pr_name p = n \<and> s_Rate src = rr_rate x
             \<and> s_FetchedAt src = row_time x \<and> to_second since \<le> s_FetchedAt src))
    \<and> sorted (res_ProvidersUsed r) \<and> distinct (res_ProvidersUsed r)
    \<and> set (res_ProvidersUsed r) \<subseteq> dom (map_get (res_Sources r))"
proof -
  let ?rows = "rate_rows q since d"
  have good: "engine_ok E \<and> store_good d" using assms by (simp add: store_good_def)
  obtain rs ids ps where reads: "st.reads E q since d rs ids ps d'" "r = direct_result cfg clk q rs ids ps"
    "sint (MinProviders cfg) \<le> int (length rs)"
    by (rule computeDirect_reads [OF assms(5)])
  have m: "mset rs = mset (map reading_of_row ?rows)"
    using reads_rows [OF _ _ assms(4) reads(1)] good by blast
  have src: "res_Sources r = source_map (name_by_id ps) rs" by (simp add: reads(2) direct_result_def Let_def)
  have ids: "mset (map r_ProviderID rs) = mset (map rr_provider_id ?rows)"
    by (simp add: m multiset.map_comp comp_def reading_of_row_def)
  then have len: "length rs = length ?rows" by (metis length_map mset_eq_length)
  have "r_ProviderID ` set rs = rr_provider_id ` set ?rows" using mset_eq_setD [OF ids] by simp
  then have card: "map_len (res_Sources r) = card (rr_provider_id ` set ?rows)"
    unfolding src gm.len_card [OF source_map_wf] st.reads_card [OF good reads(1)] by simp
  have 2: "\<exists>x \<in> set ?rows. \<exists>p \<in> set (providers d).
      pr_id p = rr_provider_id x \<and> pr_name p = n \<and> s_Rate s = rr_rate x
      \<and> s_FetchedAt s = row_time x \<and> to_second since \<le> s_FetchedAt s"
    if s: "map_get (res_Sources r) n = Some s" for n s
  proof -
    obtain u p where u: "u \<in> set rs" and p: "p \<in> set ps" "p_ID p = r_ProviderID u" "p_Name p = n"
      and s: "s = \<lparr>s_ProviderID = r_ProviderID u, s_ProviderName = n, s_Rate = r_Rate u,
              s_FetchedAt = r_FetchedAt u, s_ProviderTS = r_ProviderTS u\<rparr>"
      and t: "to_second since \<le> r_FetchedAt u"
      using st.reads_sources [OF good reads(1) assms(4)] s unfolding src by blast
    have "u \<in> reading_of_row ` set ?rows"
      using mset_eq_setD [OF m] u by (simp only: set_map)
    then obtain x where x: "x \<in> set ?rows" "u = reading_of_row x" by blast
    have "set ps = row_provider E ` set (providers d)"
      using reads(1) ListProviders_set unfolding st.reads_def by fastforce
    then obtain y where "y \<in> set (providers d)" "p = row_provider E y" using p(1) by blast
    with x p s t show ?thesis
      by (intro bexI [of _ x] bexI [of _ y]) (simp_all add: reading_of_row_def row_provider_def row_time_def)
  qed
  let ?P = "{p \<in> set (providers d). pr_id p \<in> rr_provider_id ` set ?rows}"
  have dom: "dom (map_get (res_Sources r)) = pr_name ` ?P"
  proof (rule card_subset_eq)
    show "dom (map_get (res_Sources r)) \<subseteq> pr_name ` ?P" using 2 by fastforce
    have "inj_on pr_id ?P" using assms(2) by (auto simp: db_ok_defs distinct_map intro: inj_on_subset)
    then have "card (pr_name ` ?P) \<le> card (pr_id ` ?P)" by (simp add: card_image card_image_le)
    also have "\<dots> \<le> card (rr_provider_id ` set ?rows)" by (rule card_mono) auto
    finally have "card (pr_name ` ?P) \<le> card (dom (map_get (res_Sources r)))"
      using card by (simp add: src gm.len_card [OF source_map_wf])
    moreover have "card (dom (map_get (res_Sources r))) \<le> card (pr_name ` ?P)"
      using \<open>dom (map_get (res_Sources r)) \<subseteq> pr_name ` ?P\<close> by (intro card_mono) simp_all
    ultimately show "card (dom (map_get (res_Sources r))) = card (pr_name ` ?P)" by simp
  qed simp
  have 3: "set (res_ProvidersUsed r) \<subseteq> dom (map_get (res_Sources r))"
    using st.reads_used [OF good reads(1)] unfolding src reads(2) by (simp add: direct_result_def Let_def)
  have "sorted (res_ProvidersUsed r)" "distinct (res_ProvidersUsed r)"
    using providers_used_facts by (simp_all add: reads(2) direct_result_def Let_def)
  moreover have "map_len (res_Sources r) = length rs" if "distinct (map rr_provider_id ?rows)"
    using distinct_card [OF that] by (simp add: card len)
  ultimately show ?thesis using 2 3 dom card reads(3) len by auto
qed

theorem min_providers_enforced_witness:
  "\<exists>r d'. computeDirect plain_engine (sample_agg 2) (\<lambda>_. 0) ''EUR'' (12 * ns_per_sec) sample_db = (Inr r, d')
     \<and> 2 \<le> map_len (res_Sources r) \<and> dom (map_get (res_Sources r)) = {''frankfurter'', ''yahoo''}"
proof -
  obtain r d' where c: "computeDirect plain_engine (sample_agg 2) (\<lambda>_. 0) ''EUR'' (12 * ns_per_sec) sample_db = (Inr r, d')"
    by (rule sample_direct)
  have t: "fmt_range (12 * ns_per_sec)" by simp
  have "{p \<in> set (providers sample_db). pr_id p = 1 \<or> pr_id p = 2} = {sample_provider 1 ''yahoo'', sample_provider 2 ''frankfurter''}"
    by (auto simp: sample_db_def sample_provider_def)
  with min_providers_enforced [OF plain_engine_simps(5) sample_db_ok sample_db_stamped t c] c
  show ?thesis by (auto simp: sample_rate_rows sample_provider_def)
qed

text \<open>One provider whose fetch stores two readings of a quote in the same second.\<close>

definition tie_reading :: "rat \<Rightarrow> reading" where
  "tie_reading q = \<lparr>r_ID = 0, r_ProviderID = 1, r_Base = ''USD'', r_Quote = ''EUR'', r_Rate = Fin q,
     r_FetchedAt = 20 * ns_per_sec, r_ProviderTS = []\<rparr>"

definition tie_ops :: "db_op list" where
  "tie_ops = [OpUpsert 0 (sample_config ''yahoo''), OpInsert (tie_reading 4), OpInsert (tie_reading 5)]"

lemma tie_db:
  defines "d \<equiv> fold (exec_op plain_engine) tie_ops empty_db"
  shows "map pr_id (providers d) = [1]" and "stamped d"
    and "readings d = [sample_row 1 1 4 20, sample_row 2 1 5 20]"
proof -
  have d: "d = exec_op plain_engine (OpInsert (tie_reading 5)) (exec_op plain_engine (OpInsert (tie_reading 4))
      (exec_op plain_engine (OpUpsert 0 (sample_config ''yahoo'')) empty_db))"
    by (simp add: d_def tie_ops_def)
  define e where "e = exec_op plain_engine (OpUpsert 0 (sample_config ''yahoo'')) empty_db"
  have e: "map pr_id (providers e) = [1]" "readings e = []" "seq_readings e = 0"
    by (simp_all add: e_def UpsertProvider_def go_simps Let_def upsert_row_def empty_db_def)
  then have ids: "pr_id ` set (providers e) = {1}" by (metis list.set(1,2) list.set_map)
  show "map pr_id (providers d) = [1]" "readings d = [sample_row 1 1 4 20, sample_row 2 1 5 20]"
    unfolding d e_def [symmetric]
    by (simp_all add: InsertReading_def insert_row_def go_simps Let_def tie_reading_def e ids sample_row_def nullableStr_def)
  have "stamped e" by (simp add: stamped_def e)
  then show "stamped d" unfolding d e_def [symmetric]
    by (intro stamped_exec_op) (simp_all add: op_in_range_def tie_reading_def)
qed

text \<open>
  So \<open>MinProviders\<close> can be met by a single provider. After one provider
  is registered and two of its readings of a quote are stored in the same second,
  \<open>computeDirect\<close> with \<open>MinProviders = 2\<close> returns a rate although only one provider exists: the
  query returns every row at the newest time, and the check counts rows.
\<close>

theorem tied_readings_count_twice:
  "\<exists>d r d'. d = fold (exec_op plain_engine) tie_ops empty_db \<and> length (providers d) = 1
     \<and> computeDirect plain_engine (sample_agg 2) clk ''EUR'' 0 d = (Inr r, d')"
proof -
  define d where "d = fold (exec_op plain_engine) tie_ops empty_db"
  note t = tie_db [folded d_def]
  have good: "store_good d"
    unfolding store_good_def using t(2) db_ok_run [OF db_ok_empty] by (simp add: d_def)
  have rows: "rate_rows ''EUR'' 0 d = [sample_row 1 1 4 20, sample_row 2 1 5 20]"
    by (simp add: rate_rows_def newest_row_def t(3)) (simp add: ns_per_sec_def)
  obtain rs ids ps d' where
    "fst (computeDirect plain_engine (sample_agg 2) clk ''EUR'' 0 d) = Inr (direct_result (sample_agg 2) clk ''EUR'' rs ids ps)"
    by (rule computeDirect_run [OF plain_engine_simps(5) good fmt_range_small(2) plain_engine_simps(1,1),
        where cfg = "sample_agg 2" and q = "''EUR''" and clk = clk]) (simp add: rows)
  from fst_pair [OF this] have "\<exists>r d'. computeDirect plain_engine (sample_agg 2) clk ''EUR'' 0 d = (Inr r, d')"
    by blast
  moreover have "length (providers d) = 1" using arg_cong [OF t(1), of length] by simp
  ultimately show ?thesis using d_def by blast
qed

end
