(* ===== verification/PairFacts.thy ===== *)
theory PairFacts
  imports RateFacts
begin

text \<open>
  Rates between any two currencies, all rates at once, and history series: \<open>Compute\<close> refines
  the specification \<open>rate_spec\<close>, a function of the stored rates alone; the rounding errors of
  inverse and cross rates; what \<open>AllCurrencies\<close> contains; that pruning changes no rate; and
  what \<open>crossHistory\<close> and \<open>invertHistory\<close> return.
\<close>

section \<open>The specification of a rate\<close>

text \<open>One side: the filtered median, if there are enough readings.\<close>

definition side_spec :: "agg_config \<Rightarrow> f64 list \<Rightarrow> agg_error + f64" where
  "side_spec cfg vs =
     (if int (length vs) < sint (MinProviders cfg)
      then Inl (ErrInsufficientProviders (int (length vs)) (sint (MinProviders cfg)))
      else Inr (fst (Median (FilterOutliers vs (fdiv (OutlierTolerancePct cfg) (Fin 100))))))"

definition rate_spec :: "agg_config \<Rightarrow> (string \<Rightarrow> f64 list) \<Rightarrow> string \<Rightarrow> string \<Rightarrow> agg_error + f64" where
  "rate_spec cfg R f t =
     (if f = [] \<or> t = [] then Inl CodesRequired
      else if f = t then Inr (Fin 1)
      else if f = Base cfg then side_spec cfg (R t)
      else if t = Base cfg
      then (case side_spec cfg (R f) of
              Inl e \<Rightarrow> Inl e
            | Inr v \<Rightarrow> if feq v (Fin 0) then Inl RateZero else Inr (fdiv (Fin 1) v))
      else (case side_spec cfg (R f) of
              Inl e \<Rightarrow> Inl (FromSide e)
            | Inr u \<Rightarrow> (case side_spec cfg (R t) of
                Inl e \<Rightarrow> Inl (ToSide e)
              | Inr v \<Rightarrow> if feq u (Fin 0) then Inl FromRateZero else Inr (fdiv v u))))"

definition rate_of :: "agg_error + rate_result \<Rightarrow> agg_error + f64" where
  "rate_of x = map_sum id res_Rate x"

lemma rate_of_simps [simp]: "rate_of (Inl e) = Inl e" "rate_of (Inr r) = Inr (res_Rate r)"
  by (simp_all add: rate_of_def)

definition stored_rates :: "time \<Rightarrow> db \<Rightarrow> string \<Rightarrow> f64 list" where
  "stored_rates since d q = map rr_rate (rate_rows q since d)"

lemma rate_rows_same: "readings d' = readings d \<Longrightarrow> rate_rows q since d' = rate_rows q since d"
  by (simp add: rate_rows_def newest_row_def)

lemma stored_rates_same: "same_tables d d' \<Longrightarrow> stored_rates since d' = stored_rates since d"
  by (simp add: fun_eq_iff stored_rates_def rate_rows_same [OF same_tablesD(2)])

lemma rate_rows_upper [simp]: "rate_rows (to_upper q) since d = rate_rows q since d"
  by (simp add: rate_rows_def)

lemma computeDirect_view:
  assumes "engine_ok E" and "store_good d" and "fmt_range since" and "\<forall>n. fault E n = None"
  shows "rate_of (fst (computeDirect E cfg clk q since d)) = side_spec cfg (stored_rates since d q)"
proof -
  obtain rs ids ps d' where reads: "st.reads E q since d rs ids ps d'"
    and run: "fst (computeDirect E cfg clk q since d) =
      (if int (length (rate_rows q since d)) < sint (MinProviders cfg)
       then Inl (ErrInsufficientProviders (int (length (rate_rows q since d))) (sint (MinProviders cfg)))
       else Inr (direct_result cfg clk q rs ids ps))"
    by (rule computeDirect_run [OF assms(1-3)]) (use assms(4) in auto)
  from direct_rate_rows(1) [OF assms(1-3) reads, of cfg clk] show ?thesis
    by (simp add: run side_spec_def stored_rates_def)
qed

lemma invertTo_rate: "rate_of (invertTo r to) =
    (if feq (res_Rate r) (Fin 0) then Inl RateZero else Inr (fdiv (Fin 1) (res_Rate r)))"
  by (simp add: invertTo_def Let_def)

text \<open>Both sides of a cross rate see the same tables.\<close>

lemma computeCross_view:
  assumes "engine_ok E" and "store_good d" and "fmt_range since" and "\<forall>n. fault E n = None"
  shows "rate_of (fst (computeCross E cfg clk f t since d)) =
    (case side_spec cfg (stored_rates since d f) of
       Inl e \<Rightarrow> Inl (FromSide e)
     | Inr u \<Rightarrow> (case side_spec cfg (stored_rates since d t) of
         Inl e \<Rightarrow> Inl (ToSide e)
       | Inr v \<Rightarrow> if feq u (Fin 0) then Inl FromRateZero else Inr (fdiv v u)))"
proof -
  let ?d = "snd (computeDirect E cfg clk f since d)"
  have same: "same_tables d ?d" by (rule computeDirect_same)
  have good: "store_good ?d" using assms(2) same by (rule store_good_same)
  note 1 = computeDirect_view [OF assms, of cfg clk f]
  note 2 = computeDirect_view [OF assms(1) good assms(3,4), of cfg "shift 2 clk" t]
  show ?thesis
    unfolding computeCross_def stored_rates_same [OF same, symmetric]
    using 1 2 stored_rates_same [OF same, of since]
    by (auto split: prod.splits sum.splits)
qed

lemma Compute_view:
  assumes "engine_ok E" and "store_good d" and "fmt_range (oldest_allowed cfg (clk 0))"
    and "\<forall>n. fault E n = None"
  shows "rate_of (fst (Compute E cfg clk from to d)) =
    rate_spec cfg (stored_rates (oldest_allowed cfg (clk 0)) d) (to_upper from) (to_upper to)"
proof -
  note view = computeDirect_view [OF assms] computeCross_view [OF assms]
  show ?thesis
    unfolding Compute_def Let_def rate_spec_def
    using view(1) [of cfg "shift 1 clk" "to_upper from"] view(1) [of cfg "shift 1 clk" "to_upper to"]
      view(2) [of cfg "shift 1 clk" "to_upper from" "to_upper to"]
    by (auto simp: invertTo_rate split: prod.splits sum.splits)
qed

lemma Compute_same: "same_tables d (snd (Compute E cfg clk from to d))"
proof -
  have "same_tables d (snd (computeCross E cfg c f t since d))" for c f t since
    using computeDirect_same [of d E cfg c f since]
      computeDirect_same [of "snd (computeDirect E cfg c f since d)" E cfg "shift 2 c" t since]
    by (auto simp: computeCross_def split: prod.split sum.split intro: same_tables_trans)
  moreover have "snd (case x of (Inl e, d1) \<Rightarrow> (Inl e, d1) | (Inr r, d1) \<Rightarrow> (g r, d1)) = snd x"
    for x :: "(agg_error + rate_result) \<times> db" and g :: "rate_result \<Rightarrow> agg_error + rate_result"
    by (auto split: prod.split sum.split)
  ultimately show ?thesis by (simp add: Compute_def Let_def computeDirect_same)
qed

text \<open>
  C1: \<open>Compute\<close> implements the specification of a rate. For any pair of codes, in any letter
  case, and any clock, its rate or error is \<open>rate_spec\<close> applied to the rates the store holds at
  that moment, that is: both codes are required; the rate of a currency with itself is 1; a
  rate from the base is the filtered median, a rate to the base its reciprocal, any other rate
  the quotient of two filtered medians, each side failing with its own error. It depends on
  nothing else in the database, and the database is unchanged.
\<close>

theorem compute_refines_rate_spec:
  assumes "engine_ok E" and "db_ok d" and "stamped d" and "fmt_range (oldest_allowed cfg (clk 0))"
    and "\<forall>n. fault E n = None"
  shows "rate_of (fst (Compute E cfg clk from to d)) =
      rate_spec cfg (stored_rates (oldest_allowed cfg (clk 0)) d) (to_upper from) (to_upper to)
    \<and> same_tables d (snd (Compute E cfg clk from to d))"
proof -
  have "store_good d" using assms(2,3) by (simp add: store_good_def)
  then show ?thesis using Compute_view [where cfg = cfg and clk = clk, OF assms(1) _ assms(4,5)] Compute_same by blast
qed

lemma sample_oldest: "oldest_allowed (sample_agg n) (3612 * ns_per_sec) = 12 * ns_per_sec"
  by (simp add: oldest_allowed_def time_add_def ns_per_sec_def)

lemma sample_stored: "stored_rates (12 * ns_per_sec) sample_db ''EUR'' = [Fin 5, Fin 6]"
  by (simp add: stored_rates_def sample_rate_rows)

theorem compute_refines_rate_spec_witness:
  "rate_of (fst (Compute plain_engine (sample_agg 2) (\<lambda>_. 3612 * ns_per_sec) ''USD'' ''eur'' sample_db))
    = Inr (Fin (11 / 2))"
proof -
  have r: "fmt_range (oldest_allowed (sample_agg 2) (3612 * ns_per_sec))" by (simp add: sample_oldest)
  have "\<forall>n. fault plain_engine n = None" by simp
  from compute_refines_rate_spec [where clk = "\<lambda>_. 3612 * ns_per_sec",
      OF plain_engine_simps(5) sample_db_ok sample_db_stamped r this]
  show ?thesis
    by (simp add: rate_spec_def side_spec_def sample_oldest sample_stored sample_rate)
qed

section \<open>Rounding\<close>

lemma Compute_from_base:
  assumes "Base cfg \<noteq> []" and "to_upper (Base cfg) = Base cfg" and "x \<noteq> []" and "to_upper x \<noteq> Base cfg"
  shows "Compute E cfg clk (Base cfg) x d =
      computeDirect E cfg (shift 1 clk) (to_upper x) (oldest_allowed cfg (clk 0)) d"
    and "Compute E cfg clk x (Base cfg) d =
      (case computeDirect E cfg (shift 1 clk) (to_upper x) (oldest_allowed cfg (clk 0)) d of
         (Inl e, d1) \<Rightarrow> (Inl e, d1) | (Inr r, d1) \<Rightarrow> (invertTo r (Base cfg), d1))"
  using assms by (simp_all add: Compute_def Let_def)

lemma sane_one: "sane (Fin 1)"
  using powi2_mono [of "- 500" 0] powi2_mono [of 0 500] by (simp add: sane_def)

lemma map_get_map_vals: "map_get (map_vals f m) k = map_option f (map_get m k)"
  by (induction m) (auto simp: map_get_def map_vals_def)

text \<open>
  C25: inverse rates are reciprocal. At one moment, if the rate from the base to a currency is
  a number between \<open>2 ^ (-500)\<close> and \<open>2 ^ 500\<close>, then the rate from that currency to the base is
  computed too, it is \<open>1 / rate\<close> rounded once, and the exact product of the two published rates
  differs from 1 by at most \<open>2 ^ (-53)\<close>. Codes are swapped and every source rate is inverted.
\<close>

theorem inverse_rate_reciprocal:
  assumes "Base cfg \<noteq> []" and "to_upper (Base cfg) = Base cfg" and "x \<noteq> []" and "to_upper x \<noteq> Base cfg"
    and "Compute E cfg clk (Base cfg) x d = (Inr r, d')" and "sane (res_Rate r)"
  shows "\<exists>r'. Compute E cfg clk x (Base cfg) d = (Inr r', d')
    \<and> res_Rate r' = fdiv (Fin 1) (res_Rate r) \<and> ffinite (res_Rate r')
    \<and> \<bar>fval (res_Rate r') * fval (res_Rate r) - 1\<bar> \<le> 1 / 2 ^ 53
    \<and> res_From r' = res_To r \<and> res_To r' = Base cfg
    \<and> (\<forall>n. map_get (res_Sources r') n = map_option invert_source (map_get (res_Sources r) n))"
proof -
  note pos = saneD(2) [OF assms(6)]
  have nz: "\<not> feq (res_Rate r) (Fin 0)" using pos saneD(1) [OF assms(6)] by (simp add: feq_def)
  let ?v = "fval (res_Rate r)" and ?w = "fval (fdiv (Fin 1) (res_Rate r))"
  note q = fdiv_sane [OF sane_one assms(6)]
  have "?w * ?v - 1 = (?w - 1 / ?v) * ?v" using pos by (simp add: left_diff_distrib)
  then have "\<bar>?w * ?v - 1\<bar> = \<bar>?w - 1 / ?v\<bar> * ?v" using pos by (simp add: abs_mult)
  also have "\<dots> \<le> 1 / ?v / 2 ^ 53 * ?v" using q(2) pos by (intro mult_right_mono) simp_all
  also have "\<dots> = 1 / 2 ^ 53" using pos by simp
  finally have err: "\<bar>?w * ?v - 1\<bar> \<le> 1 / 2 ^ 53" .
  show ?thesis
    using assms(5) nz err q(1) by (simp add: Compute_from_base [OF assms(1-4)] invertTo_def Let_def assms(2) map_get_map_vals)
qed

theorem inverse_rate_reciprocal_witness:
  "\<exists>r' d'. Compute plain_engine (sample_agg 2) (\<lambda>_. 3612 * ns_per_sec) ''eur'' ''USD'' sample_db = (Inr r', d')
     \<and> \<bar>fval (res_Rate r') * (11 / 2) - 1\<bar> \<le> 1 / 2 ^ 53"
proof -
  have b: "Base (sample_agg 2) \<noteq> []" "to_upper (Base (sample_agg 2)) = Base (sample_agg 2)"
    "''eur'' \<noteq> []" "to_upper ''eur'' \<noteq> Base (sample_agg 2)" by simp_all
  obtain r d' where r: "computeDirect plain_engine (sample_agg 2) (shift 1 (\<lambda>_. 3612 * ns_per_sec)) ''EUR''
      (12 * ns_per_sec) sample_db = (Inr r, d')" "res_Rate r = Fin (11 / 2)"
    by (rule sample_direct)
  then have c: "Compute plain_engine (sample_agg 2) (\<lambda>_. 3612 * ns_per_sec) (Base (sample_agg 2)) ''eur'' sample_db = (Inr r, d')"
    unfolding Compute_from_base [OF b] by (simp add: sample_oldest)
  have "(2 :: rat) powi (- 500) \<le> 2 powi 0" "(2 :: rat) powi 3 \<le> 2 powi 500" by (rule powi2_mono, simp)+
  then have "sane (res_Rate r)" by (simp add: r sane_def)
  from inverse_rate_reciprocal [OF b c this] show ?thesis by (auto simp: r)
qed

section \<open>Cross rates\<close>

lemma merge_fold:
  "set (fold (\<lambda>s out. if s \<in> set out then out else out @ [s]) xs out) = set out \<union> set xs
   \<and> (distinct out \<longrightarrow> distinct (fold (\<lambda>s out. if s \<in> set out then out else out @ [s]) xs out))"
proof (induction xs arbitrary: out)
  case (Cons x xs)
  then show ?case by (cases "x \<in> set out") auto
qed simp

lemma mergeUnique_facts:
  "set (mergeUnique a b) = set a \<union> set b \<and> distinct (mergeUnique a b) \<and> sorted (mergeUnique a b)"
  using merge_fold [of "a @ b" "[]"] by (simp add: mergeUnique_def)

lemma tag_sources_wf: "map_wf m \<Longrightarrow> map_wf (tag_sources code src m)"
  unfolding tag_sources_def case_prod_unfold by (rule gm.wf_fold)

lemma map_get_Some_mem: "map_wf m \<Longrightarrow> map_get m k = Some v \<longleftrightarrow> (k, v) \<in> set m"
  by (simp add: map_defs)

lemma tag_sources_get:
  assumes "map_wf src" and "map_wf m"
  shows "map_get (tag_sources code src m) (n @ arrow @ code) =
      (case map_get src n of Some v \<Rightarrow> Some v | None \<Rightarrow> map_get m (n @ arrow @ code))"
    and "(\<nexists>n. k = n @ arrow @ code) \<Longrightarrow> map_get (tag_sources code src m) k = map_get m k"
proof -
  let ?f = "\<lambda>kv. fst kv @ arrow @ code"
  have t: "tag_sources code src m = fold (\<lambda>x. map_set (?f x) (snd x)) src m"
    by (simp add: tag_sources_def case_prod_unfold)
  note g = gm.get_fold [OF assms(2), of ?f snd src]
  show "map_get (tag_sources code src m) (n @ arrow @ code) =
      (case map_get src n of Some v \<Rightarrow> Some v | None \<Rightarrow> map_get m (n @ arrow @ code))"
  proof (cases "map_get src n")
    case None
    then have "n \<notin> fst ` set src" by (simp add: map_get_def map_of_eq_None_iff)
    then show ?thesis by (auto simp: t g None)
  next
    case (Some v)
    then have v: "(n, v) \<in> set src" using assms(1) by (simp add: map_get_Some_mem)
    then have key: "n @ arrow @ code \<in> ?f ` set src" by force
    define x where "x = last (filter (\<lambda>x. ?f x = n @ arrow @ code) src)"
    have "filter (\<lambda>x. ?f x = n @ arrow @ code) src \<noteq> []" using v by (force simp: filter_empty_conv)
    from last_in_set [OF this] have x: "x \<in> set src" "fst x = n" by (auto simp: x_def)
    have val: "map_get (tag_sources code src m) (n @ arrow @ code) = Some (snd x)"
      unfolding t g x_def using key by simp
    from x have "(n, snd x) \<in> set src" by (cases x) auto
    with v assms(1) have "snd x = v" unfolding map_wf_def by (metis eq_key_imp_eq_value)
    with val Some show ?thesis by simp
  qed
  show "map_get (tag_sources code src m) k = map_get m k" if "\<nexists>n. k = n @ arrow @ code"
    using that unfolding t g by auto
qed

lemma same_length_codes: "length f = length t \<Longrightarrow> n @ arrow @ f = n' @ arrow @ t \<Longrightarrow> f = t"
  by (metis append_assoc append_eq_append_conv)

text \<open>The result of a cross rate from its two sides.\<close>

lemma computeCross_sides:
  assumes "computeCross E cfg clk f t since d = (Inr r, d')"
  obtains rf rt d1 where "computeDirect E cfg clk f since d = (Inr rf, d1)"
    "computeDirect E cfg (shift 2 clk) t since d1 = (Inr rt, d')" "\<not> feq (res_Rate rf) (Fin 0)"
    "res_Rate r = fdiv (res_Rate rt) (res_Rate rf)" "res_MedianFrom r = res_Rate rf" "res_MedianTo r = res_Rate rt"
    "res_ProvidersUsed r = mergeUnique (res_ProvidersUsed rf) (res_ProvidersUsed rt)"
    "res_Sources r = tag_sources t (res_Sources rt) (tag_sources f (res_Sources rf) [])"
  using assms by (auto simp: computeCross_def split: prod.splits sum.splits if_splits intro: that)

lemma computeDirect_sources_wf: "computeDirect E cfg clk q since d = (Inr r, d') \<Longrightarrow> map_wf (res_Sources r)"
  by (auto elim!: computeDirect_reads simp: direct_result_def Let_def source_map_wf)

text \<open>
  C24: a cross rate is the quotient of its two sides. It is computed from two direct rates
  taken with one \<open>since\<close> on the same tables, with the sides published as medians; if both are
  between \<open>2 ^ (-500)\<close> and \<open>2 ^ 500\<close> its relative error against their exact quotient is at most
  \<open>2 ^ (-53)\<close>. The providers used are the sorted union without repetition, and for codes of one
  length no source of either side is lost or overwritten: the key \<open>provider + arrow + code\<close>
  finds exactly that side's source.
\<close>

theorem cross_rate_correct:
  assumes "computeCross E cfg clk f t since d = (Inr r, d')" and "f \<noteq> t" and "length f = length t"
  shows "\<exists>rf rt d1. computeDirect E cfg clk f since d = (Inr rf, d1)
    \<and> computeDirect E cfg (shift 2 clk) t since d1 = (Inr rt, d') \<and> same_tables d d1
    \<and> res_MedianFrom r = res_Rate rf \<and> res_MedianTo r = res_Rate rt
    \<and> (sane (res_Rate rf) \<and> sane (res_Rate rt) \<longrightarrow> ffinite (res_Rate r) \<and> 0 < fval (res_Rate r)
        \<and> \<bar>fval (res_Rate r) - fval (res_Rate rt) / fval (res_Rate rf)\<bar>
            \<le> fval (res_Rate rt) / fval (res_Rate rf) / 2 ^ 53)
    \<and> set (res_ProvidersUsed r) = set (res_ProvidersUsed rf) \<union> set (res_ProvidersUsed rt)
    \<and> distinct (res_ProvidersUsed r) \<and> sorted (res_ProvidersUsed r)
    \<and> (\<forall>n. map_get (res_Sources r) (n @ arrow @ f) = map_get (res_Sources rf) n)
    \<and> (\<forall>n. map_get (res_Sources r) (n @ arrow @ t) = map_get (res_Sources rt) n)"
proof -
  obtain rf rt d1 where sides: "computeDirect E cfg clk f since d = (Inr rf, d1)"
    "computeDirect E cfg (shift 2 clk) t since d1 = (Inr rt, d')"
    and rate: "res_Rate r = fdiv (res_Rate rt) (res_Rate rf)"
    and med: "res_MedianFrom r = res_Rate rf" "res_MedianTo r = res_Rate rt"
    and used: "res_ProvidersUsed r = mergeUnique (res_ProvidersUsed rf) (res_ProvidersUsed rt)"
    and src: "res_Sources r = tag_sources t (res_Sources rt) (tag_sources f (res_Sources rf) [])"
    by (rule computeCross_sides [OF assms(1)])
  note wf = sides [THEN computeDirect_sources_wf]
  have same: "same_tables d d1" using computeDirect_same [of d E cfg clk f since] sides(1) by simp
  have nf: "\<nexists>n'. n @ arrow @ f = n' @ arrow @ t" and nt: "\<nexists>n'. n @ arrow @ t = n' @ arrow @ f" for n
    using same_length_codes [OF assms(3)] same_length_codes [OF assms(3) [symmetric]] assms(2) by blast+
  note inner = tag_sources_wf [OF gm.wf_empty, of f "res_Sources rf"]
  have "map_get (res_Sources r) (n @ arrow @ f) = map_get (res_Sources rf) n" for n
    unfolding src tag_sources_get(2) [OF wf(2) inner nf] tag_sources_get(1) [OF wf(1) gm.wf_empty]
    by (simp add: gm.get_empty split: option.split)
  moreover have "map_get (res_Sources r) (n @ arrow @ t) = map_get (res_Sources rt) n" for n
    unfolding src tag_sources_get(1) [OF wf(2) inner] tag_sources_get(2) [OF wf(1) gm.wf_empty nt]
    by (simp add: gm.get_empty split: option.split)
  ultimately show ?thesis
    using sides same med fdiv_sane [of "res_Rate rt" "res_Rate rf"] mergeUnique_facts
    unfolding rate used by blast
qed

text \<open>A successful side, for the instances.\<close>

lemma computeDirect_some:
  assumes "engine_ok E" and "store_good d" and "fmt_range since" and "\<forall>n. fault E n = None"
    and "side_spec cfg (stored_rates since d q) = Inr v"
  obtains r d' where "computeDirect E cfg clk q since d = (Inr r, d')" "res_Rate r = v" "same_tables d d'"
proof -
  have view: "rate_of (fst (computeDirect E cfg clk q since d)) = Inr v"
    using computeDirect_view [OF assms(1-4)] assms(5) by simp
  show ?thesis
  proof (cases "computeDirect E cfg clk q since d")
    case (Pair x d')
    with view obtain r where "x = Inr r" "res_Rate r = v" by (cases x) auto
    with Pair show ?thesis using computeDirect_same [of d E cfg clk q since] by (intro that) auto
  qed
qed

definition cross_db :: db where
  "cross_db = sample_db\<lparr>readings := [sample_row 1 1 4 10, (sample_row 2 2 8 15)\<lparr>rr_quote := ''JPY''\<rparr>]\<rparr>"

lemma cross_db_good: "store_good cross_db"
proof -
  have "\<exists>t. fmt_range t \<and> fmt_rfc3339 (10 * ns_per_sec) = fmt_rfc3339 t"
    "\<exists>t. fmt_range t \<and> fmt_rfc3339 (15 * ns_per_sec) = fmt_rfc3339 t"
    by (rule exI [of _ "10 * ns_per_sec"], simp) (rule exI [of _ "15 * ns_per_sec"], simp)
  then have "stamped cross_db" by (simp add: cross_db_def stamped_def)
  moreover have "db_ok cross_db"
    using sample_db_ok by (simp add: cross_db_def db_ok_defs sample_provider_def sample_db_def)
  ultimately show ?thesis by (simp add: store_good_def)
qed

lemma cross_db_sides:
  "side_spec (sample_agg 1) (stored_rates 0 cross_db ''EUR'') = Inr (Fin 4)"
  "side_spec (sample_agg 1) (stored_rates 0 cross_db ''JPY'') = Inr (Fin 8)"
proof -
  have jpy: "to_upper ''JPY'' = ''JPY''" by code_simp
  have ge: "0 \<le> ns_per_sec" by (simp add: ns_per_sec_def)
  have "row_time ((sample_row 2 2 8 15)\<lparr>rr_quote := ''JPY''\<rparr>) = row_time (sample_row 2 2 8 15)"
    by (simp add: row_time_def)
  then have r: "stored_rates 0 cross_db ''EUR'' = [Fin 4]" "stored_rates 0 cross_db ''JPY'' = [Fin 8]"
    using ge by (simp_all add: stored_rates_def rate_rows_def newest_row_def cross_db_def jpy)
  have "FilterOutliers [Fin n] tol = [Fin n]" for n tol by (rule FilterOutliers_id) simp
  then show "side_spec (sample_agg 1) (stored_rates 0 cross_db ''EUR'') = Inr (Fin 4)"
    "side_spec (sample_agg 1) (stored_rates 0 cross_db ''JPY'') = Inr (Fin 8)"
    by (simp_all add: r side_spec_def Median_def Let_def)
qed

theorem cross_rate_correct_witness:
  "\<exists>r d'. computeCross plain_engine (sample_agg 1) (\<lambda>_. 0) ''EUR'' ''JPY'' 0 cross_db = (Inr r, d')
     \<and> ffinite (res_Rate r) \<and> \<bar>fval (res_Rate r) - 2\<bar> \<le> 2 / 2 ^ 53"
proof -
  have nf: "\<forall>n. fault plain_engine n = None" by simp
  obtain rf d1 where f: "computeDirect plain_engine (sample_agg 1) (\<lambda>_. 0) ''EUR'' 0 cross_db = (Inr rf, d1)"
    "res_Rate rf = Fin 4" "same_tables cross_db d1"
    by (rule computeDirect_some [OF plain_engine_simps(5) cross_db_good fmt_range_small(2) nf cross_db_sides(1)])
  have good: "store_good d1" using cross_db_good f(3) by (rule store_good_same)
  obtain rt d2 where t: "computeDirect plain_engine (sample_agg 1) (shift 2 (\<lambda>_. 0)) ''JPY'' 0 d1 = (Inr rt, d2)"
    "res_Rate rt = Fin 8"
    by (rule computeDirect_some [OF plain_engine_simps(5) good fmt_range_small(2) nf
        cross_db_sides(2) [folded stored_rates_same [OF f(3)]]])
  obtain r where c: "computeCross plain_engine (sample_agg 1) (\<lambda>_. 0) ''EUR'' ''JPY'' 0 cross_db = (Inr r, d2)"
    using f t by (simp add: computeCross_def feq_def)
  have "(2 :: rat) powi (- 500) \<le> 2 powi 2" "(2 :: rat) powi 3 \<le> 2 powi 500" by (rule powi2_mono, simp)+
  then have "sane (Fin 4)" "sane (Fin 8)" by (simp_all add: sane_def)
  with cross_rate_correct [OF c] f t c show ?thesis by auto
qed

section \<open>All rates from the base\<close>

lemma all_rounds_view:
  assumes "engine_ok E" and "store_good d" and "fmt_range since" and "\<forall>n. fault E n = None" and "map_wf out"
  shows "map_wf (fst (all_rounds E cfg clk since codes out d))
    \<and> map_option res_Rate (map_get (fst (all_rounds E cfg clk since codes out d)) c) =
      (if c \<in> set codes \<and> c \<noteq> Base cfg \<and> (\<exists>v. side_spec cfg (stored_rates since d c) = Inr v)
       then Some (fst (Median (FilterOutliers (stored_rates since d c) (fdiv (OutlierTolerancePct cfg) (Fin 100)))))
       else map_option res_Rate (map_get out c))"
  using assms(2,5)
proof (induction codes arbitrary: clk out d)
  case (Cons code codes)
  let ?P = "\<lambda>d c. \<exists>v. side_spec cfg (stored_rates since d c) = Inr v"
  show ?case
  proof (cases "code = Base cfg")
    case True
    with Cons.IH [OF Cons.prems] show ?thesis by auto
  next
    case False
    let ?cd = "computeDirect E cfg clk code since d"
    have view: "rate_of (fst ?cd) = side_spec cfg (stored_rates since d code)"
      by (rule computeDirect_view [OF assms(1) Cons.prems(1) assms(3,4)])
    have same: "same_tables d (snd ?cd)" by (rule computeDirect_same)
    have good: "store_good (snd ?cd)" using Cons.prems(1) same by (rule store_good_same)
    note st = stored_rates_same [OF same, of since]
    show ?thesis
    proof (cases "fst ?cd")
      case (Inl e)
      then have "\<not> ?P d code" using view [symmetric] by simp
      moreover have "all_rounds E cfg clk since (code # codes) out d = all_rounds E cfg (shift 2 clk) since codes out (snd ?cd)"
        using False Inl by (cases ?cd) simp
      ultimately show ?thesis using Cons.IH [OF good Cons.prems(2), of "shift 2 clk"]
        by (auto simp: st simp del: all_rounds.simps)
    next
      case (Inr r)
      then have s: "side_spec cfg (stored_rates since d code) = Inr (res_Rate r)" using view [symmetric] by simp
      then have rr: "res_Rate r = fst (Median (FilterOutliers (stored_rates since d code) (fdiv (OutlierTolerancePct cfg) (Fin 100))))"
        by (simp add: side_spec_def split: if_splits)
      have eq: "all_rounds E cfg clk since (code # codes) out d =
          all_rounds E cfg (shift 2 clk) since codes (map_set code r out) (snd ?cd)"
        using False Inr by (cases ?cd) simp
      show ?thesis
        unfolding eq using Cons.IH [OF good gm.wf_put [OF Cons.prems(2)], of "shift 2 clk" code r] s rr False
        by (auto simp: st gm.get_put [OF Cons.prems(2)])
    qed
  qed
qed simp

text \<open>
  C23: \<open>AllCurrencies\<close> publishes exactly the currencies that have a rate. Over a sound store
  and without driver errors, a code has an entry if and only if it was asked for, is not the
  base and has at least \<open>MinProviders\<close> newest fresh readings; the entry's rate is the filtered
  median of these. One currency without data never removes another, and repeated codes do no
  harm.
\<close>

theorem all_currencies_exact:
  assumes "engine_ok E" and "db_ok d" and "stamped d" and "fmt_range (oldest_allowed cfg (clk 0))"
    and "\<forall>n. fault E n = None"
  shows "map_option res_Rate (map_get (fst (AllCurrencies E cfg clk codes d)) c) =
    (if c \<in> set codes \<and> c \<noteq> Base cfg
        \<and> sint (MinProviders cfg) \<le> int (length (stored_rates (oldest_allowed cfg (clk 0)) d c))
     then Some (fst (Median (FilterOutliers (stored_rates (oldest_allowed cfg (clk 0)) d c)
            (fdiv (OutlierTolerancePct cfg) (Fin 100)))))
     else None)"
proof -
  have good: "store_good d" using assms(2,3) by (simp add: store_good_def)
  have "(\<exists>v. side_spec cfg vs = Inr v) \<longleftrightarrow> sint (MinProviders cfg) \<le> int (length vs)" for vs
    by (auto simp: side_spec_def)
  with all_rounds_view [OF assms(1) good assms(4,5) gm.wf_empty, of cfg "shift 1 clk" codes c]
  show ?thesis by (simp add: AllCurrencies_def gm.get_empty)
qed

theorem all_currencies_exact_witness:
  "map_option res_Rate (map_get (fst (AllCurrencies plain_engine (sample_agg 2) (\<lambda>_. 3612 * ns_per_sec)
      [''USD'', ''JPY'', ''EUR''] sample_db)) ''EUR'') = Some (Fin (11 / 2))
   \<and> map_option res_Rate (map_get (fst (AllCurrencies plain_engine (sample_agg 2) (\<lambda>_. 3612 * ns_per_sec)
      [''USD'', ''JPY'', ''EUR''] sample_db)) ''USD'') = None"
proof -
  have r: "fmt_range (oldest_allowed (sample_agg 2) (3612 * ns_per_sec))" by (simp add: sample_oldest)
  have nf: "\<forall>n. fault plain_engine n = None" by simp
  note a = all_currencies_exact [where clk = "\<lambda>_. 3612 * ns_per_sec",
      OF plain_engine_simps(5) sample_db_ok sample_db_stamped r nf]
  show ?thesis unfolding a by (simp add: sample_oldest sample_stored sample_rate)
qed

section \<open>Pruning and rates\<close>

lemma rate_rows_prune:
  assumes "stamped d" and "fmt_range c" and "fault E (stmts d) = None" and "c \<le> since"
  shows "rate_rows q since (snd (PruneOlderThan E c d)) = rate_rows q since d"
proof -
  have "to_second c \<le> to_second since" using assms(4) by (rule to_second_mono)
  then show ?thesis
    unfolding rate_rows_def PruneOlderThan_rows(1) [OF assms(1-3)] filter_filter
    by (intro filter_cong) (fastforce simp: newest_row_def PruneOlderThan_rows(1) [OF assms(1-3)])+
qed

text \<open>
  C26: the daily pruning changes no rate. If what \<open>Prune\<close> removes is older than the readings a
  rate may use, as with any retention longer than \<open>MaxAgeSeconds\<close>, then \<open>Compute\<close> gives for every
  pair the same rate or the same error after it as before.
\<close>

theorem pruning_keeps_rates:
  assumes "engine_ok E" and "db_ok d" and "stamped d" and "\<forall>n. fault E n = None"
    and "fmt_range (oldest_allowed cfg (clk 0))" and "fmt_range (time_add now (- retention))"
    and "time_add now (- retention) \<le> oldest_allowed cfg (clk 0)"
  shows "rate_of (fst (Compute E cfg clk from to (snd (Prune E now retention d)))) =
    rate_of (fst (Compute E cfg clk from to d))"
proof -
  let ?p = "snd (Prune E now retention d)"
  have good: "store_good d" "store_good ?p"
    using assms(2,3) by (simp_all add: store_good_def Prune_def db_ok_PruneOlderThan stamped_prune)
  have "fault E (stmts d) = None" using assms(4) by simp
  from rate_rows_prune [OF assms(3,6) this assms(7)]
  have "stored_rates (oldest_allowed cfg (clk 0)) ?p = stored_rates (oldest_allowed cfg (clk 0)) d"
    by (simp add: fun_eq_iff stored_rates_def Prune_def)
  then show ?thesis
    using Compute_view [where cfg = cfg and clk = clk, OF assms(1) good(1) assms(5,4)]
      Compute_view [where cfg = cfg and clk = clk, OF assms(1) good(2) assms(5,4)] by simp
qed

theorem pruning_keeps_rates_witness:
  "rate_of (fst (Compute plain_engine (sample_agg 2) (\<lambda>_. 3612 * ns_per_sec) ''USD'' ''EUR''
      (snd (Prune plain_engine (3612 * ns_per_sec) hour sample_db)))) =
   rate_of (fst (Compute plain_engine (sample_agg 2) (\<lambda>_. 3612 * ns_per_sec) ''USD'' ''EUR'' sample_db))"
proof -
  have c: "time_add (3612 * ns_per_sec) (- hour) = 12 * ns_per_sec" by (simp add: time_add_def ns_per_sec_def)
  have nf: "\<forall>n. fault plain_engine n = None" by simp
  show ?thesis
    by (rule pruning_keeps_rates [where clk = "\<lambda>_. 3612 * ns_per_sec",
          OF plain_engine_simps(5) sample_db_ok sample_db_stamped nf])
      (simp_all add: sample_oldest c)
qed

section \<open>History series\<close>

text \<open>The rate of the last point of a series in the second of \<open>p\<close>.\<close>

definition same_second :: "history_point \<Rightarrow> history_point list \<Rightarrow> history_point list" where
  "same_second p ps = filter (\<lambda>x. time_unix (hp_FetchedAt x) = time_unix (hp_FetchedAt p)) ps"

definition has_cross :: "history_point list \<Rightarrow> history_point \<Rightarrow> bool" where
  "has_cross fs p \<longleftrightarrow> same_second p fs \<noteq> [] \<and> \<not> feq (hp_Rate (last (same_second p fs))) (Fin 0)
     \<and> \<not> feq (hp_Rate p) (Fin 0)"

lemma by_second_get: "map_get (by_second fs) (time_unix (hp_FetchedAt p)) =
    (if same_second p fs = [] then None else Some (hp_Rate (last (same_second p fs))))"
  unfolding by_second_def gm.get_fold [OF gm.wf_empty] same_second_def
  by (auto simp: gm.get_empty filter_empty_conv image_iff)

text \<open>
  A cross history is the point-wise quotient of its two sides. \<open>crossHistory\<close> keeps, in
  order and with their times, exactly the points of the to-side for which the from-side has a
  point in the same second with both rates nonzero, and divides by the last such from-side
  rate; it never divides by zero and invents no time.
\<close>

theorem cross_history_pointwise:
  "crossHistory fs ts = map (\<lambda>p. \<lparr>hp_FetchedAt = hp_FetchedAt p,
       hp_Rate = fdiv (hp_Rate p) (hp_Rate (last (same_second p fs)))\<rparr>) (filter (has_cross fs) ts)"
proof -
  have "fold (cross_point (by_second fs)) ts out = out @ map (\<lambda>p. \<lparr>hp_FetchedAt = hp_FetchedAt p,
       hp_Rate = fdiv (hp_Rate p) (hp_Rate (last (same_second p fs)))\<rparr>) (filter (has_cross fs) ts)" for out
    by (induction ts arbitrary: out) (simp_all add: cross_point_def by_second_get has_cross_def)
  from this [of "[]"] show ?thesis by (simp add: crossHistory_def)
qed

text \<open>A stored zero rate, and what the inverse history makes of it.\<close>

definition zero_rate_db :: db where
  "zero_rate_db = sample_db\<lparr>readings := [sample_row 1 1 0 15]\<rparr>"

text \<open>
  An inverse history shows a zero rate as a point of the year 1. A reading of rate zero in
  the requested range makes \<open>History\<close> to the base return a point with rate 0 whose time is Go's
  zero time, before the requested start; \<open>crossHistory\<close> drops such readings.
\<close>

theorem inverse_history_zero_point:
  "fst (AggHistory plain_engine (sample_agg 1) ''EUR'' ''USD'' (10 * ns_per_sec) (18 * ns_per_sec) 0 zero_rate_db)
     = Inr [\<lparr>hp_FetchedAt = zero_time, hp_Rate = Fin 0\<rparr>]
   \<and> zero_time < 10 * ns_per_sec"
proof -
  have "fmt_rfc3339 (10 * ns_per_sec) \<le> fmt_rfc3339 (15 * ns_per_sec)"
    "fmt_rfc3339 (15 * ns_per_sec) \<le> fmt_rfc3339 (18 * ns_per_sec)"
    by (simp_all add: fmt_rfc3339_le)
  then show ?thesis
    by (simp add: AggHistory_def historySide_def History_def go_simps Let_def history_rows_def zero_rate_db_def
        invertHistory_def feq_def zero_time_def)
qed

end
