(* ===== verification/HttpFacts.thy ===== *)
theory HttpFacts
  imports HttpApi PairFacts Adapters
begin

text \<open>
  What the handlers of the HTTP interface answer: the exchange sort of \<open>sortedKeys\<close>, which
  currencies a table of rates can contain and with which rates, that a cached answer is the
  computed one, when the service reports itself ready, and what an answer that cannot be
  encoded or read looks like.
\<close>

section \<open>Sorting\<close>

lemma exchange_pass:
  assumes "i < k" and "k \<le> length out"
  defines "res \<equiv> fold (exchange i) [Suc i..<k] out"
  shows "mset res = mset out \<and> take i res = take i out \<and> (\<forall>j. i < j \<and> j < k \<longrightarrow> res ! i \<le> res ! j)"
  using assms(1,2) unfolding res_def
proof (induction k)
  case (Suc k)
  show ?case
  proof (cases "i = k")
    case True
    then show ?thesis by auto
  next
    case False
    let ?r = "fold (exchange i) [Suc i..<k] out"
    have IH: "mset ?r = mset out" "take i ?r = take i out" "\<forall>j. i < j \<and> j < k \<longrightarrow> ?r ! i \<le> ?r ! j"
      using Suc False by simp_all
    have len: "length ?r = length out" using IH(1) by (rule mset_eq_length)
    have step: "fold (exchange i) [Suc i..<Suc k] out = exchange i k ?r" using Suc.prems False by simp
    have "mset (exchange i k ?r) = mset ?r" "take i (exchange i k ?r) = take i ?r"
      using Suc.prems False len by (simp_all add: exchange_def mset_swap)
    moreover have "exchange i k ?r ! i \<le> exchange i k ?r ! j" if "i < j" "j < Suc k" for j
      using IH(3) that Suc.prems False len
      by (auto simp: exchange_def nth_list_update less_Suc_eq intro: less_imp_le order_trans not_less [THEN iffD1])
    ultimately show ?thesis by (metis IH(1,2) step)
  qed
qed simp

lemma same_suffix:
  assumes "mset s = mset r" and "take m s = take m r"
  shows "set (drop m s) = set (drop m r)"
proof -
  have "mset (take m s) + mset (drop m s) = mset (take m r) + mset (drop m r)"
    using assms(1) by (simp only: mset_append [symmetric] append_take_drop_id)
  then have "mset (drop m s) = mset (drop m r)" by (simp add: assms(2))
  then show ?thesis by (rule mset_eq_setD)
qed

lemma exchange_sorts:
  fixes out :: "string list"
  assumes "m \<le> length out"
  defines "res \<equiv> fold (\<lambda>i. fold (exchange i) [Suc i..<length out]) [0..<m] out"
  shows "mset res = mset out \<and> sorted (take m res) \<and> (\<forall>x \<in> set (take m res). \<forall>y \<in> set (drop m res). x \<le> y)"
  using assms(1) unfolding res_def
proof (induction m)
  case (Suc m)
  let ?r = "fold (\<lambda>i. fold (exchange i) [Suc i..<length out]) [0..<m] out"
  let ?s = "fold (exchange m) [Suc m..<length out] ?r"
  have IH: "mset ?r = mset out" "sorted (take m ?r)" "\<forall>x \<in> set (take m ?r). \<forall>y \<in> set (drop m ?r). x \<le> y"
    using Suc.IH Suc.prems by (blast dest: Suc_leD)+
  have len: "length ?r = length out" using IH(1) by (rule mset_eq_length)
  have pass: "mset ?s = mset ?r" "take m ?s = take m ?r" "\<forall>j. m < j \<and> j < length out \<longrightarrow> ?s ! m \<le> ?s ! j"
    using exchange_pass [of m "length out" ?r] Suc.prems len by simp_all
  have lens: "length ?s = length out" using mset_eq_length [OF pass(1)] len by (rule trans)
  have drop: "set (drop m ?s) = set (drop m ?r)" using pass(1,2) by (rule same_suffix)
  have head: "drop m ?s = ?s ! m # drop (Suc m) ?s" using Suc.prems lens by (simp add: Cons_nth_drop_Suc)
  then have mem: "?s ! m \<in> set (drop m ?r)" "set (drop (Suc m) ?s) \<subseteq> set (drop m ?r)"
    using drop by auto
  have tk: "take (Suc m) ?s = take m ?r @ [?s ! m]" using Suc.prems lens pass(2) by (simp add: take_Suc_conv_app_nth)
  have least: "?s ! m \<le> y" if "y \<in> set (drop (Suc m) ?s)" for y
  proof -
    have "\<exists>b. b < length (drop (Suc m) ?s) \<and> drop (Suc m) ?s ! b = y" using that by (simp only: in_set_conv_nth)
    then obtain b where b: "b < length (drop (Suc m) ?s)" "drop (Suc m) ?s ! b = y" by blast
    have "y = ?s ! (Suc m + b)" using b by (simp only: nth_drop length_drop)
    moreover have "Suc m + b < length out" using b(1) by (simp only: length_drop lens)
    moreover have "m < Suc m + b" by simp
    ultimately show ?thesis using pass(3) by blast
  qed
  have 1: "sorted (take (Suc m) ?s)" using IH(2,3) mem(1) by (simp add: tk sorted_append)
  have 2: "\<forall>x \<in> set (take (Suc m) ?s). \<forall>y \<in> set (drop (Suc m) ?s). x \<le> y"
    using IH(3) mem(2) least by (auto simp: tk)
  show ?case using 1 2 pass(1) IH(1) by simp
qed simp

lemma exchange_sorts_keys: "mset (sortedKeys m) = mset (map fst m) \<and> sorted (sortedKeys m)
    \<and> (distinct (map fst m) \<longrightarrow> distinct (sortedKeys m))"
proof -
  have "mset (sortedKeys m) = mset (map fst m) \<and> sorted (sortedKeys m)"
    using exchange_sorts [of "length (map fst m)" "map fst m"] mset_eq_length
    unfolding sortedKeys_def Let_def by fastforce
  then show ?thesis using mset_eq_imp_distinct_iff by blast
qed

text \<open>
  \<open>sortedKeys\<close> sorts. The quadratic exchange sort over the keys of a map, in whatever order
  the map yields them, returns exactly the library's sorted list of the keys, with every key
  once.
\<close>

theorem sorted_keys_sorts: "sortedKeys m = sort (map fst m)"
  using exchange_sorts_keys [of m] properties_for_sort by metis

section \<open>A rate read back from its document\<close>

definition ascii :: "string \<Rightarrow> bool" where
  "ascii s \<longleftrightarrow> (\<forall>c \<in> set s. of_char c < (0x80 :: nat))"

lemma ascii_simps [simp]: "ascii []" "ascii (c # s) \<longleftrightarrow> of_char c < (0x80 :: nat) \<and> ascii s" "ascii (a @ b) \<longleftrightarrow> ascii a \<and> ascii b"
  by (auto simp: ascii_def)

lemma valid_utf8_ascii: "ascii s \<Longrightarrow> valid_utf8 s"
  by (induction s) (simp_all add: utf8_len_ascii)

lemma ascii_digits [simp]: "ascii (pad w n)" "ascii (decimal n)"
proof -
  show "ascii (pad w n)" by (induction w arbitrary: n) (simp_all add: of_char_digit)
  have "n mod 10 < (80 :: nat)" for n :: nat by (rule less_trans [of _ 10]) simp_all
  then show "ascii (decimal n)"
    by (induction n rule: decimal.induct) (subst decimal.simps, simp add: of_char_digit)
qed

lemma valid_utf8_time [simp]: "valid_utf8 (fmt_rfc3339 t)"
  by (rule valid_utf8_ascii)
    (simp add: fmt_rfc3339_def fmt_day_def fmt_date_def fmt_year_def pad_min_def fmt_clock_def fmt_hms_def split: prod.split)

lemma single_names:
  "fold_name ''from'' = ''FROM''" "fold_name ''to'' = ''TO''" "fold_name ''rate'' = ''RATE''" "fold_name ''as_of'' = ''AS_OF''"
  "fold_name ''freshness_seconds'' = ''FRESHNESS_SECONDS''" "fold_name ''providers_used'' = ''PROVIDERS_USED''"
  by code_simp+

lemma single_fields:
  "single_field ''FROM'' j r = map_option (\<lambda>v. r\<lparr>sr_From := v\<rparr>) (dec_string (sr_From r) j)"
  "single_field ''TO'' j r = map_option (\<lambda>v. r\<lparr>sr_To := v\<rparr>) (dec_string (sr_To r) j)"
  "single_field ''RATE'' j r = map_option (\<lambda>v. r\<lparr>sr_Rate := v\<rparr>) (dec_float (sr_Rate r) j)"
  "single_field ''AS_OF'' j r = map_option (\<lambda>v. r\<lparr>sr_AsOf := v\<rparr>) (dec_string (sr_AsOf r) j)"
  "single_field ''FRESHNESS_SECONDS'' j r =
    map_option (\<lambda>v. r\<lparr>sr_FreshnessSeconds := v\<rparr>) (dec_float (sr_FreshnessSeconds r) j)"
  "single_field ''PROVIDERS_USED'' j r = (if j = JNull then Some (r\<lparr>sr_ProvidersUsed := None\<rparr>)
    else map_option (\<lambda>v. r\<lparr>sr_ProvidersUsed := Some v\<rparr>) (dec_slice (dec_string []) [] j))"
  by (simp_all add: single_field_def)

lemma dec_list_strings: "dec_list (dec_string []) (map JStr ss) = Some ss"
  by (induction ss) (simp_all add: dec_string_def)

definition readable :: "single_rate_response \<Rightarrow> bool" where
  "readable r \<longleftrightarrow> ffinite (sr_Rate r) \<and> wff (sr_Rate r) \<and> ffinite (sr_FreshnessSeconds r) \<and> wff (sr_FreshnessSeconds r)
     \<and> valid_utf8 (sr_From r) \<and> valid_utf8 (sr_To r) \<and> valid_utf8 (sr_AsOf r)
     \<and> (\<forall>p \<in> set (slice_elems (sr_ProvidersUsed r)). valid_utf8 p)"

lemma single_decode_json:
  assumes "readable r"
  shows "\<exists>j. single_json r = Some j \<and> single_decode (json_text j) = Some r"
proof -
  obtain jr jf where j: "json_float (sr_Rate r) = Some jr" "json_float (sr_FreshnessSeconds r) = Some jf"
    using assms json_float_fails by (fastforce simp: readable_def)
  let ?j = "JObj [(''from'', JStr (sr_From r)), (''to'', JStr (sr_To r)), (''rate'', jr), (''as_of'', JStr (sr_AsOf r)),
    (''freshness_seconds'', jf), (''providers_used'', json_slice (sr_ProvidersUsed r))]"
  have wf: "wff (sr_Rate r)" "wff (sr_FreshnessSeconds r)" using assms by (simp_all add: readable_def)
  have depth: "max_depth = Suc (Suc 9998)" by (simp add: max_depth_def)
  have names: "valid_utf8 ''from''" "valid_utf8 ''to''" "valid_utf8 ''rate''" "valid_utf8 ''as_of''"
    "valid_utf8 ''freshness_seconds''" "valid_utf8 ''providers_used''" by code_simp+
  have "json_ok max_depth ?j"
    using assms names dec_json_float(2) [OF j(1) wf(1)] dec_json_float(2) [OF j(2) wf(2)]
    unfolding depth by (auto simp: readable_def json_slice_def json_strings_def slice_elems_def split: option.splits)
  then have read: "decode_document (json_text ?j) = Some ?j" by (rule decode_json_text)
  have slice: "(if json_slice ss = JNull then Some (r'\<lparr>sr_ProvidersUsed := None\<rparr>)
      else map_option (\<lambda>v. r'\<lparr>sr_ProvidersUsed := Some v\<rparr>) (dec_slice (dec_string []) [] (json_slice ss)))
      = Some (r'\<lparr>sr_ProvidersUsed := ss\<rparr>)" for ss and r' :: single_rate_response
    by (simp add: json_slice_def json_strings_def dec_slice_def dec_list_strings split: option.split)
  have str: "dec_string old (JStr t) = Some t" for old t by (simp add: dec_string_def)
  have "dec_struct single_field x ?j = Some r" for x
    by (simp add: dec_struct_def single_names single_fields dec_json_float(1) [OF j(1) wf(1)]
        dec_json_float(1) [OF j(2) wf(2)] slice str)
  with read have "single_decode (json_text ?j) = Some r" by (simp only: single_decode_def Option.bind.bind_lunit)
  moreover have "single_json r = Some ?j" by (simp add: single_json_def json_obj_def j)
  ultimately show ?thesis by blast
qed

section \<open>The cache of the server\<close>

definition srv_ok :: "duration \<Rightarrow> server \<Rightarrow> bool" where
  "srv_ok ttl s \<longleftrightarrow> (\<forall>c. sv_cache s = Some c \<longrightarrow> cache_wf ttl c)"

definition server_look :: "time \<Rightarrow> string \<Rightarrow> server \<Rightarrow> string option" where
  "server_look now key s = fst (cacheLookup now key s)"

lemma server_look_cases: "server_look now k s = (case sv_cache s of None \<Rightarrow> None | Some c \<Rightarrow> cache_look c now k)"
  by (simp add: server_look_def cacheLookup_def cache_look_def split: option.split prod.split)

lemma cacheLookup_frame [simp]:
  "sv_db (snd (cacheLookup now k s)) = sv_db s" "sv_agg (snd (cacheLookup now k s)) = sv_agg s"
  "sv_currencies (snd (cacheLookup now k s)) = sv_currencies s" "sv_cacheTTL (snd (cacheLookup now k s)) = sv_cacheTTL s"
  "sv_store (snd (cacheLookup now k s)) = sv_store s"
  by (simp_all add: cacheLookup_def split: option.split prod.split)

lemma cacheStore_frame [simp]:
  "sv_db (snd (cacheStore now k v s)) = sv_db s" "sv_agg (snd (cacheStore now k v s)) = sv_agg s"
  "sv_currencies (snd (cacheStore now k v s)) = sv_currencies s" "sv_cacheTTL (snd (cacheStore now k v s)) = sv_cacheTTL s"
  by (simp_all add: cacheStore_def split: option.split)

lemma srv_ok_steps:
  assumes "srv_ok ttl s"
  shows "srv_ok ttl (snd (cacheLookup now k s))" and "srv_ok ttl (snd (cacheStore now k v s))"
    and "srv_ok ttl (s\<lparr>sv_db := d\<rparr>)"
proof -
  show "srv_ok ttl (snd (cacheLookup now k s))"
  proof (cases "sv_cache s")
    case (Some c)
    then have "cache_wf ttl (snd (cache_Get now k c))" using assms rc.wf_get by (simp add: srv_ok_def)
    with Some show ?thesis by (auto simp: srv_ok_def cacheLookup_def split: prod.splits)
  qed (simp add: srv_ok_def cacheLookup_def)
  show "srv_ok ttl (snd (cacheStore now k v s))"
    using assms by (cases v; cases "sv_cache s") (auto simp: srv_ok_def cacheStore_def rc.wf_put)
  show "srv_ok ttl (s\<lparr>sv_db := d\<rparr>)" using assms by (simp add: srv_ok_def)
qed

lemma look_db [simp]: "server_look now k (s\<lparr>sv_db := d\<rparr>) = server_look now k s"
  by (simp add: server_look_cases)

lemma look_after_lookup:
  assumes "srv_ok ttl s" and "now \<le> later"
  shows "server_look later k' (snd (cacheLookup now k s)) = server_look later k' s"
proof (cases "sv_cache s")
  case (Some c)
  then have "cache_look (snd (cache_Get now k c)) later k' = cache_look c later k'"
    using assms rc.look_get by (simp add: srv_ok_def)
  with Some show ?thesis by (auto simp: server_look_cases cacheLookup_def split: prod.splits)
qed (simp add: server_look_cases cacheLookup_def)

lemma look_after_store:
  assumes "srv_ok ttl s" and "sv_cache s = Some c"
  shows "server_look later k' (snd (cacheStore now k (Some j) s)) =
    (if k' = k then (if later \<le> time_add now (c_ttl c) then Some (json_text j) else None) else server_look later k' s)"
proof -
  have wf: "cache_wf ttl c" using assms by (simp add: srv_ok_def)
  then have t: "c_ttl c = c_ttl (NewCache ttl)" by (simp add: cache_wf_def)
  show ?thesis unfolding t
    using assms(2) by (simp add: server_look_cases cacheStore_def rc.look_put [OF wf] still_fresh_def time_add_def)
qed

lemma look_other_store:
  assumes "srv_ok ttl s" and "k' \<noteq> k"
  shows "server_look later k' (snd (cacheStore now k v s)) = server_look later k' s"
proof (cases "sv_cache s")
  case None
  then show ?thesis by (simp add: server_look_cases cacheStore_def split: option.split)
next
  case (Some c)
  show ?thesis
  proof (cases v)
    case (Some j)
    then show ?thesis using look_after_store [OF assms(1) \<open>sv_cache s = Some c\<close>] assms(2) by simp
  qed (simp add: cacheStore_def)
qed

lemma lookup_hit: "server_look now k s = Some b \<Longrightarrow> cacheLookup now k s = (Some b, s)"
  by (auto simp: server_look_def cacheLookup_def cache_Get_def split: option.splits if_splits)

lemma lookup_miss: "server_look now k s = None \<Longrightarrow> cacheLookup now k s = (None, snd (cacheLookup now k s))"
  by (simp add: server_look_def prod_eq_iff)

lemma rate_key_eq [simp]: "rate_key b x = rate_key b y \<longleftrightarrow> x = y"
  by (simp add: rate_key_def)

text \<open>A body stored after a miss is found until the time to live has passed.\<close>

lemma stored_then_hit:
  assumes "sv_cache s = Some c" and "cache_wf ttl c"
    and "s' = snd (cacheStore now k (Some j) ((snd (cacheLookup t k s))\<lparr>sv_db := d\<rparr>))"
    and "later \<le> time_add now (c_ttl c)"
  shows "cacheLookup later k (s'\<lparr>sv_db := d'\<rparr>) = (Some (json_text j), s'\<lparr>sv_db := d'\<rparr>)"
proof -
  let ?s1 = "(snd (cacheLookup t k s))\<lparr>sv_db := d\<rparr>"
  have "srv_ok ttl s" using assms(1,2) by (simp add: srv_ok_def)
  then have ok: "srv_ok ttl ?s1" by (simp add: srv_ok_steps)
  have "\<exists>c1. sv_cache ?s1 = Some c1 \<and> c_ttl c1 = c_ttl c"
    using assms(1) by (auto simp: cacheLookup_def cache_Get_def split: option.splits)
  then obtain c1 where c1: "sv_cache ?s1 = Some c1" "c_ttl c1 = c_ttl c" by blast
  have "server_look later k s' = Some (json_text j)"
    using look_after_store [OF ok c1(1), of later k now k j] assms(4) c1(2) by (simp add: assms(3))
  then show ?thesis by (intro lookup_hit) simp
qed

section \<open>One rate\<close>

lemma computeDirect_codes: "computeDirect E cfg clk q since d = (Inr r, d') \<Longrightarrow> res_From r = Base cfg \<and> res_To r = to_upper q"
  by (auto simp: computeDirect_def direct_result_def Let_def split: if_splits prod.splits sum.splits)

lemma computeCross_codes: "computeCross E cfg clk f t since d = (Inr r, d') \<Longrightarrow> res_From r = f \<and> res_To r = t"
  by (auto simp: computeCross_def split: if_splits prod.splits sum.splits)

lemma Compute_codes:
  assumes "Compute E cfg clk from to d = (Inr res, d')"
  shows "res_From res = to_upper from \<and> res_To res = to_upper to"
proof -
  consider "to_upper from = to_upper to" | "to_upper from = Base cfg" "to_upper from \<noteq> to_upper to"
    | "to_upper to = Base cfg" "to_upper from \<noteq> Base cfg"
    | "to_upper from \<noteq> Base cfg" "to_upper to \<noteq> Base cfg" "to_upper from \<noteq> to_upper to" by argo
  then show ?thesis
  proof cases
    case 3
    then obtain r d1 where "computeDirect E cfg (shift 1 clk) (to_upper from) (oldest_allowed cfg (clk 0)) d = (Inr r, d1)"
        "invertTo r (to_upper to) = Inr res"
      using assms by (force simp: Compute_def Let_def split: if_splits prod.splits sum.splits)
    then show ?thesis using computeDirect_codes by (fastforce simp: invertTo_def Let_def split: if_splits)
  qed (use assms in \<open>auto simp: Compute_def Let_def split: if_splits dest: computeDirect_codes computeCross_codes\<close>)
qed

text \<open>The freshness of a rate is always finite.\<close>

lemma since_seconds_finite: "ffinite (since_seconds now t)"
proof -
  define d where "d = sint (time_sub now t)"
  define q where "q = quo d ns_per_sec"
  have range: "- (2 ^ 63) \<le> d" "d < 2 ^ 63" using sint_range_size [of "time_sub now t"] by (simp_all add: d_def word_size)
  have split: "d = q * ns_per_sec + sgn d * (\<bar>d\<bar> mod ns_per_sec)"
  proof -
    have "q = sgn d * (\<bar>d\<bar> div ns_per_sec)" by (simp add: q_def quo_def ns_per_sec_def)
    moreover have "d = sgn d * (\<bar>d\<bar> div ns_per_sec * ns_per_sec + \<bar>d\<bar> mod ns_per_sec)"
      by (simp only: div_mult_mod_eq sgn_mult_abs)
    ultimately show ?thesis by (simp only: distrib_left mult.assoc)
  qed
  have "\<bar>d\<bar> div ns_per_sec \<le> 2 ^ 63 div ns_per_sec"
    by (rule zdiv_mono1) (use range in \<open>auto simp: ns_per_sec_def abs_if\<close>)
  then have q: "\<bar>q\<bar> \<le> 9223372036" by (auto simp: q_def quo_def ns_per_sec_def abs_mult sgn_if)
  have "\<bar>sgn d * (\<bar>d\<bar> mod ns_per_sec)\<bar> \<le> ns_per_sec"
    using pos_mod_bound [of ns_per_sec "\<bar>d\<bar>"] pos_mod_sign [of ns_per_sec "\<bar>d\<bar>"] by (auto simp: ns_per_sec_def abs_mult sgn_if)
  then have r: "\<bar>d - q * ns_per_sec\<bar> \<le> 1000000000" using split by (simp add: ns_per_sec_def)
  have nums: "f64_of_int q = Fin (of_int q)" "f64_of_int (d - q * ns_per_sec) = Fin (of_int (d - q * ns_per_sec))"
    "f64_of_int ns_per_sec = Fin 1000000000"
    using q r f64_of_small_int [of q] f64_of_small_int [of "d - q * ns_per_sec"] f64_of_small_int [of ns_per_sec]
    by (simp_all add: ns_per_sec_def)
  define f where "f = fdiv (Fin (of_int (d - q * ns_per_sec))) (Fin 1000000000)"
  have one: "fin_ok 1" using fin_ok_of_int [of 1] by simp
  have "\<bar>of_int (d - q * ns_per_sec) :: rat\<bar> \<le> of_int 1000000000" using r by (simp only: of_int_le_iff flip: of_int_abs)
  then have small: "\<bar>of_int (d - q * ns_per_sec) / 1000000000 :: rat\<bar> \<le> 1" by (simp add: field_simps)
  have "f = mkf (fsign (Fin (of_int (d - q * ns_per_sec))) \<noteq> fsign (Fin 1000000000)) (of_int (d - q * ns_per_sec) / 1000000000)"
    by (simp add: f_def fdiv_def)
  then have f: "ffinite f" "fval f = rndq (of_int (d - q * ns_per_sec) / 1000000000)"
    using mkf_finite [OF small one] by simp_all
  have "\<bar>fval f\<bar> \<le> 1" using rndq_mono [OF small, unfolded rndq_abs] one by (simp only: f(2) fin_ok_def)
  moreover have "\<bar>of_int q :: rat\<bar> \<le> of_int 9223372036" using q by (simp only: of_int_le_iff flip: of_int_abs)
  ultimately have "\<bar>of_int q + fval f\<bar> \<le> of_int 9223372037" by simp
  then have "ffinite (mkf z (of_int q + fval f))" for z
    by (rule mkf_finite) (rule fin_ok_of_int, simp)
  then have "ffinite (fadd (Fin (of_int q)) f)" using f(1) by (simp add: fadd_def)
  moreover have "since_seconds now t = fadd (Fin (of_int q)) f"
    unfolding f_def since_seconds_def dur_seconds_def Let_def d_def [symmetric] q_def [symmetric] nums ..
  ultimately show ?thesis by simp
qed

lemma Compute_freshness:
  assumes "Compute E cfg clk from to d = (Inr res, d')"
  shows "ffinite (res_FreshnessSeconds res) \<and> wff (res_FreshnessSeconds res)"
proof -
  have w: "wff (since_seconds now t)" for now t by (simp add: since_seconds_def dur_seconds_def Let_def)
  have D: "ffinite (res_FreshnessSeconds r) \<and> wff (res_FreshnessSeconds r)"
    if "computeDirect E cfg clk q since d = (Inr r, d')" for clk q since d d' r
    using that since_seconds_finite w
    by (auto simp: computeDirect_def direct_result_def Let_def split: if_splits prod.splits sum.splits)
  have X: "ffinite (res_FreshnessSeconds r) \<and> wff (res_FreshnessSeconds r)"
    if "computeCross E cfg clk f t since d = (Inr r, d')" for clk f t since d d' r
    using that since_seconds_finite w by (auto simp: computeCross_def split: if_splits prod.splits sum.splits)
  have I: "res_FreshnessSeconds r' = res_FreshnessSeconds r" if "invertTo r to = Inr r'" for r r' to
    using that by (auto simp: invertTo_def Let_def split: if_splits)
  consider "to_upper from = to_upper to" | "to_upper from = Base cfg" "to_upper from \<noteq> to_upper to"
    | "to_upper to = Base cfg" "to_upper from \<noteq> Base cfg"
    | "to_upper from \<noteq> Base cfg" "to_upper to \<noteq> Base cfg" "to_upper from \<noteq> to_upper to" by argo
  then show ?thesis
  proof cases
    case 3
    then obtain r d1 where "computeDirect E cfg (shift 1 clk) (to_upper from) (oldest_allowed cfg (clk 0)) d = (Inr r, d1)"
        "invertTo r (to_upper to) = Inr res"
      using assms by (force simp: Compute_def Let_def split: if_splits prod.splits sum.splits)
    then show ?thesis using D I by simp
  qed (use assms in \<open>auto simp: Compute_def Let_def split: if_splits dest: D X\<close>)
qed

lemma readable_rate:
  assumes "Compute E cfg clk from to d = (Inr res, d')" and "ffinite (res_Rate res)" and "wff (res_Rate res)"
    and "valid_utf8 (to_upper from)" and "valid_utf8 (to_upper to)" and "\<forall>p \<in> set (res_ProvidersUsed res). valid_utf8 p"
  shows "readable (single_of now res)"
  using assms Compute_codes [OF assms(1)] Compute_freshness [OF assms(1)]
  by (auto simp: readable_def single_of_def slice_elems_def)

text \<open>A successful request for a pair that is not in the cache.\<close>

lemma single_rate_run:
  assumes "isAllowed s (to_upper base)" and "isAllowed s (to_upper quote)" and "sv_agg s = Some cfg"
    and "sv_cache s = Some c" and "cache_look c (clk 0) (rate_key (to_upper base) (to_upper quote)) = None"
    and "Compute E cfg (shift 1 clk) base quote (sv_db s) = (Inr res, d)"
    and "ffinite (res_Rate res)" and "wff (res_Rate res)" and "\<forall>p \<in> set (res_ProvidersUsed res). valid_utf8 p"
    and "valid_utf8 (to_upper base)" and "valid_utf8 (to_upper quote)"
    and "singleRate E dbtext clk base quote s = (r, s')"
  obtains j where "single_decode (json_text j) = Some (single_of (clk 8) res)" "r = writeBytes [cache_control s] (json_text j)"
    "s' = snd (cacheStore (clk 9) (rate_key (to_upper base) (to_upper quote)) (Some j)
      ((snd (cacheLookup (clk 0) (rate_key (to_upper base) (to_upper quote)) s))\<lparr>sv_db := d\<rparr>))"
    "sv_db s' = d" "sv_agg s' = sv_agg s" "sv_currencies s' = sv_currencies s" "sv_cacheTTL s' = sv_cacheTTL s"
proof -
  let ?k = "rate_key (to_upper base) (to_upper quote)"
  obtain j where j: "single_json (single_of (clk 8) res) = Some j" "single_decode (json_text j) = Some (single_of (clk 8) res)"
    using single_decode_json [OF readable_rate [OF assms(6-8) assms(10,11,9)]] by blast
  define s1 where "s1 = snd (cacheLookup (clk 0) ?k s)"
  have miss: "server_look (clk 0) ?k s = None" using assms(4,5) by (simp add: server_look_cases)
  have comp: "Compute E cfg (shift 1 clk) (to_upper base) (to_upper quote) (sv_db s1) = (Inr res, d)"
    using assms(6) by (simp add: Compute_def s1_def)
  have run: "r = writeBytes [cache_control s] (json_text j)" "s' = snd (cacheStore (clk 9) ?k (Some j) (s1\<lparr>sv_db := d\<rparr>))"
    using assms(12) assms(1-3) lookup_miss [OF miss] comp
    by (auto simp: singleRate_def Let_def j(1) s1_def [symmetric] cacheStore_def split: prod.splits)
  show thesis by (rule that [OF j(2) run(1) run(2) [unfolded s1_def]]) (simp_all add: run(2) s1_def)
qed

text \<open>
  C9: an answer for one pair is the computed rate, and a repeated request gets the same answer.
  When the pair is allowed and not in the cache, the body of a successful request reads back as
  exactly the rate \<open>Compute\<close> found, with its freshness and providers, dated at the time of the
  answer. Until the time to live of the cache has passed, a request for the same pair in any
  letter case gets the same response byte for byte, whatever the database or its engine do
  meanwhile.
\<close>

theorem single_rate_answer:
  assumes "isAllowed s (to_upper base)" and "isAllowed s (to_upper quote)" and "sv_agg s = Some cfg"
    and "sv_cache s = Some c" and "cache_look c (clk 0) (rate_key (to_upper base) (to_upper quote)) = None"
    and "Compute E cfg (shift 1 clk) base quote (sv_db s) = (Inr res, d)"
    and "ffinite (res_Rate res)" and "wff (res_Rate res)" and "\<forall>p \<in> set (res_ProvidersUsed res). valid_utf8 p"
    and "valid_utf8 (to_upper base)" and "valid_utf8 (to_upper quote)"
    and "singleRate E dbtext clk base quote s = (r, s')" and "cache_wf ttl c"
  shows "rp_status r = 200 \<and> single_decode (rp_body r) = Some (single_of (clk 8) res) \<and> sv_db s' = d
    \<and> (\<forall>E' dbtext' clk' base' quote' d'. to_upper base' = to_upper base \<longrightarrow> to_upper quote' = to_upper quote \<longrightarrow>
         clk' 0 \<le> time_add (clk 9) (c_ttl c) \<longrightarrow>
         singleRate E' dbtext' clk' base' quote' (s'\<lparr>sv_db := d'\<rparr>) = (r, s'\<lparr>sv_db := d'\<rparr>))"
proof -
  obtain j where run: "single_decode (json_text j) = Some (single_of (clk 8) res)" "r = writeBytes [cache_control s] (json_text j)"
    "s' = snd (cacheStore (clk 9) (rate_key (to_upper base) (to_upper quote)) (Some j)
      ((snd (cacheLookup (clk 0) (rate_key (to_upper base) (to_upper quote)) s))\<lparr>sv_db := d\<rparr>))"
    and frame: "sv_db s' = d" "sv_agg s' = sv_agg s" "sv_currencies s' = sv_currencies s" "sv_cacheTTL s' = sv_cacheTTL s"
    using single_rate_run [OF assms(1-12)] by blast
  have "singleRate E' dbtext' clk' base' quote' (s'\<lparr>sv_db := d'\<rparr>) = (r, s'\<lparr>sv_db := d'\<rparr>)"
    if u: "to_upper base' = to_upper base" "to_upper quote' = to_upper quote" and t: "clk' 0 \<le> time_add (clk 9) (c_ttl c)"
    for E' dbtext' clk' base' quote' d'
    using stored_then_hit [OF assms(4,13) run(3) t, of d'] assms(1-3) frame
    by (simp add: singleRate_def Let_def u isAllowed_def cache_control_def run(2))
  then show ?thesis by (simp add: run(1,2) frame(1) writeBytes_def)
qed

text \<open>
  C10: a table of rates takes from the cache what it would compute. After a successful request for
  a single pair, a table for the base that reaches the currency before the entry has expired
  collects exactly the rate, freshness and providers \<open>Compute\<close> had returned, without touching
  the database: the JSON document in the cache loses nothing.
\<close>

theorem cached_rate_enters_table:
  assumes "isAllowed s (to_upper base)" and "isAllowed s (to_upper quote)" and "sv_agg s = Some cfg"
    and "sv_cache s = Some c" and "cache_look c (clk 0) (rate_key (to_upper base) (to_upper quote)) = None"
    and "Compute E cfg (shift 1 clk) base quote (sv_db s) = (Inr res, d)"
    and "ffinite (res_Rate res)" and "wff (res_Rate res)" and "\<forall>p \<in> set (res_ProvidersUsed res). valid_utf8 p"
    and "valid_utf8 (to_upper base)" and "valid_utf8 (to_upper quote)"
    and "singleRate E dbtext clk base quote s = (r, s')" and "cache_wf ttl c"
    and "to_upper quote \<noteq> to_upper base" and "clk' 0 \<le> time_add (clk 9) (c_ttl c)"
  shows "rate_round E' cfg' clk' (to_upper base) (to_upper quote) col s' =
    (collect (to_upper quote) (res_Rate res) (res_FreshnessSeconds res) (res_ProvidersUsed res) col, s')"
proof -
  obtain j where run: "single_decode (json_text j) = Some (single_of (clk 8) res)"
    "s' = snd (cacheStore (clk 9) (rate_key (to_upper base) (to_upper quote)) (Some j)
      ((snd (cacheLookup (clk 0) (rate_key (to_upper base) (to_upper quote)) s))\<lparr>sv_db := d\<rparr>))" "sv_db s' = d"
    using single_rate_run [OF assms(1-12)] by blast
  have "s'\<lparr>sv_db := d\<rparr> = s'" using run(3) by (cases s') simp
  then have "cacheLookup (clk' 0) (rate_key (to_upper base) (to_upper quote)) s' = (Some (json_text j), s')"
    using stored_then_hit [OF assms(4,13) run(2) assms(15), of d] by simp
  then show ?thesis using assms(14) run(1) Compute_codes [OF assms(6)]
    by (auto simp: rate_round_def single_of_def slice_elems_def)
qed

section \<open>A table of rates\<close>

lemma rate_round_frame:
  fixes E :: engine and cfg :: agg_config and clk :: clock and base code :: string and c :: collected and s :: server
  defines "s' \<equiv> snd (rate_round E cfg clk base code c s)"
  shows "sv_currencies s' = sv_currencies s" and "sv_cacheTTL s' = sv_cacheTTL s" and "same_tables (sv_db s) (sv_db s')"
    and "srv_ok ttl s \<Longrightarrow> srv_ok ttl s'"
  using Compute_same [of "sv_db s" E cfg "shift 1 clk" base code]
  unfolding s'_def rate_round_def case_prod_beta
  by (auto simp: srv_ok_steps split: option.split sum.split)

lemma rate_round_rates:
  fixes E :: engine and cfg :: agg_config and clk :: clock and base code :: string and c :: collected and s :: server
  assumes "map_wf (co_Rates c)" and "map_wf (co_Providers c)"
  defines "c' \<equiv> fst (rate_round E cfg clk base code c s)"
  shows "map_wf (co_Rates c')" and "map_wf (co_Providers c')"
    and "code' \<noteq> code \<Longrightarrow> map_get (co_Rates c') code' = map_get (co_Rates c) code'"
    and "code = base \<Longrightarrow> map_get (co_Rates c') code = Some (Fin 1)"
proof -
  have p: "map_wf (fold (\<lambda>p. map_set p ()) ps (co_Providers c))" for ps
    using gm.wf_fold [OF assms(2), of "\<lambda>p. p" "\<lambda>_. ()"] by simp
  have f: "co_Rates (collect code v w ps c) = map_set code v (co_Rates c)" "map_wf (co_Providers (collect code v w ps c))" for v w ps
    by (simp_all add: collect_def p)
  show "map_wf (co_Rates c')" "map_wf (co_Providers c')"
    unfolding c'_def rate_round_def case_prod_beta
    by (auto simp: assms(1,2) f gm.wf_put split: option.split sum.split)
  show "code' \<noteq> code \<Longrightarrow> map_get (co_Rates c') code' = map_get (co_Rates c) code'"
    unfolding c'_def rate_round_def case_prod_beta
    by (auto simp: assms(1,2) f gm.get_put split: option.split sum.split)
  show "code = base \<Longrightarrow> map_get (co_Rates c') code = Some (Fin 1)"
    unfolding c'_def rate_round_def by (simp add: gm.get_put assms(1))
qed

lemma rate_rounds_rates:
  fixes E :: engine and cfg :: agg_config and clk :: clock and base :: string and codes :: "string list" and c :: collected and s :: server
  assumes "map_wf (co_Rates c)" and "map_wf (co_Providers c)"
  defines "x \<equiv> rate_rounds E cfg clk base codes c s"
  shows "map_wf (co_Rates (fst x)) \<and> map_wf (co_Providers (fst x))
    \<and> (\<forall>k. k \<notin> set codes \<longrightarrow> map_get (co_Rates (fst x)) k = map_get (co_Rates c) k)
    \<and> (base \<in> set codes \<or> map_get (co_Rates c) base = Some (Fin 1) \<longrightarrow> map_get (co_Rates (fst x)) base = Some (Fin 1))
    \<and> sv_currencies (snd x) = sv_currencies s \<and> same_tables (sv_db s) (sv_db (snd x))"
  using assms(1,2) unfolding x_def
proof (induction codes arbitrary: c s clk)
  case (Cons code codes)
  obtain c1 s1 where r: "rate_round E cfg clk base code c s = (c1, s1)" by fastforce
  note rates = rate_round_rates [OF Cons.prems, where E = E and cfg = cfg and clk = clk and base = base and code = code and s = s,
      unfolded r fst_conv]
  note frame = rate_round_frame(1,3) [where E = E and cfg = cfg and clk = clk and base = base and code = code and s = s and c = c,
      unfolded r snd_conv]
  note IH = Cons.IH [OF rates(1,2), of "shift 10 clk" s1]
  have "map_get (co_Rates c1) base = Some (Fin 1)" if "base = code \<or> map_get (co_Rates c) base = Some (Fin 1)"
    using that rates(3) [of base] rates(4) by (cases "base = code") auto
  with IH rates(3) frame show ?case by (auto simp: r intro: same_tables_trans)
qed simp

lemma order_set: "(\<And>xs :: string list. mset (order xs) = mset xs) \<Longrightarrow> set (order xs) = set xs"
  by (metis mset_eq_setD)

lemma allowedCodes_set:
  assumes "\<And>xs. mset (order xs) = mset xs"
  shows "code \<in> set (allowedCodes order s) \<longleftrightarrow> isAllowed s code"
  using order_set [OF assms] by (auto simp: allowedCodes_def isAllowed_def map_defs map_of_eq_None_iff)

text \<open>
  A table of rates is for allowed currencies only. A base that is not allowed is refused
  and changes nothing; otherwise the answer is the encoding of a table for the base in upper
  case whose currencies are all allowed, in which the base itself has rate 1, with the names of
  the providers sorted and without repetition. This holds whatever the cache contains, even
  entries that cannot be read, and whatever the database fails with; the tables are unchanged.
\<close>

theorem rates_only_for_allowed:
  assumes "\<And>xs. mset (order xs) = mset xs" and "ratesFromBase order E clk base s = (r, s')"
  shows "if \<not> isAllowed s (to_upper base) then rp_status r = 400 \<and> s' = s
    else if sv_agg s = None then rp_status r = 503 \<and> s' = s
    else same_tables (sv_db s) (sv_db s') \<and> (\<exists>resp ps. r = writeJSON 200 [cache_control s] (rates_json resp)
      \<and> ra_Base resp = to_upper base \<and> map_wf (ra_Rates resp) \<and> (\<forall>k \<in> dom (map_get (ra_Rates resp)). isAllowed s k)
      \<and> map_get (ra_Rates resp) (to_upper base) = Some (Fin 1)
      \<and> ra_ProvidersUsed resp = Some ps \<and> sorted ps \<and> distinct ps)"
proof (cases "isAllowed s (to_upper base) \<and> sv_agg s \<noteq> None")
  case True
  then obtain cfg where cfg: "sv_agg s = Some cfg" by blast
  let ?codes = "allowedCodes order s"
  obtain c s1 where x: "rate_rounds E cfg clk (to_upper base) ?codes nothing_collected s = (c, s1)" by fastforce
  have start: "map_wf (co_Rates nothing_collected)" "map_wf (co_Providers nothing_collected)"
    "map_get (co_Rates nothing_collected) = Map.empty"
    by (simp_all add: nothing_collected_def gm.wf_empty gm.get_empty)
  note f = rate_rounds_rates [OF start(1,2), where E = E and cfg = cfg and clk = clk and base = "to_upper base"
      and codes = ?codes and s = s, unfolded x fst_conv snd_conv start(3)]
  let ?resp = "\<lparr>ra_Base = to_upper base, ra_AsOf = fmt_rfc3339 (clk (10 * length ?codes)), ra_FreshnessSeconds = co_Freshness c,
     ra_ProvidersUsed = Some (sortedKeys (co_Providers c)), ra_Rates = co_Rates c\<rparr>"
  have r: "r = writeJSON 200 [cache_control s] (rates_json ?resp)" "s' = s1"
    using assms(2) True by (auto simp: ratesFromBase_def cfg x Let_def)
  have "\<forall>k \<in> dom (map_get (co_Rates c)). isAllowed s k"
    using f by (auto simp: allowedCodes_set [OF assms(1), symmetric])
  moreover have "map_get (co_Rates c) (to_upper base) = Some (Fin 1)"
    using f True by (auto simp: allowedCodes_set [OF assms(1)])
  moreover have "sorted (sortedKeys (co_Providers c)) \<and> distinct (sortedKeys (co_Providers c))"
    using f exchange_sorts_keys [of "co_Providers c"] by (simp add: map_wf_def)
  ultimately have "\<exists>resp ps. r = writeJSON 200 [cache_control s] (rates_json resp)
      \<and> ra_Base resp = to_upper base \<and> map_wf (ra_Rates resp) \<and> (\<forall>k \<in> dom (map_get (ra_Rates resp)). isAllowed s k)
      \<and> map_get (ra_Rates resp) (to_upper base) = Some (Fin 1)
      \<and> ra_ProvidersUsed resp = Some ps \<and> sorted ps \<and> distinct ps"
    using f by (intro exI [of _ ?resp] exI [of _ "sortedKeys (co_Providers c)"]) (simp add: r(1))
  moreover have "same_tables (sv_db s) (sv_db s')" using f by (simp add: r(2))
  ultimately show ?thesis using True cfg by simp
next
  case False
  then show ?thesis using assms(2)
    by (auto simp: ratesFromBase_def Let_def writeError_def writeJSON_def split: if_splits)
qed

text \<open>The entry of one code when the cache does not have it.\<close>

definition table_entry :: "agg_config \<Rightarrow> time \<Rightarrow> db \<Rightarrow> string \<Rightarrow> string \<Rightarrow> f64 option" where
  "table_entry cfg since d base code =
     (if code = base then Some (Fin 1)
      else case rate_spec cfg (stored_rates since d) (to_upper base) (to_upper code) of Inl _ \<Rightarrow> None | Inr v \<Rightarrow> Some v)"

definition db_view :: "engine \<Rightarrow> agg_config \<Rightarrow> clock \<Rightarrow> db \<Rightarrow> bool" where
  "db_view E cfg clk d \<longleftrightarrow> engine_ok E \<and> store_good d \<and> (\<forall>n. fault E n = None) \<and> (\<forall>i. fmt_range (oldest_allowed cfg (clk i)))
     \<and> mono clk"

lemma db_view_shift:
  assumes "db_view E cfg clk d" and "same_tables d d'"
  shows "db_view E cfg (shift n clk) d'"
proof -
  have "mono (shift n clk)" using assms(1) by (simp add: db_view_def monotone_on_def shift_def)
  then show ?thesis using assms store_good_same by (auto simp: db_view_def shift_def)
qed

lemma rate_round_entry:
  assumes "db_view E cfg clk (sv_db s)" and "srv_ok ttl s" and "map_wf (co_Rates c)" and "map_get (co_Rates c) code = None"
    and "server_look (clk 0) (rate_key base code) s = None"
  shows "map_get (co_Rates (fst (rate_round E cfg clk base code c s))) code =
    table_entry cfg (oldest_allowed cfg (clk 1)) (sv_db s) base code"
proof (cases "code = base")
  case False
  define s1 where "s1 = snd (cacheLookup (clk 0) (rate_key base code) s)"
  have "rate_of (fst (Compute E cfg (shift 1 clk) base code (sv_db s))) =
      rate_spec cfg (stored_rates (oldest_allowed cfg (clk 1)) (sv_db s)) (to_upper base) (to_upper code)"
    using Compute_view [of E "sv_db s" cfg "shift 1 clk"] assms(1) by (simp add: db_view_def shift_def)
  then show ?thesis
    using lookup_miss [OF assms(5)] False
    by (auto simp: rate_round_def s1_def [symmetric] table_entry_def collect_def gm.get_put assms(3,4) rate_of_def
        split: prod.splits sum.splits) (simp_all add: s1_def)
next
  case True
  then show ?thesis using rate_round_rates(4) by (simp add: table_entry_def rate_round_def gm.get_put assms(3))
qed

lemma look_after_round:
  assumes "srv_ok ttl s" and "clk 0 \<le> later" and "code' \<noteq> code"
  shows "server_look later (rate_key base code') (snd (rate_round E cfg clk base code c s)) = server_look later (rate_key base code') s"
  unfolding rate_round_def case_prod_beta
  using look_after_lookup [OF assms(1,2)] look_other_store [OF srv_ok_steps(3) [OF srv_ok_steps(1) [OF assms(1)]]] assms(3)
  by (auto split: option.split sum.split)

lemma rate_rounds_entries:
  assumes "db_view E cfg clk (sv_db s)" and "srv_ok ttl s" and "map_wf (co_Rates c)" and "map_wf (co_Providers c)"
    and "distinct codes" and "\<forall>code \<in> set codes. map_get (co_Rates c) code = None"
    and "\<forall>i < length codes. server_look (clk (10 * i)) (rate_key base (codes ! i)) s = None" and "i < length codes"
  shows "map_get (co_Rates (fst (rate_rounds E cfg clk base codes c s))) (codes ! i) =
    table_entry cfg (oldest_allowed cfg (clk (10 * i + 1))) (sv_db s) base (codes ! i)"
  using assms
proof (induction codes arbitrary: c s clk i)
  case (Cons code codes)
  obtain c1 s1 where r: "rate_round E cfg clk base code c s = (c1, s1)" by fastforce
  note rates = rate_round_rates [OF Cons.prems(3,4), where E = E and cfg = cfg and clk = clk and base = base and code = code and s = s,
      unfolded r fst_conv]
  note frame = rate_round_frame [where E = E and cfg = cfg and clk = clk and base = base and code = code and s = s and c = c,
      unfolded r snd_conv]
  note more = rate_rounds_rates [OF rates(1,2), where E = E and cfg = cfg and clk = "shift 10 clk" and base = base and codes = codes and s = s1]
  show ?case
  proof (cases i)
    case 0
    have "map_get (co_Rates c1) code = table_entry cfg (oldest_allowed cfg (clk 1)) (sv_db s) base code"
      using rate_round_entry [OF Cons.prems(1-3), of code base] Cons.prems(6,7) r by force
    then show ?thesis using more Cons.prems(5) by (simp add: 0 r)
  next
    case (Suc n)
    have "clk 0 \<le> clk m" for m using Cons.prems(1) by (simp add: db_view_def monoD)
    then have look: "server_look (shift 10 clk (10 * m)) (rate_key base (codes ! m)) s1 = None" if "m < length codes" for m
    proof -
      have "codes ! m \<noteq> code" using nth_mem [OF that] Cons.prems(5) by auto
      then show ?thesis
        using that Cons.prems(7) [rule_format, of "Suc m"]
          look_after_round [OF Cons.prems(2), of clk "clk (10 + 10 * m)" "codes ! m" code base E cfg c]
        by (simp add: r shift_def \<open>\<And>m. clk 0 \<le> clk m\<close>)
    qed
    have none: "\<forall>k \<in> set codes. map_get (co_Rates c1) k = None"
    proof
      fix k assume k: "k \<in> set codes"
      then have "k \<noteq> code" using Cons.prems(5) by auto
      then show "map_get (co_Rates c1) k = None" using rates(3) [of k] Cons.prems(6) k by simp
    qed
    have "map_get (co_Rates (fst (rate_rounds E cfg (shift 10 clk) base codes c1 s1))) (codes ! n) =
        table_entry cfg (oldest_allowed cfg (shift 10 clk (10 * n + 1))) (sv_db s1) base (codes ! n)"
      using Cons.prems(5,8) Suc look none
      by (intro Cons.IH [OF db_view_shift [OF Cons.prems(1) frame(3)] frame(4) [OF Cons.prems(2)] rates(1,2)]) auto
    moreover have "stored_rates since (sv_db s1) = stored_rates since (sv_db s)" for since
      by (rule stored_rates_same [OF frame(3)])
    ultimately show ?thesis by (simp add: Suc r table_entry_def shift_def algebra_simps)
  qed
qed simp

text \<open>
  C4: a table of rates contains exactly the rates the specification gives. When the cache holds
  none of the pairs, the table for an allowed base has, for every allowed currency, the rate
  \<open>rate_spec\<close> computes from the stored rates that are young enough when its turn comes, rate 1
  for the base itself, and no entry for a currency without enough readings.
\<close>

theorem rates_from_base_refines_spec:
  assumes "\<And>xs. mset (order xs) = mset xs" and "ratesFromBase order E clk base s = (r, s')"
    and "isAllowed s (to_upper base)" and "sv_agg s = Some cfg" and "map_wf (sv_currencies s)"
    and "engine_ok E" and "db_ok (sv_db s)" and "stamped (sv_db s)" and "\<forall>n. fault E n = None"
    and "\<forall>i. fmt_range (oldest_allowed cfg (clk i))" and "mono clk"
    and "\<forall>c. sv_cache s = Some c \<longrightarrow> cache_wf ttl c"
    and "\<forall>now k. isAllowed s k \<longrightarrow> fst (cacheLookup now (rate_key (to_upper base) k) s) = None"
  shows "\<exists>resp. r = writeJSON 200 [cache_control s] (rates_json resp) \<and> (\<forall>i < length (allowedCodes order s).
    map_get (ra_Rates resp) (allowedCodes order s ! i) =
      table_entry cfg (oldest_allowed cfg (clk (10 * i + 1))) (sv_db s) (to_upper base) (allowedCodes order s ! i))"
proof -
  let ?codes = "allowedCodes order s"
  obtain c s1 where x: "rate_rounds E cfg clk (to_upper base) ?codes nothing_collected s = (c, s1)" by fastforce
  have view: "db_view E cfg clk (sv_db s)" using assms(6-11) by (simp add: db_view_def store_good_def)
  have ok: "srv_ok ttl s" using assms(12) by (simp add: srv_ok_def)
  have start: "map_wf (co_Rates nothing_collected)" "map_wf (co_Providers nothing_collected)"
    "\<forall>code \<in> set ?codes. map_get (co_Rates nothing_collected) code = None"
    by (simp_all add: nothing_collected_def gm.wf_empty gm.get_empty)
  have dist: "distinct ?codes"
  proof (cases "map_len (sv_currencies s) = 0")
    case False
    then have "mset ?codes = mset (map fst (sv_currencies s))" using assms(1) by (simp add: allowedCodes_def)
    then show ?thesis using assms(5) mset_eq_imp_distinct_iff unfolding map_wf_def by blast
  qed (simp add: allowedCodes_def)
  have miss: "\<forall>i < length ?codes. server_look (clk (10 * i)) (rate_key (to_upper base) (?codes ! i)) s = None"
    using assms(13) by (auto simp: server_look_def allowedCodes_set [OF assms(1), symmetric])
  note entries = rate_rounds_entries [OF view ok start(1,2) dist start(3) miss, unfolded x fst_conv]
  show ?thesis
    using assms(2,3) entries by (auto simp: ratesFromBase_def assms(4) x Let_def)
qed

definition sample_server :: "cache option \<Rightarrow> server" where
  "sample_server c = NewServer sample_db \<lparr>op_Aggregator = Some (sample_agg 2), op_Store = Some sample_db, op_Cache = c,
     op_Currencies = [(''USD'', ()), (''EUR'', ())], op_CacheTTL = 0, op_Metrics = None, op_MaxAge = 3600 * second\<rparr>"

lemma sample_server_simps [simp]:
  "sv_agg (sample_server c) = Some (sample_agg 2)" "sv_db (sample_server c) = sample_db" "sv_cache (sample_server c) = c"
  "sv_currencies (sample_server c) = [(''USD'', ()), (''EUR'', ())]" "sv_store (sample_server c)"
  "sv_maxAge (sample_server c) = 3600 * second"
  by (simp_all add: sample_server_def NewServer_def)

lemma sample_allowed [simp]: "isAllowed (sample_server c) ''USD''" "isAllowed (sample_server c) ''EUR''"
  by (simp_all add: isAllowed_def map_get_def)

lemma upper_usd [simp]: "to_upper ''usd'' = ''USD''"
  by code_simp

theorem rates_only_for_allowed_witness:
  "rp_status (fst (ratesFromBase rev plain_engine (\<lambda>_. 0) ''EUR'' (sample_server None))) = 200
   \<and> rp_status (fst (ratesFromBase rev plain_engine (\<lambda>_. 0) ''JPY'' (sample_server None))) = 400"
proof -
  have "to_upper ''JPY'' = ''JPY''" by code_simp
  moreover have "\<not> isAllowed (sample_server None) ''JPY''" by (simp add: isAllowed_def map_get_def)
  ultimately show ?thesis
    using rates_only_for_allowed [of rev plain_engine "\<lambda>_. 0" "''EUR''" "sample_server None",
        OF _ surjective_pairing]
      rates_only_for_allowed [of rev plain_engine "\<lambda>_. 0" "''JPY''" "sample_server None",
        OF _ surjective_pairing]
    by (auto simp: writeJSON_def)
qed

theorem rates_from_base_refines_spec_witness:
  "\<exists>resp. fst (ratesFromBase (\<lambda>xs. xs) plain_engine (\<lambda>_. 3612 * ns_per_sec) ''usd'' (sample_server None))
       = writeJSON 200 [cache_control (sample_server None)] (rates_json resp)
     \<and> map_get (ra_Rates resp) ''USD'' = Some (Fin 1) \<and> map_get (ra_Rates resp) ''EUR'' = Some (Fin (11 / 2))"
proof -
  let ?s = "sample_server None"
  have codes: "allowedCodes (\<lambda>xs. xs) ?s = [''USD'', ''EUR'']" by (simp add: allowedCodes_def map_len_def)
  have "fmt_range (oldest_allowed (sample_agg 2) (3612 * ns_per_sec))" by (simp add: sample_oldest)
  then obtain resp where resp:
    "fst (ratesFromBase (\<lambda>xs. xs) plain_engine (\<lambda>_. 3612 * ns_per_sec) ''usd'' ?s) = writeJSON 200 [cache_control ?s] (rates_json resp)"
    "\<forall>i < 2. map_get (ra_Rates resp) ([''USD'', ''EUR''] ! i) =
      table_entry (sample_agg 2) (oldest_allowed (sample_agg 2) (3612 * ns_per_sec)) sample_db ''USD'' ([''USD'', ''EUR''] ! i)"
    using rates_from_base_refines_spec [of "\<lambda>xs. xs" plain_engine "\<lambda>_. 3612 * ns_per_sec" "''usd''" ?s, OF _ surjective_pairing,
        where cfg = "sample_agg 2" and ttl = 0, unfolded codes]
    by (auto simp: map_wf_def sample_db_ok sample_db_stamped cacheLookup_def monotone_on_def)
  have "table_entry (sample_agg 2) (12 * ns_per_sec) sample_db ''USD'' ''EUR'' = Some (Fin (11 / 2))"
    by (simp add: table_entry_def rate_spec_def side_spec_def sample_stored sample_rate)
  then show ?thesis
    using resp(1) resp(2) [rule_format, of 0] resp(2) [rule_format, of 1]
    by (auto simp: sample_oldest table_entry_def)
qed

section \<open>Readiness\<close>

text \<open>
  C15: the service is ready exactly while its data is fresh. \<open>readyz\<close> answers 200 if and only if
  there is a store and either no maximum age is set, or the newest stored reading can be read
  and is no older than the maximum age; in every other case, also when the database fails, it
  answers 503. It never changes the tables.
\<close>

theorem readyz_iff_fresh:
  assumes "stamped (sv_db s)"
  shows "rp_status (fst (readyz E clk s)) =
      (if sv_store s \<and> (sint (sv_maxAge s) \<le> 0 \<or> fault E (stmts (sv_db s)) = None \<and> readings (sv_db s) \<noteq> []
          \<and> sint (time_sub (clk 0) (Max (row_time ` set (readings (sv_db s))))) \<le> sint (sv_maxAge s))
       then 200 else 503)
    \<and> same_tables (sv_db s) (sv_db (snd (readyz E clk s)))"
proof -
  have t: "same_tables (sv_db s) (snd (LatestReadingAt E (sv_db s)))"
    by (auto simp: LatestReadingAt_def go_simps split: stmt_split list.split option.split)
  have f: "\<exists>e. fst (LatestReadingAt E (sv_db s)) = Inl e" if "fault E (stmts (sv_db s)) \<noteq> None"
    using that by (auto simp: LatestReadingAt_def go_simps)
  note n = latest_reading_at_newest [OF assms, of E]
  show ?thesis
    using t f n unfolding readyz_def
    by (cases "LatestReadingAt E (sv_db s)"; cases "fault E (stmts (sv_db s))")
      (auto simp: writeError_def writeJSON_def split: sum.split option.split)
qed

theorem readyz_iff_fresh_witness:
  "rp_status (fst (readyz plain_engine (\<lambda>_. 3620 * ns_per_sec) (sample_server None))) = 200
   \<and> rp_status (fst (readyz plain_engine (\<lambda>_. 3621 * ns_per_sec) (sample_server None))) = 503"
proof -
  have "stamped (sv_db (sample_server None))" by (simp add: sample_db_stamped)
  note r = readyz_iff_fresh [OF this]
  show ?thesis using r [of plain_engine "\<lambda>_. 3620 * ns_per_sec"] r [of plain_engine "\<lambda>_. 3621 * ns_per_sec"]
    by (simp add: max_def time_sub_def ns_per_sec_def)
qed

section \<open>Failing answers\<close>

text \<open>The body of an empty history.\<close>

definition empty_history :: "string \<Rightarrow> string \<Rightarrow> time \<Rightarrow> time \<Rightarrow> duration \<Rightarrow> json" where
  "empty_history from to start finish step = JObj
     [(''from'', JStr from), (''to'', JStr to), (''start'', JStr (fmt_rfc3339 start)), (''end'', JStr (fmt_rfc3339 finish)),
      (''step'', JStr (duration_String step)), (''points'', JArr [])]"

text \<open>
  C40: a failed query of the history is served as an empty history, and kept. When the database
  fails while the history of a currency against the base is read, the answer is a 200 with an
  empty list of points; until the time to live has passed, every request for the same window
  gets that answer again, even once the database works and has readings.
\<close>

theorem failed_history_is_cached:
  assumes "sv_agg s = Some cfg" and "isAllowed s (to_upper base)" and "isAllowed s (to_upper quote)"
    and "to_upper base = Base cfg" and "to_upper quote \<noteq> Base cfg"
    and "history_window (clk 0) q = Inr (start, finish, step)"
    and "sv_cache s = Some c" and "cache_wf ttl c"
    and "cache_look c (clk 1) (history_key (to_upper base) (to_upper quote) start finish step) = None"
    and "fault E (stmts (sv_db s)) \<noteq> None"
    and "historyHandler E dbtext clk base quote q s = (r, s')"
  shows "rp_status r = 200 \<and> rp_body r = json_text (empty_history (to_upper base) (to_upper quote) start finish step)
    \<and> (\<forall>E' dbtext' clk' d'. history_window (clk' 0) q = Inr (start, finish, step) \<longrightarrow> clk' 1 \<le> time_add (clk 2) (c_ttl c) \<longrightarrow>
         historyHandler E' dbtext' clk' base quote q (s'\<lparr>sv_db := d'\<rparr>) = (r, s'\<lparr>sv_db := d'\<rparr>))"
proof -
  let ?k = "history_key (to_upper base) (to_upper quote) start finish step"
  let ?j = "empty_history (to_upper base) (to_upper quote) start finish step"
  define s1 where "s1 = snd (cacheLookup (clk 1) ?k s)"
  have miss: "server_look (clk 1) ?k s = None" using assms(7,9) by (simp add: server_look_cases)
  have j: "history_json \<lparr>hr_From = to_upper base, hr_To = to_upper quote, hr_Start = fmt_rfc3339 start,
      hr_End = fmt_rfc3339 finish, hr_Step = duration_String step, hr_Points = []\<rparr> = Some ?j"
    by (simp add: history_json_def json_obj_def json_list_def empty_history_def)
  have up: "to_upper (Base cfg) = Base cfg" using assms(4) to_upper_idem by metis
  have "\<exists>d. historySide E (to_upper quote) start finish step (sv_db s) = ([], d)"
    using assms(10) by (auto simp: historySide_def History_def go_simps)
  then have "\<exists>d. AggHistory E cfg (to_upper base) (to_upper quote) start finish step (sv_db s1) = (Inr [], d)"
    using assms(4,5) up by (auto simp: AggHistory_def Let_def s1_def)
  then obtain d where d: "AggHistory E cfg (to_upper base) (to_upper quote) start finish step (sv_db s1) = (Inr [], d)" by blast
  have run: "r = writeBytes [cache_control s] (json_text ?j)" "s' = snd (cacheStore (clk 2) ?k (Some ?j) (s1\<lparr>sv_db := d\<rparr>))"
    using assms(11) assms(1-3,6) lookup_miss [OF miss] d
    by (auto simp: historyHandler_def Let_def j s1_def [symmetric] cacheStore_def simp del: One_nat_def split: prod.splits)
  have frame: "sv_agg s' = sv_agg s" "sv_currencies s' = sv_currencies s" "sv_cacheTTL s' = sv_cacheTTL s"
    by (simp_all add: run(2) s1_def)
  have "historyHandler E' dbtext' clk' base quote q (s'\<lparr>sv_db := d'\<rparr>) = (r, s'\<lparr>sv_db := d'\<rparr>)"
    if "history_window (clk' 0) q = Inr (start, finish, step)" "clk' 1 \<le> time_add (clk 2) (c_ttl c)" for E' dbtext' clk' d'
    using stored_then_hit [OF assms(7,8) run(2) [unfolded s1_def] that(2), of d'] assms(1-3) that(1) frame
    by (simp add: historyHandler_def Let_def isAllowed_def cache_control_def run(1))
  then show ?thesis by (simp add: run(1) writeBytes_def)
qed

text \<open>
  A rate that is not finite gives an empty answer. If the computed rate overflows, for
  instance the inverse of a very small stored rate, the request is answered with status 200 and
  an empty body, and nothing is stored in the cache.
\<close>

theorem infinite_rate_is_empty_answer:
  assumes "isAllowed s (to_upper base)" and "isAllowed s (to_upper quote)" and "sv_agg s = Some cfg"
    and "fst (cacheLookup (clk 0) (rate_key (to_upper base) (to_upper quote)) s) = None"
    and "Compute E cfg (shift 1 clk) base quote (sv_db s) = (Inr res, d)" and "\<not> ffinite (res_Rate res)"
  shows "fst (singleRate E dbtext clk base quote s) = writeBytes [cache_control s] []
    \<and> sv_cache (snd (singleRate E dbtext clk base quote s)) =
      sv_cache (snd (cacheLookup (clk 0) (rate_key (to_upper base) (to_upper quote)) s))"
proof -
  have comp: "Compute E cfg (shift 1 clk) (to_upper base) (to_upper quote) (sv_db s) = (Inr res, d)"
    using assms(5) by (simp add: Compute_def)
  have "json_float (res_Rate res) = None" using assms(6) by (simp add: json_float_fails)
  then have j: "single_json (single_of (clk 8) res) = None"
    by (simp add: single_json_def json_obj_def single_of_def split: option.split)
  show ?thesis
  proof (cases "cacheLookup (clk 0) (rate_key (to_upper base) (to_upper quote)) s")
    case (Pair v s1)
    moreover have "sv_db s1 = sv_db s" using arg_cong [OF Pair, of "sv_db \<circ> snd"] by simp
    ultimately show ?thesis using assms(1-4) comp by (simp add: singleRate_def Let_def j cacheStore_def)
  qed
qed

definition no_params :: "string \<Rightarrow> string" where
  "no_params = (\<lambda>_. [])"

lemma no_params_window: "history_window now no_params = Inr (time_add now (- 24 * hour), now, hour)"
  by (simp add: history_window_def param_def no_params_def)

theorem failed_history_is_cached_witness:
  "\<exists>r s'. historyHandler (plain_engine\<lparr>fault := \<lambda>_. Some (DriverError [])\<rparr>) (\<lambda>_. []) (\<lambda>_. 0) ''usd'' ''eur'' no_params
         (sample_server (Some (NewCache 0))) = (r, s')
     \<and> rp_status r = 200
     \<and> historyHandler plain_engine (\<lambda>_. []) (\<lambda>_. 0) ''usd'' ''eur'' no_params (s'\<lparr>sv_db := sample_db\<rparr>) = (r, s'\<lparr>sv_db := sample_db\<rparr>)"
proof -
  let ?E = "plain_engine\<lparr>fault := \<lambda>_. Some (DriverError [])\<rparr>" and ?s = "sample_server (Some (NewCache 0))"
  obtain r s' where run: "historyHandler ?E (\<lambda>_. []) (\<lambda>_. 0) ''usd'' ''eur'' no_params ?s = (r, s')" by fastforce
  have ttl: "0 \<le> time_add 0 (c_ttl (NewCache 0))" by (simp add: time_add_def NewCache_ttl)
  have f: "fault ?E (stmts (sv_db ?s)) \<noteq> None" "''EUR'' \<noteq> ''USD''" by simp_all
  from failed_history_is_cached [OF _ _ _ _ _ _ _ rc.wf_new _ f(1) run, of "sample_agg 2", where ttl = 0, unfolded no_params_window] ttl
  show ?thesis using run by (auto simp: rc.look_new no_params_window)
qed

lemma used_names:
  assumes "computeDirect E cfg clk q since d = (Inr r, d')"
  shows "set (res_ProvidersUsed r) \<subseteq> pr_name ` set (providers d)"
proof -
  obtain rs ids ps where r: "st.reads E q since d rs ids ps d'" "r = direct_result cfg clk q rs ids ps"
    using computeDirect_reads [OF assms] by metis
  have listed: "ListProviders E (snd (LatestReadingsPerProvider E q since d)) = (Inr ps, d')"
    using r(1) by (simp add: st.reads_def)
  have "providers (snd (LatestReadingsPerProvider E q since d)) = providers d"
    using st.same_latest same_tablesD(1) by blast
  then have ps: "p_Name ` set ps = pr_name ` set (providers d)"
    using ListProviders_set [OF listed] by (simp add: image_image row_provider_def)
  have "map_get (name_by_id ps) i = Some n \<Longrightarrow> n \<in> p_Name ` set ps" for i n
    unfolding name_by_id_def using gm.get_fold_Some [OF gm.wf_empty, of p_ID p_Name ps i n] by (auto simp: gm.get_empty)
  then have "set (providers_used (name_by_id ps) vs ids kept) \<subseteq> p_Name ` set ps" for vs kept
    using providers_used_facts [of "name_by_id ps" vs ids kept] by blast
  then show ?thesis by (simp add: r(2) direct_result_def Let_def ps)
qed

lemma sample_compute:
  obtains res d where
    "Compute plain_engine (sample_agg 2) (shift 1 (\<lambda>_. 3612 * ns_per_sec)) ''usd'' ''eur'' (sv_db (sample_server c)) = (Inr res, d)"
    "res_Rate res = Fin (11 / 2)" "ffinite (res_Rate res)" "wff (res_Rate res)" "\<forall>p \<in> set (res_ProvidersUsed res). valid_utf8 p"
proof -
  let ?clk = "\<lambda>_ :: nat. 3612 * ns_per_sec"
  let ?run = "Compute plain_engine (sample_agg 2) (shift 1 ?clk) ''usd'' ''eur'' sample_db"
  have "fmt_range (oldest_allowed (sample_agg 2) (3612 * ns_per_sec))" by (simp add: sample_oldest)
  then have "rate_of (fst ?run) = Inr (Fin (11 / 2))"
    using Compute_view [of plain_engine sample_db "sample_agg 2" "shift 1 ?clk" "''usd''" "''eur''"]
    by (simp add: shift_def store_good_def sample_db_ok sample_db_stamped sample_oldest rate_spec_def side_spec_def sample_stored sample_rate)
  then obtain res d where comp: "?run = (Inr res, d)" "res_Rate res = Fin (11 / 2)"
    by (cases ?run; cases "fst ?run") auto
  have "rndq (11 / 2) = 11 / 2" by (rule rndq_short [of _ 11 "- 1"]) (simp_all add: power_int_minus)
  moreover have "\<bar>11 / 2 :: rat\<bar> < f64_lim" by (simp add: f64_lim_def)
  ultimately have fin: "ffinite (res_Rate res)" "wff (res_Rate res)" by (simp_all add: comp(2) fin_ok_def)
  have direct: "computeDirect plain_engine (sample_agg 2) (shift 1 (shift 1 ?clk)) ''EUR'' (12 * ns_per_sec) sample_db = (Inr res, d)"
    using comp(1) by (simp add: Compute_def Let_def shift_def sample_oldest)
  have "valid_utf8 ''yahoo''" "valid_utf8 ''frankfurter''" by code_simp+
  then have "\<forall>p \<in> set (res_ProvidersUsed res). valid_utf8 p"
    using used_names [OF direct] by (auto simp: sample_provider_def)
  then show thesis using that comp fin by simp
qed

lemma sample_codes: "valid_utf8 ''USD''" "valid_utf8 ''EUR''" "to_upper ''Usd'' = ''USD''" "to_upper ''Eur'' = ''EUR''"
  by code_simp+

lemma sample_minute: "3672 * ns_per_sec \<le> time_add (3612 * ns_per_sec) (c_ttl (NewCache 0))"
  by (simp add: time_add_def NewCache_ttl ns_per_sec_def)

theorem single_rate_answer_witness:
  "\<exists>r s' v. singleRate plain_engine (\<lambda>_. []) (\<lambda>_. 3612 * ns_per_sec) ''usd'' ''eur'' (sample_server (Some (NewCache 0))) = (r, s')
     \<and> single_decode (rp_body r) = Some v \<and> sr_Rate v = Fin (11 / 2)
     \<and> singleRate plain_engine (\<lambda>_. []) (\<lambda>_. 3672 * ns_per_sec) ''Usd'' ''Eur'' (s'\<lparr>sv_db := empty_db\<rparr>) = (r, s'\<lparr>sv_db := empty_db\<rparr>)"
proof -
  let ?s = "sample_server (Some (NewCache 0))" and ?clk = "\<lambda>_ :: nat. 3612 * ns_per_sec"
  obtain res d where comp: "Compute plain_engine (sample_agg 2) (shift 1 ?clk) ''usd'' ''eur'' (sv_db ?s) = (Inr res, d)"
    "res_Rate res = Fin (11 / 2)" "ffinite (res_Rate res)" "wff (res_Rate res)" "\<forall>p \<in> set (res_ProvidersUsed res). valid_utf8 p"
    by (rule sample_compute)
  obtain r s' where run: "singleRate plain_engine (\<lambda>_. []) ?clk ''usd'' ''eur'' ?s = (r, s')" by fastforce
  note t = single_rate_answer [OF _ _ _ _ _ comp(1,3-5) _ _ run rc.wf_new, where ttl = 0]
  show ?thesis using t sample_minute run sample_codes comp(2) by (auto simp: rc.look_new single_of_def)
qed

theorem cached_rate_enters_table_witness:
  "\<exists>s' ps fr. snd (singleRate plain_engine (\<lambda>_. []) (\<lambda>_. 3612 * ns_per_sec) ''usd'' ''eur'' (sample_server (Some (NewCache 0)))) = s'
     \<and> rate_round plain_engine (sample_agg 3) (\<lambda>_. 3672 * ns_per_sec) ''USD'' ''EUR'' nothing_collected s' =
       (collect ''EUR'' (Fin (11 / 2)) fr ps nothing_collected, s')"
proof -
  let ?s = "sample_server (Some (NewCache 0))" and ?clk = "\<lambda>_ :: nat. 3612 * ns_per_sec"
  obtain res d where comp: "Compute plain_engine (sample_agg 2) (shift 1 ?clk) ''usd'' ''eur'' (sv_db ?s) = (Inr res, d)"
    "res_Rate res = Fin (11 / 2)" "ffinite (res_Rate res)" "wff (res_Rate res)" "\<forall>p \<in> set (res_ProvidersUsed res). valid_utf8 p"
    by (rule sample_compute)
  obtain r s' where run: "singleRate plain_engine (\<lambda>_. []) ?clk ''usd'' ''eur'' ?s = (r, s')" by fastforce
  note t = cached_rate_enters_table [OF _ _ _ _ _ comp(1,3-5) _ _ run rc.wf_new, where ttl = 0
      and E' = plain_engine and cfg' = "sample_agg 3" and clk' = "\<lambda>_. 3672 * ns_per_sec"]
  show ?thesis using t sample_minute run sample_codes comp(2) by (auto simp: rc.look_new)
qed

definition tiny :: rat where
  "tiny = 2 powi (- 1074)"

lemma tiny_pos: "0 < tiny"
  unfolding tiny_def by (rule powi2_pos)

definition tiny_db :: db where
  "tiny_db = sample_db\<lparr>readings := [sample_row 1 1 (tiny) 15]\<rparr>"

theorem infinite_rate_is_empty_answer_witness:
  "rp_body (fst (singleRate plain_engine (\<lambda>_. []) (\<lambda>_. 3612 * ns_per_sec) ''eur'' ''usd''
     ((sample_server None)\<lparr>sv_agg := Some (sample_agg 1), sv_db := tiny_db\<rparr>))) = []"
proof -
  let ?s = "(sample_server None)\<lparr>sv_agg := Some (sample_agg 1), sv_db := tiny_db\<rparr>" and ?clk = "\<lambda>_ :: nat. 3612 * ns_per_sec"
  have good: "store_good tiny_db"
    using sample_db_ok sample_row_stamped [of 15 1 1 "tiny"]
    by (simp add: store_good_def tiny_db_def stamped_def db_ok_defs sample_provider_def sample_db_def)
  have stored: "stored_rates (12 * ns_per_sec) tiny_db ''EUR'' = [Fin (tiny)]"
    by (simp add: stored_rates_def rate_rows_def newest_row_def tiny_db_def)
  have "FilterOutliers [Fin (tiny)] tol = [Fin (tiny)]" for tol by (rule FilterOutliers_id) simp
  then have spec: "side_spec (sample_agg 1) (stored_rates (12 * ns_per_sec) tiny_db ''EUR'') = Inr (Fin (tiny))"
    by (simp add: side_spec_def stored Median_def)
  have inf: "fdiv (Fin 1) (Fin (tiny)) = PInf"
  proof -
    have "1 / tiny = (2 powi 1074 :: rat)" by (simp only: tiny_def power_int_minus divide_inverse mult_1 inverse_inverse_eq)
    moreover have "rndq (2 powi 1074) = 2 powi 1074" by (rule rndq_short [of _ 1 1074]) simp_all
    moreover have "f64_lim \<le> 2 powi 1074" unfolding f64_lim_def by (rule powi2_mono) simp
    moreover have "(0 :: rat) < 2 powi 1074" "0 < tiny" by (rule powi2_pos, rule tiny_pos)
    ultimately show ?thesis by (simp add: fdiv_def mkf_def Let_def fsign_def del: powi2_pos)
  qed
  have "fmt_range (oldest_allowed (sample_agg 1) (3612 * ns_per_sec))" by (simp add: sample_oldest)
  then have "rate_of (fst (Compute plain_engine (sample_agg 1) (shift 1 ?clk) ''eur'' ''usd'' tiny_db)) = Inr PInf"
    using Compute_view [of plain_engine tiny_db "sample_agg 1" "shift 1 ?clk" "''eur''" "''usd''"] good
    by (simp add: shift_def sample_oldest rate_spec_def spec inf feq_def tiny_pos [THEN less_imp_neq, symmetric])
  then obtain res d where comp: "Compute plain_engine (sample_agg 1) (shift 1 ?clk) ''eur'' ''usd'' (sv_db ?s) = (Inr res, d)"
      "res_Rate res = PInf"
    by (cases "Compute plain_engine (sample_agg 1) (shift 1 ?clk) ''eur'' ''usd'' tiny_db";
        cases "fst (Compute plain_engine (sample_agg 1) (shift 1 ?clk) ''eur'' ''usd'' tiny_db)") auto
  have "isAllowed ?s (to_upper ''eur'')" "isAllowed ?s (to_upper ''usd'')" "sv_agg ?s = Some (sample_agg 1)"
    "fst (cacheLookup (?clk 0) (rate_key (to_upper ''eur'') (to_upper ''usd'')) ?s) = None" "\<not> ffinite (res_Rate res)"
    by (simp_all add: isAllowed_def map_get_def cacheLookup_def comp(2))
  from infinite_rate_is_empty_answer [OF this(1-4) comp(1) this(5), of "\<lambda>_. []"] show ?thesis by (simp add: writeBytes_def)
qed

section \<open>Every answer\<close>

lemma write_simps:
  "rp_status (writeJSON st hs b) = st" "json_type \<in> set (rp_headers (writeJSON st hs b))"
  "rp_status (writeBytes hs t) = 200" "json_type \<in> set (rp_headers (writeBytes hs t))"
  "rp_status (writeError st msg) = st" "json_type \<in> set (rp_headers (writeError st msg))"
  by (simp_all add: writeJSON_def writeBytes_def writeError_def)

text \<open>Why a rate cannot be computed for want of providers: on its only side, or on one of two.\<close>

fun lacks_providers :: "agg_error \<Rightarrow> bool" where
  "lacks_providers (ErrInsufficientProviders _ _) = True"
| "lacks_providers (FromSide (ErrInsufficientProviders _ _)) = True"
| "lacks_providers (ToSide (ErrInsufficientProviders _ _)) = True"
| "lacks_providers _ = False"

lemma Compute_error:
  assumes "Compute E cfg clk from to d = (Inl e, d')"
  shows "is_insufficient e = lacks_providers e"
proof -
  have D: "(\<exists>x. e = ReadReadings x) \<or> (\<exists>x. e = ReadProviders x) \<or> (\<exists>n k. e = ErrInsufficientProviders n k)"
    if "computeDirect E cfg clk q since d = (Inl e, d')" for clk q since d e d'
    using that by (auto simp: computeDirect_def split: prod.splits sum.splits if_splits)
  have X: "is_insufficient e = lacks_providers e" if "computeCross E cfg clk f t since d = (Inl e, d')" for clk f t since d e d'
    using that by (auto simp: computeCross_def split: prod.splits sum.splits if_splits dest!: D)
  have I: "e = RateZero" if "invertTo r to = Inl e" for r to using that by (simp add: invertTo_def Let_def split: if_splits)
  show ?thesis using assms
    by (auto simp: Compute_def Let_def split: if_splits prod.splits sum.splits dest!: D X I)
qed

text \<open>What is wrong with the parameters of a history request: the first of these that applies.\<close>

definition window_error :: "(string \<Rightarrow> string) \<Rightarrow> string option" where
  "window_error q =
     (if q ''end'' \<noteq> [] \<and> parse_rfc3339 (q ''end'') = None then Some ''end must be RFC3339''
      else if q ''start'' \<noteq> [] \<and> parse_rfc3339 (q ''start'') = None then Some ''start must be RFC3339''
      else if q ''step'' = [] then None
      else case ParseDuration (q ''step'') of
             None \<Rightarrow> Some ''step must be a Go duration (e.g. 1m, 1h, 24h)''
           | Some step \<Rightarrow> if sint step < 60 * 10 ^ 9 \<or> 24 * 3600 * 10 ^ 9 < sint step
                          then Some ''step must be between 1m and 24h'' else None)"

lemma history_window_error:
  "case window_error q of Some msg \<Rightarrow> history_window now q = Inl msg | None \<Rightarrow> \<exists>w. history_window now q = Inr w"
  by (auto simp: window_error_def history_window_def param_def split: option.split)

text \<open>
  The requests that fail, with status and message, on every route but that of the metrics. A
  request that is answered from the cache does not fail.
\<close>

definition readyz_failure :: "engine \<Rightarrow> clock \<Rightarrow> server \<Rightarrow> (int \<times> string) option" where
  "readyz_failure E clk s =
     (let newest = Max (row_time ` set (readings (sv_db s))) in
      if \<not> sv_store s then Some (503, ''store not configured'')
      else if sint (sv_maxAge s) \<le> 0 then None
      else if fault E (stmts (sv_db s)) \<noteq> None then Some (503, ''store read failed'')
      else if readings (sv_db s) = [] then Some (503, ''no readings yet'')
      else if sint (sv_maxAge s) < sint (time_sub (clk 0) newest)
      then Some (503, ''newest reading is '' @ duration_String (duration_Round (time_sub (clk 1) newest) second)
             @ '' old (limit '' @ duration_String (sv_maxAge s) @ '')'')
      else None)"

definition no_aggregator :: "int \<times> string" where
  "no_aggregator = (503, ''aggregator not configured'')"

definition rate_failure :: "world \<Rightarrow> clock \<Rightarrow> string \<Rightarrow> string \<Rightarrow> server \<Rightarrow> (int \<times> string) option" where
  "rate_failure w clk base quote s =
     (if \<not> isAllowed s (to_upper base) \<or> \<not> isAllowed s (to_upper quote) then Some (400, ''currency not allowed'')
      else case sv_agg s of None \<Rightarrow> Some no_aggregator | Some cfg \<Rightarrow>
        if server_look (clk 0) (rate_key (to_upper base) (to_upper quote)) s \<noteq> None then None
        else case fst (Compute (w_engine w) cfg (shift 1 clk) base quote (sv_db s)) of
               Inr _ \<Rightarrow> None
             | Inl e \<Rightarrow> Some (if lacks_providers e then 503 else 500, agg_error_text (w_dbtext w) e))"

definition history_failure :: "clock \<Rightarrow> string \<Rightarrow> string \<Rightarrow> (string \<Rightarrow> string) \<Rightarrow> server \<Rightarrow> (int \<times> string) option" where
  "history_failure clk base quote q s =
     (if sv_agg s = None then Some no_aggregator
      else if \<not> isAllowed s (to_upper base) \<or> \<not> isAllowed s (to_upper quote) then Some (400, ''currency not allowed'')
      else case window_error q of
             Some msg \<Rightarrow> Some (400, msg)
           | None \<Rightarrow>
               (case history_window (clk 0) q of
                  Inl _ \<Rightarrow> None
                | Inr (start, finish, step) \<Rightarrow>
                    if to_upper base = to_upper quote
                      \<and> server_look (clk 1) (history_key (to_upper base) (to_upper quote) start finish step) s = None
                    then Some (400, ''from and to must differ'') else None))"

fun failure :: "world \<Rightarrow> clock \<Rightarrow> server \<Rightarrow> route \<Rightarrow> (int \<times> string) option" where
  "failure w clk s Healthz = None"
| "failure w clk s Readyz = readyz_failure (w_engine w) clk s"
| "failure w clk s MetricsText = None"
| "failure w clk s AllRates = (if sv_agg s = None then Some no_aggregator else None)"
| "failure w clk s (RatesFrom base) =
     (if \<not> isAllowed s (to_upper base) then Some (400, ''currency '' @ Quote (to_upper base) @ '' not allowed'')
      else if sv_agg s = None then Some no_aggregator else None)"
| "failure w clk s (SingleRate base quote) = rate_failure w clk base quote s"
| "failure w clk s (RateHistory base quote q) = history_failure clk base quote q s"
| "failure w clk s ListedProviders =
     (if \<not> sv_store s then Some (503, ''store not configured'')
      else case fault (w_engine w) (stmts (sv_db s)) of None \<Rightarrow> None | Some e \<Rightarrow> Some (500, w_dbtext w e))"

text \<open>The document of a failure.\<close>

definition error_answer :: "int \<Rightarrow> string \<Rightarrow> response" where
  "error_answer status msg = \<lparr>rp_status = status, rp_headers = [(''Content-Type'', ''application/json'')],
     rp_body = json_text (JObj [(''error'', JStr msg)]) @ [newline]\<rparr>"

definition answers :: "(int \<times> string) option \<Rightarrow> response \<Rightarrow> bool" where
  "answers x r \<longleftrightarrow> (case x of Some (status, msg) \<Rightarrow> r = error_answer status msg | None \<Rightarrow> rp_status r = 200)"

lemma answers_simps [simp]:
  "answers (Some (status, msg)) (writeError status msg)" "answers None (writeJSON 200 hs b)" "answers None (writeBytes hs t)"
  by (simp_all add: answers_def error_answer_def writeError_def writeJSON_def writeBytes_def json_obj_def json_type_def)

lemma readyz_answers:
  assumes "stamped (sv_db s)"
  shows "answers (readyz_failure E clk s) (fst (readyz E clk s))"
proof (cases "LatestReadingAt E (sv_db s)")
  case (Pair x d)
  show ?thesis
  proof (cases "fault E (stmts (sv_db s))")
    case None
    then have x: "x = Inr (if readings (sv_db s) = [] then None else Some (Max (row_time ` set (readings (sv_db s)))))"
      using latest_reading_at_newest [OF assms, of E] by (simp add: Pair)
    show ?thesis by (simp add: readyz_def readyz_failure_def Let_def Pair None x)
  next
    case (Some e)
    then have "x = Inl e" using Pair by (simp add: LatestReadingAt_def go_simps)
    then show ?thesis by (simp add: readyz_def readyz_failure_def Let_def Pair Some)
  qed
qed

lemma single_answers: "answers (rate_failure w clk base quote s) (fst (singleRate (w_engine w) (w_dbtext w) clk base quote s))"
proof (cases "isAllowed s (to_upper base) \<and> isAllowed s (to_upper quote) \<and> sv_agg s \<noteq> None")
  case True
  then obtain cfg where cfg: "sv_agg s = Some cfg" by blast
  let ?k = "rate_key (to_upper base) (to_upper quote)"
  let ?comp = "Compute (w_engine w) cfg (shift 1 clk) base quote (sv_db s)"
  show ?thesis
  proof (cases "cacheLookup (clk 0) ?k s")
    case (Pair hit s1)
    have hit: "server_look (clk 0) ?k s = hit" by (simp add: server_look_def Pair)
    have "sv_db s1 = sv_db s" using arg_cong [OF Pair, of "sv_db \<circ> snd"] by simp
    then have comp: "Compute (w_engine w) cfg (shift 1 clk) (to_upper base) (to_upper quote) (sv_db s1) = ?comp"
      by (simp add: Compute_def)
    show ?thesis
      using True Compute_error [of "w_engine w" cfg "shift 1 clk" base quote "sv_db s"]
      by (cases hit; cases ?comp; cases "fst ?comp")
        (auto simp: singleRate_def rate_failure_def Let_def cfg Pair hit comp case_prod_beta simp del: One_nat_def)
  qed
next
  case False
  then show ?thesis
    by (cases "sv_agg s") (auto simp: singleRate_def rate_failure_def Let_def no_aggregator_def)
qed

lemma history_answers: "answers (history_failure clk base quote q s) (fst (historyHandler E dbtext clk base quote q s))"
proof (cases "sv_agg s")
  case None
  then show ?thesis by (simp add: historyHandler_def history_failure_def no_aggregator_def)
next
  case (Some cfg)
  show ?thesis
  proof (cases "isAllowed s (to_upper base) \<and> isAllowed s (to_upper quote) \<and> window_error q = None")
    case True
    then obtain start finish step where w: "history_window (clk 0) q = Inr (start, finish, step)"
      using history_window_error [where q = q and now = "clk 0"] by auto
    let ?k = "history_key (to_upper base) (to_upper quote) start finish step"
    show ?thesis
    proof (cases "cacheLookup (clk 1) ?k s")
      case (Pair hit s1)
      have hit: "server_look (clk 1) ?k s = hit" by (simp only: server_look_def Pair fst_conv)
      define same where "same \<longleftrightarrow> to_upper base = to_upper quote"
      have "if same then AggHistory E cfg (to_upper base) (to_upper quote) start finish step d = (Inl SameCodes, d)
          else \<exists>pts d'. AggHistory E cfg (to_upper base) (to_upper quote) start finish step d = (Inr pts, d')" for d
        by (simp add: same_def AggHistory_def Let_def case_prod_beta)
      from this [of "sv_db s1"] show ?thesis
        using True unfolding historyHandler_def history_failure_def Let_def same_def [symmetric]
        by (cases hit; cases same) (auto simp: Some w Pair hit split: prod.split simp del: One_nat_def)
    qed
  next
    case False
    then show ?thesis using history_window_error [where q = q and now = "clk 0"]
      by (auto simp: historyHandler_def history_failure_def Let_def Some split: option.split)
  qed
qed

text \<open>
  C29: which requests fail, and how. On every route but that of the metrics a request fails exactly
  in the cases of \<open>failure\<close>: a currency that is not allowed, parameters of the history that cannot
  be read or two equal codes (400); a missing aggregator or store, a store that is not ready, too
  few providers on either side of a rate (503); a rate or a list that cannot be computed for any
  other reason (500). Its answer is then that status with the JSON document \<open>{"error": msg}\<close> of
  that message, and in every other case the status is 200. In particular a single currency without
  readings does not fail a table, and a history that cannot be read does not fail. The metrics
  fail, with 503 and a plain text, exactly when there is no registry.
\<close>

theorem failures_by_route:
  assumes "stamped (sv_db s)"
  shows "if rt = MetricsText
    then (if sv_metrics s = None
      then fst (handle w clk rt s) = \<lparr>rp_status = 503, rp_headers = [(''Content-Type'', ''text/plain; charset=utf-8''),
          (''X-Content-Type-Options'', ''nosniff'')], rp_body = ''metrics not configured'' @ [newline]\<rparr>
      else rp_status (fst (handle w clk rt s)) = 200)
    else (case failure w clk s rt of
        Some (status, msg) \<Rightarrow> fst (handle w clk rt s) = error_answer status msg
      | None \<Rightarrow> rp_status (fst (handle w clk rt s)) = 200)"
proof -
  have "answers (failure w clk s rt) (fst (handle w clk rt s))" if "rt \<noteq> MetricsText"
  proof (cases rt)
    case ListedProviders
    then show ?thesis
      by (cases "fault (w_engine w) (stmts (sv_db s))")
        (auto simp: handleProviders_def ListProviders_def stmt_def case_prod_beta)
  next
    case AllRates
    then show ?thesis
      by (cases "sv_agg s") (auto simp: allRates_def case_prod_beta Let_def no_aggregator_def split: option.split)
  next
    case (RatesFrom base)
    then show ?thesis
      by (cases "sv_agg s") (auto simp: ratesFromBase_def case_prod_beta Let_def no_aggregator_def)
  qed (use that readyz_answers [OF assms] in \<open>simp_all add: healthz_def single_answers history_answers\<close>)
  then show ?thesis
    by (cases "rt = MetricsText") (auto simp: answers_def metricsHandler_def Let_def split: option.split)
qed

theorem failures_by_route_witness:
  "fst (singleRate plain_engine (\<lambda>_. []) (\<lambda>_. 0) ''eur'' ''gbp'' (sample_server None)) = error_answer 400 ''currency not allowed''
   \<and> fst (handleProviders (plain_engine\<lparr>fault := \<lambda>_. Some (DriverError [])\<rparr>) (\<lambda>_. ''disk'') (\<lambda>_. 0) (sample_server None))
      = error_answer 500 ''disk''"
proof -
  let ?w = "\<lparr>w_engine = plain_engine\<lparr>fault := \<lambda>_. Some (DriverError [])\<rparr>, w_dbtext = \<lambda>_. ''disk'', w_order = \<lambda>xs. xs\<rparr>"
    and ?v = "\<lparr>w_engine = plain_engine, w_dbtext = \<lambda>_. [], w_order = \<lambda>xs. xs\<rparr>"
  have "to_upper ''gbp'' = ''GBP''" by code_simp
  moreover have "\<not> isAllowed (sample_server None) ''GBP''" by (simp add: isAllowed_def map_get_def)
  ultimately show ?thesis
    using failures_by_route [of "sample_server None" "SingleRate ''eur'' ''gbp''" ?v "\<lambda>_. 0"]
      failures_by_route [of "sample_server None" ListedProviders ?w "\<lambda>_. 0"] sample_db_stamped
    by (simp add: rate_failure_def)
qed

end
