(* ===== verification/SchedulerFacts.thy ===== *)
theory SchedulerFacts
  imports Scheduler
begin

text \<open>
  Facts on \<open>internal/scheduler\<close>: the bounds of the polling interval, what a run of a job does to
  the tables and the metrics on every branch, and how far overlapping runs of one job can
  overshoot the daily budget.
\<close>

section \<open>The polling interval\<close>

lemma fmul_bounded:
  assumes "ffinite a" and "ffinite b" and "\<bar>fval a * fval b\<bar> \<le> 2 ^ 53"
  shows "ffinite (fmul a b)" and "fval (fmul a b) = rndq (fval a * fval b)"
proof -
  have ok: "fin_ok (2 ^ 53)" using fin_ok_of_int [of "2 ^ 53"] by simp
  have "fmul a b = mkf (fsign a \<noteq> fsign b) (fval a * fval b)"
    using assms(1,2) by (simp add: fmul_def)
  with mkf_finite [OF assms(3) ok, of "fsign a \<noteq> fsign b"]
  show "ffinite (fmul a b)" "fval (fmul a b) = rndq (fval a * fval b)" by simp_all
qed

lemma fdiv_bounded:
  assumes "ffinite a" and "ffinite b" and "fval b \<noteq> 0" and "\<bar>fval a / fval b\<bar> \<le> 2 ^ 53"
  shows "ffinite (fdiv a b)" and "fval (fdiv a b) = rndq (fval a / fval b)"
proof -
  have ok: "fin_ok (2 ^ 53)" using fin_ok_of_int [of "2 ^ 53"] by simp
  have "fdiv a b = mkf (fsign a \<noteq> fsign b) (fval a / fval b)"
    using assms(1-3) by (simp add: fdiv_def)
  with mkf_finite [OF assms(4) ok, of "fsign a \<noteq> fsign b"]
  show "ffinite (fdiv a b)" "fval (fdiv a b) = rndq (fval a / fval b)" by simp_all
qed

text \<open>Rounding a value that is not tiny adds at most a thousandth of it.\<close>

lemma rndq_close:
  assumes "1 / 2 ^ 100 \<le> x"
  shows "\<bar>rndq x - x\<bar> \<le> x / 2 ^ 53"
proof -
  have pos: "0 < x" using assms by (rule less_le_trans [rotated]) simp
  have "(2 :: rat) powi (- 1022) \<le> 2 powi (- 100)" by (rule powi2_mono) simp
  also have "(2 :: rat) powi (- 100) = 1 / 2 ^ 100" by (simp add: power_int_minus field_simps)
  finally have "2 powi (- 1022) \<le> \<bar>x\<bar>" using assms pos by linarith
  from rndq_relative [OF this] show ?thesis using pos by simp
qed

lemma rndq_le_thousandth: "1 / 2 ^ 100 \<le> x \<Longrightarrow> rndq x \<le> 1001 / 1000 * x"
proof -
  assume x: "1 / 2 ^ 100 \<le> x"
  then have "0 < x" by (rule less_le_trans [rotated]) simp
  then have "x / 2 ^ 53 \<le> x / 1000" by (intro divide_left_mono) simp_all
  then show ?thesis using rndq_close [OF x] by linarith
qed

lemma f64_of_int_bounds:
  assumes "0 < n" and "n < 2 ^ 63"
  shows "ffinite (f64_of_int n)" and "1 \<le> fval (f64_of_int n)"
    and "n \<le> 2 ^ 53 \<Longrightarrow> fval (f64_of_int n) = of_int n" and "fval (f64_of_int n) = rndq (of_int n)"
proof -
  have "rndq (2 ^ 63) = 2 ^ 63" by (rule rndq_short [of _ 1 63]) simp_all
  moreover have "(2 :: rat) ^ 63 < f64_lim"
    using powi2_strict [of 63 1024] by (simp only: f64_lim_def power_int_numeral [symmetric])
  ultimately have ok: "fin_ok (2 ^ 63)" by (simp add: fin_ok_def)
  have "\<bar>of_int n :: rat\<bar> \<le> of_int (2 ^ 63)" using assms by (simp only: of_int_le_iff flip: of_int_abs)
  then have "\<bar>of_int n :: rat\<bar> \<le> 2 ^ 63" by simp
  note m = mkf_finite [OF this ok, of False]
  then show "ffinite (f64_of_int n)" by (simp add: f64_of_int_def)
  have "rndq 1 \<le> rndq (of_int n)" using assms(1) by (intro rndq_mono) simp
  moreover have "rndq 1 = 1" using rndq_of_int [of 1] by simp
  ultimately show "1 \<le> fval (f64_of_int n)" using m by (simp add: f64_of_int_def)
  show "fval (f64_of_int n) = rndq (of_int n)" using m by (simp add: f64_of_int_def)
  show "fval (f64_of_int n) = of_int n" if "n \<le> 2 ^ 53"
    using m rndq_of_int [of n] assms(1) that by (simp add: f64_of_int_def)
qed

definition nine_tenths :: f64 where
  "nine_tenths = f64_const (9 / 10)"

lemma nine_tenths:
  "ffinite nine_tenths" "8 / 10 \<le> fval nine_tenths" "fval nine_tenths \<le> 901 / 1000"
  "\<bar>fval nine_tenths - 9 / 10\<bar> \<le> 1 / 2 ^ 53"
proof -
  have e: "nine_tenths = Fin (8106479329266893 / 9007199254740992)" unfolding nine_tenths_def by code_simp
  show "ffinite nine_tenths" "8 / 10 \<le> fval nine_tenths" "fval nine_tenths \<le> 901 / 1000"
    "\<bar>fval nine_tenths - 9 / 10\<bar> \<le> 1 / 2 ^ 53"
    unfolding e by simp_all
qed

text \<open>The value \<open>seconds\<close> of the code, before it is cut off at one second.\<close>

definition raw_seconds :: "int \<Rightarrow> f64" where
  "raw_seconds n = fmul (fdiv (f64_of_int 86400) (f64_of_int n)) nine_tenths"

lemma raw_seconds:
  assumes "0 < n" and "n < 2 ^ 63"
  shows "ffinite (raw_seconds n)" and "fval (raw_seconds n) \<le> 77930"
    and "n \<le> 86400 \<Longrightarrow> \<bar>fval (raw_seconds n) - 77760 / of_int n\<bar> \<le> 86400 / of_int n / 2 ^ 51"
    and "86400 < n \<Longrightarrow> fval (raw_seconds n) \<le> 1"
proof -
  note a = f64_of_int_bounds [of 86400, simplified] and b = f64_of_int_bounds [OF assms]
  let ?b = "fval (f64_of_int n)" and ?q = "fdiv (f64_of_int 86400) (f64_of_int n)" and ?c = "fval nine_tenths"
  have fa: "fval (f64_of_int 86400) = 86400" using f64_of_int_bounds(3) [of 86400] by simp
  have le: "86400 / ?b \<le> 86400" using b(2) by (simp add: divide_le_eq)
  have ge: "0 < 86400 / ?b" using b(2) by simp
  have "?b \<noteq> 0" using b(2) by linarith
  have ab: "\<bar>fval (f64_of_int 86400) / ?b\<bar> \<le> 2 ^ 53" using le ge by (simp add: fa)
  note q = fdiv_bounded [OF a(1) b(1) \<open>?b \<noteq> 0\<close> ab, unfolded fa]
  have "rndq 86400 = 86400" using rndq_of_int [of 86400] by simp
  then have q86: "fval ?q \<le> 86400" unfolding q(2) using rndq_mono [OF le] by simp
  have q0: "0 \<le> fval ?q" unfolding q(2) using ge by (intro rndq_nonneg) simp
  have "fval ?q * ?c \<le> 86400 * (901 / 1000)" using q86 q0 nine_tenths by (intro mult_mono) auto
  moreover have "0 \<le> fval ?q * ?c" using q0 nine_tenths(2) by (intro mult_nonneg_nonneg) linarith+
  ultimately have qc: "0 \<le> fval ?q * ?c" "fval ?q * ?c \<le> 778464 / 10" by auto
  then have "\<bar>fval ?q * ?c\<bar> \<le> 2 ^ 53" by simp
  note s = fmul_bounded [OF q(1) nine_tenths(1) this]
  show fin: "ffinite (raw_seconds n)" unfolding raw_seconds_def by (rule s)
  have "rndq (fval ?q * ?c) \<le> rndq (778464 / 10)" using qc(2) by (rule rndq_mono)
  also have "\<dots> \<le> 1001 / 1000 * (778464 / 10)" by (rule rndq_le_thousandth) simp
  finally show "fval (raw_seconds n) \<le> 77930" unfolding raw_seconds_def s(2) by simp
  show "\<bar>fval (raw_seconds n) - 77760 / of_int n\<bar> \<le> 86400 / of_int n / 2 ^ 51" if small: "n \<le> 86400"
  proof -
    have fb: "?b = of_int n" using b(3) small by simp
    define a where "a = (86400 :: rat) / of_int n"
    have n: "(0 :: rat) < of_int n" "of_int n \<le> (86400 :: rat)" using assms(1) small by simp_all
    have a1: "1 \<le> a" unfolding a_def using n by simp
    have "\<bar>rndq a - a\<bar> \<le> a / 2 ^ 53" by (rule rndq_close) (use a1 in \<open>rule order_trans [rotated], simp\<close>)
    then have qa: "\<bar>fval ?q - a\<bar> \<le> a / 2 ^ 53" unfolding q(2) fb a_def .
    have q1: "1 \<le> fval ?q" unfolding q(2) fb using rndq_mono [OF a1] rndq_of_int [of 1] by (simp add: a_def)
    define x where "x = fval ?q * ?c"
    have "x - a * (9 / 10) = (fval ?q - a) * ?c + a * (?c - 9 / 10)" by (simp add: x_def algebra_simps)
    also have "\<bar>\<dots>\<bar> \<le> \<bar>fval ?q - a\<bar> * \<bar>?c\<bar> + \<bar>a\<bar> * \<bar>?c - 9 / 10\<bar>" unfolding abs_mult [symmetric] by (rule abs_triangle_ineq)
    also have "\<dots> \<le> a / 2 ^ 53 * 1 + a * (1 / 2 ^ 53)"
      using qa nine_tenths(2-4) a1 by (intro add_mono mult_mono) auto
    finally have x: "\<bar>x - a * (9 / 10)\<bar> \<le> 2 * a / 2 ^ 53" by simp
    have "1 * (8 / 10) \<le> x" unfolding x_def using q1 nine_tenths by (intro mult_mono) auto
    then have "1 / 2 ^ 100 \<le> x" by (rule order_trans [rotated]) simp
    then have "\<bar>rndq x - x\<bar> \<le> x / 2 ^ 53" by (rule rndq_close)
    moreover have "x \<le> a * (9 / 10) + 2 * a / 2 ^ 53" using x by linarith
    then have "x \<le> 2 * a" using a1 by simp
    then have "x / 2 ^ 53 \<le> 2 * a / 2 ^ 53" by (intro divide_right_mono) simp_all
    ultimately have "\<bar>rndq x - a * (9 / 10)\<bar> \<le> 4 * a / 2 ^ 53" using x by linarith
    moreover have "fval (raw_seconds n) = rndq x" unfolding raw_seconds_def s(2) by (simp add: x_def)
    ultimately show ?thesis by (simp add: a_def)
  qed
  show "fval (raw_seconds n) \<le> 1" if large: "86400 < n"
  proof -
    have "rndq (of_int 86401) \<le> rndq (of_int n)" using large by (intro rndq_mono) simp
    then have "86401 \<le> ?b" using b(4) rndq_of_int [of 86401] by simp
    then have "86400 / ?b \<le> 1" by simp
    then have "fval ?q \<le> 1" unfolding q(2) using rndq_mono [of "86400 / ?b" 1] rndq_of_int [of 1] by simp
    then have "fval ?q * ?c \<le> 1 * 1" using q0 nine_tenths by (intro mult_mono) auto
    then show ?thesis unfolding raw_seconds_def s(2) using rndq_mono [of "fval ?q * ?c" 1] rndq_of_int [of 1] by simp
  qed
qed

lemma go_int_bounds: "- (2 ^ 63) \<le> sint (n :: go_int)" "sint (n :: go_int) < 2 ^ 63"
  using sint_ge [of n] sint_lt [of n] by simp_all

lemma ComputeSchedule_every:
  assumes "0 < sint n"
  shows "sc_Kind (ComputeSchedule n []) = KindEvery"
    and "sint (sc_Every (ComputeSchedule n [])) =
      \<lfloor>rndq (max 1 (fval (raw_seconds (sint n))) * 1000000000)\<rfloor>"
    and "0 \<le> rndq (max 1 (fval (raw_seconds (sint n))) * 1000000000)"
    and "rndq (max 1 (fval (raw_seconds (sint n))) * 1000000000) \<le> 77930 * 1000000000"
proof -
  note r = raw_seconds [OF assms go_int_bounds(2)]
  let ?s0 = "raw_seconds (sint n)"
  define s where "s = (if flt ?s0 (Fin 1) then Fin 1 else ?s0)"
  let ?y = "max 1 (fval ?s0) * 1000000000"
  have s: "ffinite s" "fval s = max 1 (fval ?s0)" using r(1) by (auto simp: s_def flt_finite)
  have g: "f64_of_int (sint second) = Fin 1000000000" using f64_of_small_int [of 1000000000] by simp
  have y: "0 \<le> ?y" "?y \<le> 77930 * 1000000000" using r(2) by auto
  then have "\<bar>fval s * fval (Fin 1000000000)\<bar> \<le> 2 ^ 53" by (simp add: s(2))
  note m = fmul_bounded [OF s(1) _ this]
  show y0: "0 \<le> rndq ?y" using y(1) by (rule rndq_nonneg)
  have "rndq (77930 * 1000000000) = 77930 * 1000000000" using rndq_of_int [of "77930 * 1000000000"] by simp
  then show y1: "rndq ?y \<le> 77930 * 1000000000" using rndq_mono [OF y(2)] by simp
  have "f64_to_int (fmul s (Fin 1000000000)) = \<lfloor>rndq ?y\<rfloor>"
    using m y0 s(2) by (simp add: f64_to_int_def)
  moreover have "0 \<le> \<lfloor>rndq ?y\<rfloor>" "\<lfloor>rndq ?y\<rfloor> < 2 ^ 63"
    using y0 y1 by (auto simp: floor_less_iff)
  ultimately have "sint (word_of_int (f64_to_int (fmul s (f64_of_int 1000000000))) :: go_int) = \<lfloor>rndq ?y\<rfloor>"
    using g by (simp add: sint_of_int_small)
  moreover have "sc_Every (ComputeSchedule n []) = word_of_int (f64_to_int (fmul s (f64_of_int 1000000000)))"
    using assms by (simp add: ComputeSchedule_def Let_def flip: raw_seconds_def nine_tenths_def s_def)
  ultimately show "sint (sc_Every (ComputeSchedule n [])) = \<lfloor>rndq ?y\<rfloor>" by simp
  show "sc_Kind (ComputeSchedule n []) = KindEvery" using assms by (simp add: ComputeSchedule_def Let_def)
qed

lemma interval_at_least_second:
  assumes "0 < sint n"
  shows "sint second \<le> sint (sc_Every (ComputeSchedule n []))"
proof -
  let ?m = "max 1 (fval (raw_seconds (sint n)))"
  have "rndq 1000000000 \<le> rndq (?m * 1000000000)" by (rule rndq_mono) simp
  then show ?thesis unfolding ComputeSchedule_every(2) [OF assms] using rndq_of_int [of 1000000000] by (simp add: le_floor_iff)
qed

text \<open>
  C39: the polling interval is nine tenths of the even spacing, exact to two nanoseconds, and at
  least one second. For a positive daily budget and no cron expression the job runs at a fixed
  interval, which is 0.9 times a day divided by the budget, or one second where that is less.
  So for any budget below 86,400 the budget many intervals fit into less than a day: the budget
  is used up before the day ends, and the check of \<open>RunOnce\<close> must refuse the rest. The factor 0.9
  shortens the interval where a safety margin would lengthen it.
\<close>

theorem schedule_interval_bounds:
  assumes "0 < sint n"
  shows "sc_Kind (ComputeSchedule n []) = KindEvery
    \<and> \<bar>of_int (sint (sc_Every (ComputeSchedule n [])))
        - max (of_int (sint second)) (9 / 10 * (of_int (86400 * sint second) / of_int (sint n)))\<bar> \<le> (2 :: rat)
    \<and> sint second \<le> sint (sc_Every (ComputeSchedule n []))
    \<and> (sint n < 86400 \<longrightarrow> sint (sc_Every (ComputeSchedule n [])) * sint n < 86400 * sint second)"
proof -
  define N where "N = sint n"
  define E where "E = sint (sc_Every (ComputeSchedule n []))"
  define y where "y = (77760 :: rat) / of_int N"
  have pos: "0 < N" using assms by (simp add: N_def)
  note r = raw_seconds [OF assms go_int_bounds(2), folded N_def] and c = ComputeSchedule_every [OF assms, folded N_def E_def]
  let ?m = "max 1 (fval (raw_seconds N))"
  have m: "\<bar>?m - max 1 y\<bar> \<le> 86400 / 2 ^ 51"
  proof (cases "N \<le> 86400")
    case True
    have "86400 / of_int N / 2 ^ 51 \<le> (86400 :: rat) / 2 ^ 51" using pos by (intro divide_right_mono) (simp_all add: divide_le_eq)
    then have "\<bar>fval (raw_seconds N) - y\<bar> \<le> 86400 / 2 ^ 51" using r(3) [OF True] by (simp add: y_def)
    moreover have "\<bar>max 1 u - max 1 v\<bar> \<le> \<bar>u - v\<bar>" for u v :: rat by (auto simp: max_def abs_if)
    ultimately show ?thesis by (rule order_trans [rotated])
  next
    case False
    then have "y \<le> 1" by (simp add: y_def)
    then show ?thesis using r(4) False by (simp add: max_def)
  qed
  have "\<bar>rndq (?m * 1000000000) - ?m * 1000000000\<bar> \<le> ?m * 1000000000 / 2 ^ 53" by (rule rndq_close) (rule order_trans [of _ 1], simp_all)
  moreover have "?m \<le> 77930" using r(2) by simp
  moreover have "\<bar>z - t * 1000000000\<bar> \<le> 1"
    if "\<bar>z - u * 1000000000\<bar> \<le> u * 1000000000 / 2 ^ 53" "u \<le> 77930" "\<bar>u - t\<bar> \<le> 86400 / 2 ^ 51" for z u t :: rat
    using that unfolding abs_le_iff by simp
  ultimately have "\<bar>rndq (?m * 1000000000) - max 1 y * 1000000000\<bar> \<le> 1" using m by blast
  moreover have "of_int E \<le> rndq (?m * 1000000000)" "rndq (?m * 1000000000) < of_int E + 1" unfolding c(2) by linarith+
  ultimately have near: "\<bar>of_int E - max 1 y * 1000000000\<bar> \<le> 2" by linarith
  have "E * N < 86400 * 1000000000" if n: "N < 86400"
  proof -
    have "of_int E \<le> max 1 y * 1000000000 + 2" using near by linarith
    then have "of_int E * of_int N \<le> (max 1 y * 1000000000 + 2) * (of_int N :: rat)" using pos by (intro mult_right_mono) simp_all
    also have "\<dots> < 86400 * 1000000000"
      using n pos by (cases "1 \<le> y") (simp_all add: y_def max_def field_simps)
    finally have "of_int (E * N) < (of_int (86400 * 1000000000) :: rat)" by simp
    then show ?thesis by (simp only: of_int_less_iff)
  qed
  moreover have "max 1 y * 1000000000 = max 1000000000 (9 / 10 * (of_int (86400 * sint second) / of_int N))"
    by (simp add: y_def max_def)
  ultimately show ?thesis using c(1) near interval_at_least_second [OF assms] by (simp add: N_def E_def)
qed

theorem schedule_interval_bounds_witness:
  "\<bar>of_int (sint (sc_Every (ComputeSchedule 1000 []))) - 77760000000\<bar> \<le> (2 :: rat)
   \<and> sint (sc_Every (ComputeSchedule 1000 [])) * 1000 < 86400 * sint second"
  using schedule_interval_bounds [of 1000] by simp

section \<open>What a run does\<close>

text \<open>The row a fetched reading is stored as.\<close>

definition stored_as :: "int \<Rightarrow> fetched \<Rightarrow> reading_row \<Rightarrow> bool" where
  "stored_as pid f r \<longleftrightarrow> rr_provider_id r = pid \<and> rr_base r = f_Base f \<and> rr_quote r = f_Quote f
     \<and> rr_rate r = f_Rate f \<and> rr_fetched_at r = fmt_rfc3339 (f_FetchedAt f)
     \<and> rr_provider_ts r = nullableStr (f_ProviderTS f)"

text \<open>
  Why the statement number \<open>k\<close> cannot insert a reading: the database fails, the rate is NaN, which
  is stored as NULL, or the provider does not exist.
\<close>

definition insert_error :: "engine \<Rightarrow> db \<Rightarrow> int \<Rightarrow> nat \<Rightarrow> fetched \<Rightarrow> db_error option" where
  "insert_error E d pid k f = (case fault E k of Some e \<Rightarrow> Some e
     | None \<Rightarrow> if f_Rate f = NaN then Some NotNullViolation
       else if pid \<notin> pr_id ` set (providers d) then Some ForeignKeyViolation else None)"

lemma insert_error_cong: "providers d' = providers d \<Longrightarrow> insert_error E d' = insert_error E d"
  by (intro ext) (simp add: insert_error_def)

lemma insert_one:
  "case insert_error E d pid (stmts d) f of
     Some e \<Rightarrow> InsertReading E (store_reading pid f) d = (Inl e, d\<lparr>stmts := Suc (stmts d)\<rparr>)
   | None \<Rightarrow> \<exists>d' r. InsertReading E (store_reading pid f) d = (Inr (), d') \<and> providers d' = providers d
       \<and> usage d' = usage d \<and> stmts d' = Suc (stmts d) \<and> readings d' = readings d @ [r] \<and> stored_as pid f r"
  by (auto simp: insert_error_def InsertReading_def go_simps insert_row_def store_reading_def Let_def stored_as_def
      split: option.split)

text \<open>The readings are stored in order up to the first that cannot be.\<close>

lemma insert_all_outcome:
  obtains i new where "i \<le> length fs" and "readings (snd (insert_all E pid fs d)) = readings d @ new"
    and "list_all2 (stored_as pid) (take i fs) new" and "providers (snd (insert_all E pid fs d)) = providers d"
    and "\<forall>l<i. insert_error E d pid (stmts d + l) (fs ! l) = None"
    and "if i = length fs then fst (insert_all E pid fs d) = Inr () \<and> stmts (snd (insert_all E pid fs d)) = stmts d + length fs
      else \<exists>e. insert_error E d pid (stmts d + i) (fs ! i) = Some e \<and> fst (insert_all E pid fs d) = Inl e"
proof (induction fs arbitrary: d thesis)
  case Nil
  then show ?case by simp
next
  case (Cons f fs)
  show ?case
  proof (cases "insert_error E d pid (stmts d) f")
    case (Some e)
    then show ?thesis using insert_one [where E = E and d = d and pid = pid and f = f] by (intro Cons.prems [of 0 "[]"]) simp_all
  next
    case None
    then obtain d1 r where d1: "InsertReading E (store_reading pid f) d = (Inr (), d1)" "providers d1 = providers d"
      "stmts d1 = Suc (stmts d)" "readings d1 = readings d @ [r]" "stored_as pid f r"
      using insert_one [where E = E and d = d and pid = pid and f = f] by auto
    obtain i new where 1: "i \<le> length fs" "readings (snd (insert_all E pid fs d1)) = readings d1 @ new"
      "list_all2 (stored_as pid) (take i fs) new" "providers (snd (insert_all E pid fs d1)) = providers d1"
      "\<forall>l<i. insert_error E d1 pid (stmts d1 + l) (fs ! l) = None"
      "if i = length fs then fst (insert_all E pid fs d1) = Inr () \<and> stmts (snd (insert_all E pid fs d1)) = stmts d1 + length fs
       else \<exists>e. insert_error E d1 pid (stmts d1 + i) (fs ! i) = Some e \<and> fst (insert_all E pid fs d1) = Inl e"
      by (rule Cons.IH)
    have "\<forall>l<Suc i. insert_error E d pid (stmts d + l) ((f # fs) ! l) = None"
      using 1(5) None d1(3) by (auto simp: less_Suc_eq_0_disj insert_error_cong [OF d1(2)])
    then show ?thesis
      using 1 d1 by (intro Cons.prems [of "Suc i" "r # new"]) (auto simp: insert_error_cong [OF d1(2)])
  qed
qed

lemma insert_all_ok:
  assumes "\<forall>n. fault E n = None" and "pid \<in> pr_id ` set (providers d)" and "\<forall>f \<in> set fs. f_Rate f \<noteq> NaN"
  shows "\<exists>d' new. insert_all E pid fs d = (Inr (), d') \<and> providers d' = providers d \<and> usage d' = usage d
    \<and> readings d' = readings d @ new \<and> list_all2 (stored_as pid) fs new"
proof -
  obtain i new where i: "i \<le> length fs" "readings (snd (insert_all E pid fs d)) = readings d @ new"
    "list_all2 (stored_as pid) (take i fs) new" "providers (snd (insert_all E pid fs d)) = providers d"
    "if i = length fs then fst (insert_all E pid fs d) = Inr () \<and> stmts (snd (insert_all E pid fs d)) = stmts d + length fs
     else \<exists>e. insert_error E d pid (stmts d + i) (fs ! i) = Some e \<and> fst (insert_all E pid fs d) = Inl e"
    by (rule insert_all_outcome)
  have "insert_error E d pid k (fs ! i) = None" if "i < length fs" for k
    using assms that by (simp add: insert_error_def)
  then have "i = length fs" using i(1,5) by (cases "i < length fs") auto
  then show ?thesis using i insert_all_frame [of E pid fs d] by (cases "insert_all E pid fs d") simp
qed

lemma UsageToday_run:
  assumes "fault E (stmts d) = None"
  shows "UsageToday E p t d = (Inr (usage_count d p t), d\<lparr>stmts := Suc (stmts d)\<rparr>)"
  using assms by (auto simp: UsageToday_def go_simps usage_count_def split: option.split)

lemma IncrementUsage_run:
  assumes "fault E (stmts d) = None"
  obtains d' where "IncrementUsage E p t d = (Inr (), d')" "providers d' = providers d" "readings d' = readings d"
  using assms by (cases "map_get (usage d) (p, fmt_day t)") (auto simp: IncrementUsage_def go_simps Let_def)

text \<open>The metrics a run leaves: one more success, or one more error.\<close>

definition counted :: "string \<Rightarrow> string \<Rightarrow> manager \<Rightarrow> manager \<Rightarrow> bool" where
  "counted all name m m' \<longleftrightarrow> (\<forall>x. mg_metrics m = Some x \<longrightarrow> (\<exists>x'. mg_metrics m' = Some x' \<and>
     (\<forall>k. counter_value k x' = counter_value k x
        + (if k = all then 1 else 0) + (if k = all @ ''_'' @ name then 1 else 0))))"

lemma counted_record:
  assumes "\<forall>x. mg_metrics m = Some x \<longrightarrow> metrics_ok x"
  shows "counted ''argosfx_fetch_total'' name m (recordSuccess name (m\<lparr>mg_db := d\<rparr>))"
    and "counted ''argosfx_fetch_errors_total'' name m (recordError name (m\<lparr>mg_db := d\<rparr>))"
  using assms by (auto simp: counted_def recordSuccess_def recordError_def metrics_ok_updates)

text \<open>A run that may fetch, and whose fetch succeeds.\<close>

lemma RunOnce_success:
  assumes "db_ok (mg_db m)" and "\<forall>n. fault E n = None"
    and "j_ProviderID j \<in> pr_id ` set (providers (mg_db m))" and "fmt_range (clk 1)"
    and "BudgetAllowed (usage_count (mg_db m) (j_ProviderID j) (clk 0)) (j_CallsPerDay j)"
    and "pv_Fetch (j_Provider j) (clk 2) (j_Base j) (j_CurrencyCodes j) = Inr fs" and "\<forall>f \<in> set fs. f_Rate f \<noteq> NaN"
  obtains d new where "RunOnce E clk j m = (Inr (), recordSuccess (pv_Name (j_Provider j)) (m\<lparr>mg_db := d\<rparr>))"
    and "readings d = readings (mg_db m) @ new" and "list_all2 (stored_as (j_ProviderID j)) fs new"
    and "providers d = providers (mg_db m)"
    and "\<And>q v. fmt_range v \<Longrightarrow> usage_count d q v = usage_count (mg_db m) q v
          + (if q = j_ProviderID j \<and> day_number v = day_number (clk 1) then 1 else 0)"
proof -
  let ?p = "j_ProviderID j" and ?d = "mg_db m"
  let ?d1 = "?d\<lparr>stmts := Suc (stmts ?d)\<rparr>"
  have u: "UsageToday E ?p (clk 0) ?d = (Inr (usage_count ?d ?p (clk 0)), ?d1)"
    using assms(2) by (intro UsageToday_run) simp
  obtain d2 new where d2: "insert_all E ?p fs ?d1 = (Inr (), d2)" "usage d2 = usage ?d1"
    "readings d2 = readings ?d1 @ new" "list_all2 (stored_as ?p) fs new" "providers d2 = providers ?d1"
    using insert_all_ok [OF assms(2), of ?p ?d1 fs] assms(3,7) by auto
  obtain d3 where d3: "IncrementUsage E ?p (clk 1) d2 = (Inr (), d3)" "readings d3 = readings d2" "providers d3 = providers d2"
    by (rule IncrementUsage_run [of E d2 ?p "clk 1"]) (use assms(2) in auto)
  have ok: "db_ok d2" using insert_all_frame [of E ?p fs ?d1] assms(1) by (simp add: d2(1))
  have uc: "usage_count d2 q v = usage_count ?d q v" for q v
    using d2(2) by (simp add: usage_count_def)
  show ?thesis
  proof (rule that [of d3 new])
    show "RunOnce E clk j m = (Inr (), recordSuccess (pv_Name (j_Provider j)) (m\<lparr>mg_db := d3\<rparr>))"
      using d3(1) by (simp add: RunOnce_def Let_def u assms(5,6) d2(1))
    show "readings d3 = readings ?d @ new" "list_all2 (stored_as ?p) fs new" "providers d3 = providers ?d"
      using d2(3-5) d3(2,3) by simp_all
    show "usage_count d3 q v = usage_count ?d q v
          + (if q = ?p \<and> day_number v = day_number (clk 1) then 1 else 0)" if "fmt_range v" for q v
      using ul.count_used [OF ok assms(4) that d3(1), of q] by (simp add: uc)
  qed
qed

text \<open>
  C37: what a run does, whatever fails. With \<open>k\<close> statements executed before the run:
  \<^item> if the usage cannot be read, it returns that error; if the budget of the day is used up, it
    returns without an error; in both cases no table and no metric changes;
  \<^item> if the fetch fails, it returns that error, changes no table and counts one error;
  \<^item> otherwise it stores the fetched readings in order, one row each, up to the first that cannot
    be stored; if there is such a reading, it returns why, and neither the usage nor a metric
    changes; if all are stored, it adds one to the provider's usage of the day and to no other,
    and counts one success; if that addition fails, it returns this error and only the rows stay.
\<close>

theorem run_once_effects:
  assumes "db_ok (mg_db m)" and "\<forall>x. mg_metrics m = Some x \<longrightarrow> metrics_ok x" and "fmt_range (clk 1)"
    and "RunOnce E clk j m = (out, m')"
  defines "k \<equiv> stmts (mg_db m)" and "pid \<equiv> j_ProviderID j" and "name \<equiv> pv_Name (j_Provider j)"
  shows "case fault E k of Some e \<Rightarrow> out = Inl (ReadUsage e) \<and> same_tables (mg_db m) (mg_db m') \<and> mg_metrics m' = mg_metrics m
    | None \<Rightarrow>
      if \<not> BudgetAllowed (usage_count (mg_db m) pid (clk 0)) (j_CallsPerDay j)
      then out = Inr () \<and> same_tables (mg_db m) (mg_db m') \<and> mg_metrics m' = mg_metrics m
      else (case pv_Fetch (j_Provider j) (clk 2) (j_Base j) (j_CurrencyCodes j) of
          Inl e \<Rightarrow> out = Inl (FetchFailed name e) \<and> same_tables (mg_db m) (mg_db m') \<and> counted ''argosfx_fetch_errors_total'' name m m'
        | Inr fs \<Rightarrow> \<exists>i new. i \<le> length fs \<and> (\<forall>l<i. insert_error E (mg_db m) pid (k + 1 + l) (fs ! l) = None)
            \<and> readings (mg_db m') = readings (mg_db m) @ new \<and> list_all2 (stored_as pid) (take i fs) new
            \<and> (if i < length fs
               then (\<exists>e. insert_error E (mg_db m) pid (k + 1 + i) (fs ! i) = Some e \<and> out = Inl (InsertFailed e))
                 \<and> usage (mg_db m') = usage (mg_db m) \<and> mg_metrics m' = mg_metrics m
               else (case fault E (k + 1 + length fs) of
                   Some e \<Rightarrow> out = Inl (IncrementFailed e) \<and> usage (mg_db m') = usage (mg_db m) \<and> mg_metrics m' = mg_metrics m
                 | None \<Rightarrow> out = Inr () \<and> counted ''argosfx_fetch_total'' name m m'
                     \<and> (\<forall>q u. fmt_range u \<longrightarrow> usage_count (mg_db m') q u = usage_count (mg_db m) q u
                          + (if q = pid \<and> day_number u = day_number (clk 1) then 1 else 0)))))"
proof (cases "fault E k")
  case (Some e)
  then show ?thesis using assms(4) by (auto simp: RunOnce_def Let_def UsageToday_def go_simps k_def)
next
  case None
  let ?d = "mg_db m"
  let ?d1 = "?d\<lparr>stmts := Suc (stmts ?d)\<rparr>"
  have u: "UsageToday E pid (clk 0) ?d = (Inr (usage_count ?d pid (clk 0)), ?d1)"
    using None unfolding k_def by (rule UsageToday_run)
  show ?thesis
  proof (cases "BudgetAllowed (usage_count ?d pid (clk 0)) (j_CallsPerDay j)")
    case False
    then show ?thesis using assms(4) None u by (auto simp: RunOnce_def Let_def pid_def)
  next
    case allowed: True
    show ?thesis
    proof (cases "pv_Fetch (j_Provider j) (clk 2) (j_Base j) (j_CurrencyCodes j)")
      case (Inl e)
      then show ?thesis using assms(4) None allowed u counted_record(2) [OF assms(2)]
        by (auto simp: RunOnce_def Let_def pid_def name_def)
    next
      case fs: (Inr fs)
      define d2 where "d2 = snd (insert_all E pid fs ?d1)"
      obtain i new where i: "i \<le> length fs" "readings d2 = readings ?d1 @ new" "list_all2 (stored_as pid) (take i fs) new"
        "\<forall>l<i. insert_error E ?d1 pid (stmts ?d1 + l) (fs ! l) = None"
        "if i = length fs then fst (insert_all E pid fs ?d1) = Inr () \<and> stmts d2 = stmts ?d1 + length fs
         else \<exists>e. insert_error E ?d1 pid (stmts ?d1 + i) (fs ! i) = Some e \<and> fst (insert_all E pid fs ?d1) = Inl e"
        unfolding d2_def by (rule insert_all_outcome)
      have same: "insert_error E ?d1 = insert_error E ?d" by (rule insert_error_cong) simp
      have frame: "usage d2 = usage ?d" "db_ok d2" using insert_all_frame [of E pid fs ?d1] assms(1) by (simp_all add: d2_def)
      have run: "RunOnce E clk j m = (case fst (insert_all E pid fs ?d1) of
            Inl e \<Rightarrow> (Inl (InsertFailed e), m\<lparr>mg_db := d2\<rparr>)
          | Inr _ \<Rightarrow> (case IncrementUsage E pid (clk 1) d2 of
              (Inl e, d3) \<Rightarrow> (Inl (IncrementFailed e), m\<lparr>mg_db := d3\<rparr>)
            | (Inr _, d3) \<Rightarrow> (Inr (), recordSuccess name (m\<lparr>mg_db := d3\<rparr>))))"
        using allowed fs u by (simp add: RunOnce_def Let_def case_prod_beta d2_def pid_def name_def split: sum.split)
      have "\<exists>e. insert_error E ?d pid (k + 1 + i) (fs ! i) = Some e \<and> out = Inl (InsertFailed e) \<and> m' = m\<lparr>mg_db := d2\<rparr>"
        if "i < length fs" using i(5) that run assms(4) by (auto simp: same k_def)
      moreover have "case fault E (k + 1 + length fs) of
            Some e \<Rightarrow> out = Inl (IncrementFailed e) \<and> m' = m\<lparr>mg_db := d2\<lparr>stmts := Suc (stmts d2)\<rparr>\<rparr>
          | None \<Rightarrow> (\<exists>d3. IncrementUsage E pid (clk 1) d2 = (Inr (), d3) \<and> readings d3 = readings d2 \<and> out = Inr ()
              \<and> m' = recordSuccess name (m\<lparr>mg_db := d3\<rparr>))" if "i = length fs"
      proof (cases "fault E (stmts d2)")
        case (Some e)
        then have "IncrementUsage E pid (clk 1) d2 = (Inl e, d2\<lparr>stmts := Suc (stmts d2)\<rparr>)" by (simp add: IncrementUsage_def go_simps)
        then show ?thesis using i(5) that run assms(4) Some by (auto simp: k_def)
      next
        case ok: None
        obtain d3 where "IncrementUsage E pid (clk 1) d2 = (Inr (), d3)" "readings d3 = readings d2"
          by (rule IncrementUsage_run [OF ok])
        then show ?thesis using i(5) that run assms(4) ok by (auto simp: k_def)
      qed
      moreover have "usage_count d2 = usage_count ?d" using frame(1) by (auto simp: fun_eq_iff usage_count_def)
      ultimately show ?thesis
        using i(1-4) None allowed fs frame counted_record(1) [OF assms(2)] ul.count_used [OF frame(2) assms(3)]
        by (cases "i = length fs") (auto simp: same k_def split: option.splits intro!: exI [of _ i] exI [of _ new])
    qed
  qed
qed

definition sample_fetched :: fetched where
  "sample_fetched = \<lparr>f_Base = ''USD'', f_Quote = ''EUR'', f_Rate = Fin 5, f_FetchedAt = 30 * ns_per_sec, f_ProviderTS = []\<rparr>"

theorem run_once_effects_witness:
  "(\<exists>out m'. RunOnce plain_engine (\<lambda>_. 30 * ns_per_sec) (sample_job (Inr [sample_fetched]) 5) (NewManager sample_db) = (out, m')
     \<and> out = Inr () \<and> length (readings (mg_db m')) = 4 \<and> usage_count (mg_db m') 1 (30 * ns_per_sec) = 1)
   \<and> (\<exists>out m'. RunOnce plain_engine (\<lambda>_. 30 * ns_per_sec) (sample_job (Inr [sample_fetched, sample_fetched\<lparr>f_Rate := NaN\<rparr>]) 5)
       (NewManager sample_db) = (out, m')
     \<and> out = Inl (InsertFailed NotNullViolation) \<and> length (readings (mg_db m')) = 4 \<and> usage (mg_db m') = [])"
proof -
  let ?clk = "\<lambda>_ :: nat. 30 * ns_per_sec" and ?m = "NewManager sample_db" and ?nan = "sample_fetched\<lparr>f_Rate := NaN\<rparr>"
  have 0: "usage_count sample_db 1 t = 0" for t by (simp add: usage_count_def map_get_def)
  have 1: "insert_error plain_engine sample_db 1 k f = (if f_Rate f = NaN then Some NotNullViolation else None)" for k f
    by (simp add: insert_error_def sample_db_def sample_provider_def)
  have 2: "length (readings sample_db) = 3" "usage sample_db = []" by (simp_all add: sample_db_def)
  have j: "j_ProviderID (sample_job r n) = 1" "sint (j_CallsPerDay (sample_job r 5)) = 5"
    "pv_Fetch (j_Provider (sample_job r n)) t b qs = r" for r n t b qs
    by (simp_all add: sample_job_def)
  have m: "mg_db ?m = sample_db" "mg_metrics ?m = None" by (simp_all add: NewManager_def)
  obtain out m' where r: "RunOnce plain_engine ?clk (sample_job (Inr [sample_fetched]) 5) ?m = (out, m')" by fastforce
  have a: "out = Inr () \<and> length (readings (mg_db m')) = 4 \<and> usage_count (mg_db m') 1 (30 * ns_per_sec) = 1"
    using run_once_effects [OF _ _ _ r]
    by (auto simp: m j sample_db_ok BudgetAllowed_def 0 1 2 sample_fetched_def dest!: list_all2_lengthD split: if_splits)
  obtain out2 m2 where r2: "RunOnce plain_engine ?clk (sample_job (Inr [sample_fetched, ?nan]) 5) ?m = (out2, m2)" by fastforce
  have "\<exists>i new. i \<le> 2 \<and> (\<forall>l<i. f_Rate ([sample_fetched, ?nan] ! l) \<noteq> NaN)
      \<and> readings (mg_db m2) = readings sample_db @ new \<and> length new = i
      \<and> (i < 2 \<longrightarrow> f_Rate ([sample_fetched, ?nan] ! i) = NaN \<and> out2 = Inl (InsertFailed NotNullViolation) \<and> usage (mg_db m2) = [])"
    (is "\<exists>i new. ?P i new")
    using run_once_effects [OF _ _ _ r2]
    by (simp add: m j sample_db_ok BudgetAllowed_def 0 1 2) (auto simp: m j 1 2 dest!: list_all2_lengthD split: if_splits)
  then obtain i new where i: "?P i new" by blast
  then have "i < 2" by (auto simp: le_less sample_fetched_def dest: spec [of _ 1])
  moreover have "i \<noteq> 0" using i by (auto simp: sample_fetched_def)
  ultimately have b: "out2 = Inl (InsertFailed NotNullViolation) \<and> length (readings (mg_db m2)) = 4 \<and> usage (mg_db m2) = []"
    using i by (auto simp: 2 less_2_cases_iff)
  show ?thesis using r r2 a b by blast
qed

section \<open>Overlapping runs\<close>

text \<open>
  The cron library starts every run in a goroutine of its own, so a run that takes longer than
  the interval overlaps with the next ones. One step is one call a run makes: the check of the
  budget, the storing of one reading, the counting at the end, or a failure. \<open>ov_fetching\<close> holds
  the runs that have passed the check and are not finished; at most \<open>K\<close> run at a time. All
  clock readings fall on the day of \<open>u\<close>.
\<close>

record overlap =
  ov_db :: db
  ov_fetching :: "nat set"

inductive overlap_step :: "engine \<Rightarrow> int \<Rightarrow> go_int \<Rightarrow> time \<Rightarrow> nat \<Rightarrow> overlap \<Rightarrow> overlap \<Rightarrow> bool"
  for E :: engine and p :: int and calls :: go_int and u :: time and K :: nat where
  ov_start: "i < K \<Longrightarrow> i \<notin> ov_fetching s \<Longrightarrow> fmt_range t \<Longrightarrow> day_number t = day_number u \<Longrightarrow>
    UsageToday E p t (ov_db s) = (Inr used, d) \<Longrightarrow> BudgetAllowed used calls \<Longrightarrow>
    overlap_step E p calls u K s \<lparr>ov_db = d, ov_fetching = insert i (ov_fetching s)\<rparr>"
| ov_refused: "UsageToday E p t (ov_db s) = (out, d) \<Longrightarrow> (\<forall>used. out = Inr used \<longrightarrow> \<not> BudgetAllowed used calls) \<Longrightarrow>
    overlap_step E p calls u K s (s\<lparr>ov_db := d\<rparr>)"
| ov_store: "i \<in> ov_fetching s \<Longrightarrow>
    overlap_step E p calls u K s (s\<lparr>ov_db := snd (InsertReading E (store_reading p f) (ov_db s))\<rparr>)"
| ov_abort: "i \<in> ov_fetching s \<Longrightarrow>
    overlap_step E p calls u K s (s\<lparr>ov_fetching := ov_fetching s - {i}\<rparr>)"
| ov_finish: "i \<in> ov_fetching s \<Longrightarrow> fmt_range t \<Longrightarrow> day_number t = day_number u \<Longrightarrow>
    overlap_step E p calls u K s
      \<lparr>ov_db = snd (IncrementUsage E p t (ov_db s)), ov_fetching = ov_fetching s - {i}\<rparr>"

text \<open>A whole run is a sequence of such steps, on every branch.\<close>

lemma insert_all_steps:
  assumes "i \<in> F"
  shows "(overlap_step E p calls u K)\<^sup>*\<^sup>* \<lparr>ov_db = d, ov_fetching = F\<rparr> \<lparr>ov_db = snd (insert_all E p fs d), ov_fetching = F\<rparr>"
proof (induction fs arbitrary: d)
  case Nil
  then show ?case by simp
next
  case (Cons f fs)
  let ?d1 = "snd (InsertReading E (store_reading p f) d)"
  have "overlap_step E p calls u K \<lparr>ov_db = d, ov_fetching = F\<rparr> \<lparr>ov_db = ?d1, ov_fetching = F\<rparr>"
    using ov_store [of i "\<lparr>ov_db = d, ov_fetching = F\<rparr>" E p calls u K f] assms by simp
  then show ?case
    using Cons.IH [of ?d1] by (auto simp: case_prod_beta split: sum.split elim: converse_rtranclp_into_rtranclp)
qed

lemma RunOnce_steps:
  assumes "i < K" and "i \<notin> F" and "fmt_range (clk 0)" and "fmt_range (clk 1)"
    and "day_number (clk 0) = day_number u" and "day_number (clk 1) = day_number u"
  shows "(overlap_step E (j_ProviderID j) (j_CallsPerDay j) u K)\<^sup>*\<^sup>* \<lparr>ov_db = mg_db m, ov_fetching = F\<rparr>
    \<lparr>ov_db = mg_db (snd (RunOnce E clk j m)), ov_fetching = F\<rparr>"
proof -
  let ?p = "j_ProviderID j" and ?n = "j_CallsPerDay j" and ?s = "\<lparr>ov_db = mg_db m, ov_fetching = F\<rparr>"
  let ?R = "overlap_step E ?p ?n u K"
  obtain x d1 where u: "UsageToday E ?p (clk 0) (mg_db m) = (x, d1)" by fastforce
  show ?thesis
  proof (cases "\<exists>used. x = Inr used \<and> BudgetAllowed used ?n")
    case False
    then have "?R ?s \<lparr>ov_db = d1, ov_fetching = F\<rparr>" using ov_refused [of E ?p "clk 0" ?s x d1 ?n u K] u by simp
    then show ?thesis using False by (auto simp: RunOnce_def Let_def u split: sum.split)
  next
    case True
    then obtain used where x: "x = Inr used" "BudgetAllowed used ?n" by blast
    let ?I = "insert i F"
    have start: "?R ?s \<lparr>ov_db = d1, ov_fetching = ?I\<rparr>"
      using ov_start [of i K ?s "clk 0" u E ?p used d1 ?n] u x assms by simp
    have abort: "?R \<lparr>ov_db = d, ov_fetching = ?I\<rparr> \<lparr>ov_db = d, ov_fetching = F\<rparr>" for d
      using ov_abort [of i "\<lparr>ov_db = d, ov_fetching = ?I\<rparr>" E ?p ?n u K] assms(2) by simp
    have finish: "?R \<lparr>ov_db = d, ov_fetching = ?I\<rparr> \<lparr>ov_db = snd (IncrementUsage E ?p (clk 1) d), ov_fetching = F\<rparr>" for d
      using ov_finish [of i "\<lparr>ov_db = d, ov_fetching = ?I\<rparr>" "clk 1" u E ?p ?n K] assms by simp
    show ?thesis
    proof (cases "pv_Fetch (j_Provider j) (clk 2) (j_Base j) (j_CurrencyCodes j)")
      case (Inl e)
      then have "mg_db (snd (RunOnce E clk j m)) = d1" by (simp add: RunOnce_def Let_def u x)
      then show ?thesis using start abort [of d1] by (simp add: converse_rtranclp_into_rtranclp)
    next
      case (Inr fs)
      let ?d2 = "snd (insert_all E ?p fs d1)"
      have "mg_db (snd (RunOnce E clk j m)) = ?d2 \<or> mg_db (snd (RunOnce E clk j m)) = snd (IncrementUsage E ?p (clk 1) ?d2)"
        using Inr by (auto simp: RunOnce_def Let_def u x case_prod_beta split: sum.split)
      then have "?R \<lparr>ov_db = ?d2, ov_fetching = ?I\<rparr> \<lparr>ov_db = mg_db (snd (RunOnce E clk j m)), ov_fetching = F\<rparr>"
        using abort [of ?d2] finish [of ?d2] by auto
      moreover have "?R\<^sup>*\<^sup>* \<lparr>ov_db = d1, ov_fetching = ?I\<rparr> \<lparr>ov_db = ?d2, ov_fetching = ?I\<rparr>"
        by (rule insert_all_steps [where i = i]) simp
      ultimately show ?thesis using start by (meson converse_rtranclp_into_rtranclp rtranclp.rtrancl_into_rtrancl)
    qed
  qed
qed

definition overlap_inv :: "int \<Rightarrow> go_int \<Rightarrow> time \<Rightarrow> nat \<Rightarrow> overlap \<Rightarrow> bool" where
  "overlap_inv p calls u K s \<longleftrightarrow> db_ok (ov_db s) \<and> ov_fetching s \<subseteq> {..<K}
     \<and> usage_count (ov_db s) p u + int (card (ov_fetching s)) \<le> sint calls + int K - 1"

lemma overlap_step_inv:
  assumes "overlap_step E p calls u K s s'" and "overlap_inv p calls u K s" and "fmt_range u" and "0 < sint calls"
  shows "overlap_inv p calls u K s'"
proof -
  have fin: "finite (ov_fetching s)" and sub: "ov_fetching s \<subseteq> {..<K}" and ok: "db_ok (ov_db s)"
    and le: "usage_count (ov_db s) p u + int (card (ov_fetching s)) \<le> sint calls + int K - 1"
    using assms(2) by (auto simp: overlap_inv_def intro: finite_subset)
  have same: "db_ok (snd (UsageToday E p t (ov_db s)))"
    "usage_count (snd (UsageToday E p t (ov_db s))) = usage_count (ov_db s)" for t
    using ul.good_read [OF ok] ul.read_frame by auto
  have less: "card (ov_fetching s - {i}) = card (ov_fetching s) - 1" "0 < card (ov_fetching s)" if "i \<in> ov_fetching s" for i
    using that fin by (auto simp: card_gt_0_iff)
  from assms(1) show ?thesis
  proof cases
    case (ov_start i t used d)
    have d: "db_ok d" "usage_count d = usage_count (ov_db s)" using same [of t] ov_start by auto
    have "used = usage_count (ov_db s) p u"
      using ul.read_used ov_start(6) ul.used_day [OF ov_start(4) assms(3) ov_start(5)] by metis
    moreover have "used < sint calls" using ov_start(7) assms(4) by (simp add: BudgetAllowed_def)
    moreover have "card (insert i (ov_fetching s)) \<le> K"
      using card_mono [of "{..<K}" "insert i (ov_fetching s)"] sub ov_start(2) by simp
    ultimately show ?thesis
      using d sub ov_start(2) by (simp add: overlap_inv_def ov_start(1))
  next
    case (ov_refused t out d)
    then show ?thesis using same [of t] sub le by (simp add: overlap_inv_def)
  next
    case (ov_store i f)
    have "usage_count (snd (InsertReading E (store_reading p f) (ov_db s))) p u = usage_count (ov_db s) p u"
      by (rule usage_count_same) simp
    then show ?thesis using ok sub le by (simp add: overlap_inv_def ov_store(1) db_ok_InsertReading)
  next
    case (ov_abort i)
    then show ?thesis using less [of i] ok sub le by (auto simp: overlap_inv_def)
  next
    case (ov_finish i t)
    have "usage_count (snd (IncrementUsage E p t (ov_db s))) p u \<le> usage_count (ov_db s) p u + 1"
      using ul.count_le [OF ok ov_finish(3) assms(3), of E p p] ov_finish(4) by simp
    then show ?thesis
      using less [OF ov_finish(2)] ul.good_count [OF ok, of E p t] sub le by (auto simp: overlap_inv_def ov_finish(1))
  qed
qed

text \<open>
  C38: overlapping runs overshoot the budget by less than their number. In every interleaving of
  at most \<open>K\<close> simultaneous runs of a job, whatever fails, the usage counter of the day stays at
  most \<open>CallsPerDay + K - 1\<close>; with one run at a time it stays within the budget.
\<close>

theorem overlapping_runs_bounded:
  assumes "(overlap_step E p calls u K)\<^sup>*\<^sup>* s s'" and "ov_fetching s = {}" and "db_ok (ov_db s)"
    and "usage_count (ov_db s) p u \<le> sint calls" and "fmt_range u" and "0 < sint calls" and "0 < K"
  shows "usage_count (ov_db s') p u \<le> sint calls + int K - 1"
proof -
  have "overlap_inv p calls u K s" using assms by (simp add: overlap_inv_def)
  with assms(1) have "overlap_inv p calls u K s'"
    by (induction rule: rtranclp_induct) (blast intro: overlap_step_inv [OF _ _ assms(5,6)])+
  then show ?thesis by (auto simp: overlap_inv_def)
qed

text \<open>Two runs that both pass the check before either counts.\<close>

definition two_runs :: "db \<Rightarrow> overlap" where
  "two_runs d = \<lparr>ov_db = snd (IncrementUsage plain_engine 1 0 (snd (IncrementUsage plain_engine 1 0 d))),
     ov_fetching = {}\<rparr>"

lemma two_runs_reach:
  defines "d2 \<equiv> sample_db\<lparr>stmts := 2\<rparr>"
  shows "(overlap_step plain_engine 1 1 0 2)\<^sup>*\<^sup>* \<lparr>ov_db = sample_db, ov_fetching = {}\<rparr> (two_runs d2)"
    and "usage_count (ov_db (two_runs d2)) 1 0 = 2"
proof -
  let ?R = "overlap_step plain_engine 1 1 0 2"
  have U: "UsageToday plain_engine 1 0 sample_db = (Inr 0, sample_db\<lparr>stmts := 1\<rparr>)"
    "UsageToday plain_engine 1 0 (sample_db\<lparr>stmts := 1\<rparr>) = (Inr 0, d2)"
    by (simp_all add: UsageToday_run usage_count_def map_get_def d2_def numeral_2_eq_2)
  have b: "BudgetAllowed 0 1" by (simp add: BudgetAllowed_def)
  have 1: "?R \<lparr>ov_db = sample_db, ov_fetching = {}\<rparr> \<lparr>ov_db = sample_db\<lparr>stmts := 1\<rparr>, ov_fetching = {0}\<rparr>"
    using ov_start [of 0 2 "\<lparr>ov_db = sample_db, ov_fetching = {}\<rparr>" 0 0 plain_engine 1] U(1) b by simp
  have 2: "?R \<lparr>ov_db = sample_db\<lparr>stmts := 1\<rparr>, ov_fetching = {0}\<rparr> \<lparr>ov_db = d2, ov_fetching = {0, 1}\<rparr>"
    using ov_start [of 1 2 "\<lparr>ov_db = sample_db\<lparr>stmts := 1\<rparr>, ov_fetching = {0}\<rparr>" 0 0 plain_engine 1] U(2) b
    by (simp add: insert_commute)
  let ?d3 = "snd (IncrementUsage plain_engine 1 0 d2)"
  have 3: "?R \<lparr>ov_db = d2, ov_fetching = {0, 1}\<rparr> \<lparr>ov_db = ?d3, ov_fetching = {1}\<rparr>"
    using ov_finish [of 0 "\<lparr>ov_db = d2, ov_fetching = {0, 1}\<rparr>" 0 0 plain_engine 1] by simp
  have 4: "?R \<lparr>ov_db = ?d3, ov_fetching = {1}\<rparr> (two_runs d2)"
    using ov_finish [of 1 "\<lparr>ov_db = ?d3, ov_fetching = {1}\<rparr>" 0 0 plain_engine 1] by (simp add: two_runs_def)
  from 1 2 3 4 show "?R\<^sup>*\<^sup>* \<lparr>ov_db = sample_db, ov_fetching = {}\<rparr> (two_runs d2)"
    by (meson converse_rtranclp_into_rtranclp rtranclp.rtrancl_refl)
  have step: "usage_count (snd (IncrementUsage plain_engine 1 0 d)) 1 0 = usage_count d 1 0 + 1" if "db_ok d" for d
  proof -
    obtain d' where "IncrementUsage plain_engine 1 0 d = (Inr (), d')"
      by (rule IncrementUsage_run [OF plain_engine_simps(1)])
    with IncrementUsage_count [OF that _ _ this, of 0 1] show ?thesis by simp
  qed
  have ok: "db_ok d2" using sample_db_ok by (simp add: d2_def)
  have "usage_count d2 1 0 = 0" by (simp add: d2_def usage_count_def map_get_def)
  then show "usage_count (ov_db (two_runs d2)) 1 0 = 2"
    by (simp add: two_runs_def step ok db_ok_IncrementUsage)
qed

theorem overlapping_runs_bounded_witness:
  "usage_count (ov_db (two_runs (sample_db\<lparr>stmts := 2\<rparr>))) 1 0 \<le> 2"
proof -
  have "usage_count sample_db 1 0 \<le> 1" by (simp add: usage_count_def map_get_def)
  then show ?thesis
    using overlapping_runs_bounded [OF two_runs_reach(1)] by (simp add: sample_db_ok)
qed

text \<open>
  The bound is reached: with a daily budget of one call, two overlapping runs both pass the
  check before either is counted, and the day ends with two calls.
\<close>

theorem overlapping_runs_exceed_budget:
  "\<exists>s'. (overlap_step plain_engine 1 1 0 2)\<^sup>*\<^sup>* \<lparr>ov_db = sample_db, ov_fetching = {}\<rparr> s'
     \<and> usage_count (ov_db s') 1 0 = 2"
  using two_runs_reach by blast

end
