(* ===== verification/ProgramFacts.thy ===== *)
theory ProgramFacts
  imports Program HttpFacts SchedulerFacts
begin

text \<open>
  Facts about the whole program: what no request changes, the invariant of every reachable state
  of the running program, that a successful fetch makes a rate available, and which rows the
  jobs of a start belong to.
\<close>

section \<open>What requests leave alone\<close>

text \<open>A handler keeps the tables, the configuration of the server, and the soundness of the cache.\<close>

definition kept :: "duration \<Rightarrow> server \<Rightarrow> server \<Rightarrow> bool" where
  "kept ttl s s' \<longleftrightarrow> same_tables (sv_db s) (sv_db s') \<and> (srv_ok ttl s \<longrightarrow> srv_ok ttl s')
     \<and> (sv_cache s' = None \<longleftrightarrow> sv_cache s = None)
     \<and> sv_agg s' = sv_agg s \<and> sv_store s' = sv_store s \<and> sv_currencies s' = sv_currencies s
     \<and> sv_cacheTTL s' = sv_cacheTTL s \<and> sv_maxAge s' = sv_maxAge s"

lemma kept_refl [simp]: "kept ttl s s"
  by (simp add: kept_def)

lemma kept_trans: "kept ttl a b \<Longrightarrow> kept ttl b c \<Longrightarrow> kept ttl a c"
  by (auto simp: kept_def intro: same_tables_trans)

lemma kept_db: "same_tables (sv_db s) d \<Longrightarrow> kept ttl s (s\<lparr>sv_db := d\<rparr>)"
  by (simp add: kept_def srv_ok_steps)

lemma kept_cache:
  "kept ttl s (snd (cacheLookup now k s))" "kept ttl s (snd (cacheStore now k v s))"
proof -
  have "sv_maxAge (snd (cacheLookup now k s)) = sv_maxAge s" "sv_maxAge (snd (cacheStore now k v s)) = sv_maxAge s"
    "sv_store (snd (cacheStore now k v s)) = sv_store s"
    "sv_cache (snd (cacheLookup now k s)) = None \<longleftrightarrow> sv_cache s = None"
    "sv_cache (snd (cacheStore now k v s)) = None \<longleftrightarrow> sv_cache s = None"
    by (simp_all add: cacheLookup_def cacheStore_def split: option.split prod.split)
  then show "kept ttl s (snd (cacheLookup now k s))" "kept ttl s (snd (cacheStore now k v s))"
    by (simp_all add: kept_def srv_ok_steps)
qed

text \<open>Looking up, querying, storing: the shape of every handler with a cache.\<close>

lemma kept_query:
  assumes "\<And>d. same_tables d (snd (query d))"
  shows "kept ttl s ((snd (cacheLookup t k s))\<lparr>sv_db := snd (query (sv_db (snd (cacheLookup t k s))))\<rparr>)"
    and "kept ttl s (snd (cacheStore t' k' v ((snd (cacheLookup t k s))\<lparr>sv_db := snd (query (sv_db (snd (cacheLookup t k s))))\<rparr>)))"
  by (rule kept_trans [OF kept_cache(1) kept_db [OF assms]],
      rule kept_trans [OF kept_trans [OF kept_cache(1) kept_db [OF assms]] kept_cache(2)])

lemma kept_singleRate: "kept ttl s (snd (singleRate E dbtext clk base quote s))"
  unfolding singleRate_def Let_def case_prod_beta
  using kept_query [OF Compute_same] kept_cache(1)
  by (auto split: option.split sum.split)

lemma kept_rate_round: "kept ttl s (snd (rate_round E cfg clk base code c s))"
  unfolding rate_round_def case_prod_beta
  using kept_query [OF Compute_same] kept_cache(1)
  by (auto split: option.split sum.split)

lemma kept_rate_rounds: "kept ttl s (snd (rate_rounds E cfg clk base codes c s))"
proof (induction codes arbitrary: clk c s)
  case (Cons code codes)
  show ?case
    using kept_trans [OF kept_rate_round Cons.IH] by (simp add: case_prod_beta)
qed simp

lemma kept_ratesFromBase: "kept ttl s (snd (ratesFromBase order E clk base s))"
  unfolding ratesFromBase_def Let_def case_prod_beta
  using kept_rate_rounds by (auto split: option.split)

lemma all_rounds_same: "same_tables d (snd (all_rounds E cfg clk since codes out d))"
proof (induction codes arbitrary: clk out d)
  case (Cons code codes)
  have "same_tables d (snd (computeDirect E cfg clk code since d))" by (rule computeDirect_same)
  then show ?case using Cons.IH
    by (auto split: prod.split sum.split intro: same_tables_trans)
qed simp

lemma kept_allRates: "kept ttl s (snd (allRates order E clk s))"
proof -
  have "same_tables d (snd (AllCurrencies E cfg clk' codes d))" for cfg clk' codes d
    by (simp add: AllCurrencies_def all_rounds_same)
  note q = kept_query [OF this]
  show ?thesis
    unfolding allRates_def Let_def case_prod_beta
    using q kept_cache(1) by (auto split: option.split)
qed

lemma AggHistory_same: "same_tables d (snd (AggHistory E cfg from to start finish step d))"
proof -
  have "same_tables d (snd (historySide E q start finish step d))" for q d
    using same_tables_queries(6) [of d E q start finish step]
    by (auto simp: historySide_def split: prod.splits sum.splits)
  then show ?thesis
    by (auto simp: AggHistory_def Let_def case_prod_beta intro: same_tables_trans)
qed

lemma kept_history: "kept ttl s (snd (historyHandler E dbtext clk base quote q s))"
  unfolding historyHandler_def Let_def case_prod_beta
  using kept_query [OF AggHistory_same] kept_cache(1)
  by (auto split: option.split sum.split)

lemma used_today_same: "same_tables d (snd (used_today E p now d))"
  using same_tables_queries(5) [of d E p now] by (auto simp: used_today_def split: prod.split sum.split)

lemma refresh_budgets_same: "same_tables d (snd (refresh_budgets E now ps mx d))"
proof (induction ps arbitrary: mx d)
  case (Cons p ps)
  show ?case
    using same_tables_trans [OF used_today_same Cons.IH] by (simp add: Let_def case_prod_beta)
qed simp

lemma provider_views_same: "same_tables d (snd (provider_views E now ps d))"
proof (induction ps arbitrary: d)
  case (Cons p ps)
  show ?case
    using same_tables_trans [OF used_today_same Cons.IH] by (simp add: case_prod_beta)
qed simp

lemma kept_metrics: "kept ttl s (s\<lparr>sv_metrics := x\<rparr>)"
  by (simp add: kept_def srv_ok_def)

lemma kept_refresh: "kept ttl s (refreshProviderMetrics E clk s)"
proof -
  have "same_tables d (snd (refresh_budgets E now ps mx (snd (ListProviders E d))))" for d now ps mx
    using same_tables_trans [OF same_tables_queries(1) refresh_budgets_same] .
  then have "kept ttl s (s\<lparr>sv_db := snd (refresh_budgets E now ps mx (snd (ListProviders E (sv_db s)))), sv_metrics := x\<rparr>)" for now ps mx x
    using kept_trans [OF kept_db kept_metrics] by simp
  then show ?thesis
    unfolding refreshProviderMetrics_def Let_def case_prod_beta
    using kept_db [OF same_tables_queries(1)] by (auto split: option.split sum.split)
qed

lemma handle_kept: "kept ttl s (snd (handle w clk rt s))"
proof (cases rt)
  case Readyz
  then show ?thesis
    unfolding Readyz handle.simps readyz_def case_prod_beta
    using kept_db [OF same_tables_queries(4)] by (auto split: option.split sum.split)
next
  case MetricsText
  then show ?thesis using kept_refresh by (simp add: metricsHandler_def Let_def split: option.split)
next
  case ListedProviders
  have "same_tables d (snd (provider_views E now ps (snd (ListProviders E d))))" for E d now ps
    using same_tables_trans [OF same_tables_queries(1) provider_views_same] .
  then show ?thesis
    unfolding ListedProviders handle.simps handleProviders_def case_prod_beta
    using kept_db [OF same_tables_queries(1)] kept_db by (auto split: sum.split)
qed (simp_all add: healthz_def kept_singleRate kept_ratesFromBase kept_allRates kept_history)

section \<open>The invariant of the running program\<close>

text \<open>The provider of a job dates its readings at the time of the fetch.\<close>

definition dated :: "provider_job \<Rightarrow> bool" where
  "dated j \<longleftrightarrow> (\<forall>now base qs rs. pv_Fetch (j_Provider j) now base qs = Inr rs \<longrightarrow> (\<forall>r \<in> set rs. f_FetchedAt r = now))"

lemma dated_job: "dated (job_of h codes pc a pid)"
  unfolding dated_def job_of_def provider_of_def
  using ad.asked by (fastforce simp: reports_def)

definition ids_of :: "db \<Rightarrow> int set" where
  "ids_of d = pr_id ` set (providers d)"

text \<open>The jobs' ids exist in the table of providers if \<open>b\<close>, which depends on how the database was opened.\<close>

definition manager_ok :: "bool \<Rightarrow> manager \<Rightarrow> bool" where
  "manager_ok b m \<longleftrightarrow> db_ok (mg_db m) \<and> stamped (mg_db m) \<and> (\<forall>x. mg_metrics m = Some x \<longrightarrow> metrics_ok x)
     \<and> (\<forall>expr j. (expr, FetchJob j) \<in> set (mg_entries m) \<longrightarrow> (b \<longrightarrow> j_ProviderID j \<in> ids_of (mg_db m)) \<and> dated j)"

text \<open>The last insert id is that of a provider, or there is none, or the first upsert will insert.\<close>

definition rowid_ok :: "db \<Rightarrow> bool" where
  "rowid_ok d \<longleftrightarrow> last_rowid d = 0 \<or> last_rowid d \<in> ids_of d \<or> providers d = []"

lemma upsert_row_ids:
  fixes E :: engine and ts cfg :: string and p :: provider and d :: db
  assumes "rowid_ok d"
  defines "d' \<equiv> upsert_row E ts cfg p d"
  shows "(last_rowid d' = 0 \<or> last_rowid d' \<in> ids_of d') \<and> ids_of d \<subseteq> ids_of d'"
proof -
  have "set (map pr_id (update_named ts cfg p (providers d))) = set (map pr_id (providers d))" by (simp only: update_named_keeps)
  then have "ids_of (d\<lparr>providers := update_named ts cfg p (providers d)\<rparr>) = ids_of d" by (simp add: ids_of_def)
  then show ?thesis using assms(1)
    by (auto simp: d'_def upsert_row_def rowid_ok_def ids_of_def Let_def)
qed

lemma UpsertProvider_ids:
  assumes "UpsertProvider E now p d = (x, d')"
  shows "ids_of d \<subseteq> ids_of d'" and "rowid_ok d \<Longrightarrow> rowid_ok d' \<and> (\<forall>i. x = Inr i \<longrightarrow> i \<in> ids_of d')"
proof -
  define d0 where "d0 = d\<lparr>stmts := Suc (stmts d)\<rparr>"
  define d1 where "d1 = upsert_row E (fmt_rfc3339 now) (case json_enc E (p_Config p) of Some j \<Rightarrow> j | None \<Rightarrow> ''{}'') p d0"
  have s: "rowid_ok (d\<lparr>stmts := n\<rparr>) = rowid_ok d" "ids_of (d\<lparr>stmts := n\<rparr>) = ids_of d" for d n
    by (simp_all add: rowid_ok_def ids_of_def)
  have ids: "ids_of d \<subseteq> ids_of d1"
    using update_named_keeps(1) [of "fmt_rfc3339 now" _ p "providers d"]
    by (auto simp: d1_def d0_def upsert_row_def ids_of_def Let_def simp flip: set_map)
  have U: "(x, d') = (case fault E (stmts d) of Some e \<Rightarrow> (Inl e, d0)
      | None \<Rightarrow> if last_rowid d1 = 0 then stmt E (select_id (p_Name p)) d1 else (Inr (last_rowid d1), d1))"
    unfolding assms [symmetric] by (simp add: UpsertProvider_def stmt_def Let_def d0_def d1_def split: option.split)
  have sel: "snd (select_id n d2) = d2 \<and> (\<forall>i. fst (select_id n d2) = Inr i \<longrightarrow> i \<in> ids_of d2)" for n d2
    by (auto simp: select_id_def provider_by_name_def ids_of_def find_Some_iff split: option.split)
  have r1: "rowid_ok d \<Longrightarrow> last_rowid d1 = 0 \<or> last_rowid d1 \<in> ids_of d1"
    using upsert_row_ids [of d0] by (simp add: d1_def d0_def s)
  have "ids_of d \<subseteq> ids_of d' \<and> (rowid_ok d \<longrightarrow> rowid_ok d' \<and> (\<forall>i. x = Inr i \<longrightarrow> i \<in> ids_of d'))"
  proof (cases "fault E (stmts d)")
    case (Some e)
    then show ?thesis using U by (simp add: d0_def s)
  next
    case None
    show ?thesis
    proof (cases "last_rowid d1 = 0")
      case True
      then have "(x, d') = stmt E (select_id (p_Name p)) d1" using U None by simp
      then have "(d' = d1\<lparr>stmts := Suc (stmts d1)\<rparr>) \<and> (\<forall>i. x = Inr i \<longrightarrow> i \<in> ids_of d1)"
        using sel [of "p_Name p" "d1\<lparr>stmts := Suc (stmts d1)\<rparr>"]
        by (cases "fault E (stmts d1)") (auto simp: stmt_def s prod_eq_iff)
      then show ?thesis using ids True by (simp add: s rowid_ok_def)
    next
      case False
      then show ?thesis using U None ids r1 by (auto simp: rowid_ok_def)
    qed
  qed
  then show "ids_of d \<subseteq> ids_of d'" "rowid_ok d \<Longrightarrow> rowid_ok d' \<and> (\<forall>i. x = Inr i \<longrightarrow> i \<in> ids_of d')" by blast+
qed

text \<open>Registering keeps the manager sound and takes every job's id from the table of providers.\<close>

lemma manager_ok_db:
  assumes "manager_ok b m" and "db_ok d" and "stamped d" and "ids_of (mg_db m) \<subseteq> ids_of d"
  shows "manager_ok b (m\<lparr>mg_db := d\<rparr>)"
  using assms by (auto simp: manager_ok_def)

lemma register_ok:
  assumes "manager_ok b m" and "b \<longrightarrow> rowid_ok (mg_db m)"
  shows "manager_ok b (snd (register h codes pc m)) \<and> (b \<longrightarrow> rowid_ok (mg_db (snd (register h codes pc m))))"
proof (cases "IsEnabled pc")
  case enabled: True
  show ?thesis
  proof (cases "NewFromConfig pc")
    case (Inl e)
    then show ?thesis using assms by (simp add: register_def)
  next
    case a: (Inr a)
    obtain x d where u: "UpsertProvider (h_engine h) (h_now h (stmts (mg_db m))) (stored_provider pc) (mg_db m) = (x, d)" by fastforce
    note ids = UpsertProvider_ids [OF u]
    have "db_ok d" "readings d = readings (mg_db m)"
      using db_ok_UpsertProvider [of "mg_db m" "h_engine h" "h_now h (stmts (mg_db m))" "stored_provider pc"] readings_UpsertProvider [of "h_engine h" "h_now h (stmts (mg_db m))" "stored_provider pc" "mg_db m"]
        assms(1) by (simp_all add: u manager_ok_def)
    then have ok: "manager_ok b (m\<lparr>mg_db := d\<rparr>)"
      using manager_ok_db [OF assms(1)] ids assms(1) by (simp add: manager_ok_def stamped_def)
    show ?thesis
    proof (cases x)
      case (Inl e)
      then show ?thesis using ok ids(2) assms(2) by (simp add: register_def enabled a u)
    next
      case (Inr pid)
      let ?j = "job_of h codes pc a pid"
      have j: "b \<longrightarrow> j_ProviderID ?j \<in> ids_of d" "dated ?j" using ids(2) assms(2) Inr dated_job by (simp add: job_of_def, blast)
      have "manager_ok b (snd (Add (h_cron_error h) ?j sched (m\<lparr>mg_db := d\<rparr>)))
          \<and> mg_db (snd (Add (h_cron_error h) ?j sched (m\<lparr>mg_db := d\<rparr>))) = d" for sched
        using ok j by (auto simp: Add_def AddFunc_def manager_ok_def split: option.split)
      then show ?thesis using ids(2) assms(2) by (simp add: register_def enabled a u Inr case_prod_beta Let_def)
    qed
  qed
qed (use assms in \<open>simp add: register_def\<close>)

lemma register_all_ok:
  "manager_ok b m \<Longrightarrow> b \<longrightarrow> rowid_ok (mg_db m) \<Longrightarrow> manager_ok b (snd (register_all h codes pcs m))"
proof (induction pcs arbitrary: m)
  case (Cons pc pcs)
  show ?case using Cons.IH register_ok [OF Cons.prems] by (simp add: case_prod_beta)
qed simp

definition program_ok :: "bool \<Rightarrow> program \<Rightarrow> bool" where
  "program_ok b p \<longleftrightarrow> manager_ok b (pg_manager p) \<and> (\<exists>ttl. srv_ok ttl (pg_server p))"

lemma assemble_ok:
  assumes "db_ok d" and "stamped d" and "b \<longrightarrow> rowid_ok d"
  shows "program_ok b (assemble h c currencies d)"
proof -
  let ?m0 = "SetMetrics NewMetrics (NewManager d)"
  have "manager_ok b ?m0" using assms metrics_ok_new by (simp add: manager_ok_def SetMetrics_def NewManager_def)
  then have "manager_ok b (snd (register_all h codes pcs ?m0))" for codes pcs
    by (rule register_all_ok) (simp add: assms SetMetrics_def NewManager_def)
  then have "manager_ok b (Start (schedule_retention h days (snd (register_all h codes pcs ?m0))))" for days codes pcs
    by (auto simp: manager_ok_def Start_def schedule_retention_def AddFunc_def split: option.split)
  moreover have "srv_ok (ComputeTTL (cf_Cache c)) (NewServer d' \<lparr>op_Aggregator = agg, op_Store = st,
      op_Cache = Some (NewCache (ComputeTTL (cf_Cache c))), op_Currencies = cur, op_CacheTTL = t, op_Metrics = mx, op_MaxAge = ma\<rparr>)"
    for agg st d' cur t mx ma
    using rc.wf_new by (simp add: srv_ok_def NewServer_def)
  ultimately show ?thesis unfolding program_ok_def assemble_def Let_def
    by (intro conjI exI [of _ "ComputeTTL (cf_Cache c)"]) simp_all
qed

lemma stamped_insert_all:
  assumes "stamped d" and "\<forall>f \<in> set fs. fmt_range (f_FetchedAt f)"
  shows "stamped (snd (insert_all E pid fs d)) \<and> providers (snd (insert_all E pid fs d)) = providers d"
  using assms
proof (induction fs arbitrary: d)
  case (Cons f fs)
  obtain x d1 where ins: "InsertReading E (store_reading pid f) d = (x, d1)" by fastforce
  have "stamped (exec_op E (OpInsert (store_reading pid f)) d)"
    using Cons.prems by (intro stamped_exec_op) (simp_all add: op_in_range_def store_reading_def)
  then have "stamped d1" by (simp add: ins)
  moreover have "providers d1 = providers d"
    using arg_cong [OF ins, of "providers \<circ> snd"]
    by (auto simp: InsertReading_def insert_row_def Let_def split: stmt_splits if_splits)
  ultimately show ?case using Cons.IH [of d1] Cons.prems(2) by (cases x) (simp_all add: ins)
qed simp

lemma manager_ok_record: "manager_ok b m \<Longrightarrow> manager_ok b (recordSuccess n m) \<and> manager_ok b (recordError n m)"
  by (auto simp: manager_ok_def recordSuccess_def recordError_def metrics_ok_updates split: option.split)

lemma run_once_ok:
  assumes "manager_ok b m" and "(expr, FetchJob j) \<in> set (mg_entries m)" and "\<forall>i. fmt_range (clk i)"
  shows "manager_ok b (snd (RunOnce E clk j m))"
proof -
  let ?p = "j_ProviderID j"
  have d: "dated j" and ok: "db_ok (mg_db m)" "stamped (mg_db m)" using assms(1,2) by (auto simp: manager_ok_def)
  have keep: "manager_ok b (m\<lparr>mg_db := d'\<rparr>)" if "db_ok d'" "stamped d'" "providers d' = providers (mg_db m)" for d'
    using that manager_ok_db [OF assms(1)] by (simp add: ids_of_def)
  obtain x d1 where u: "UsageToday E ?p (clk 0) (mg_db m) = (x, d1)" by fastforce
  have same: "same_tables (mg_db m) d1" using same_tables_queries(5) [of "mg_db m" E ?p "clk 0"] by (simp add: u)
  then obtain n where "d1 = (mg_db m)\<lparr>stmts := n\<rparr>" by (auto simp: same_tables_def)
  then have d1: "db_ok d1" "stamped d1" "providers d1 = providers (mg_db m)" using ok by (simp_all add: stamped_def)
  show ?thesis
  proof (cases x)
    case (Inl e)
    then show ?thesis using keep [OF d1] by (simp add: RunOnce_def Let_def u)
  next
    case (Inr used)
    show ?thesis
    proof (cases "BudgetAllowed used (j_CallsPerDay j)")
      case False
      then show ?thesis using keep [OF d1] Inr by (simp add: RunOnce_def Let_def u)
    next
      case allowed: True
      show ?thesis
      proof (cases "pv_Fetch (j_Provider j) (clk 2) (j_Base j) (j_CurrencyCodes j)")
        case (Inl e)
        then show ?thesis using manager_ok_record keep [OF d1] Inr allowed \<open>x = Inr used\<close>
          by (simp add: RunOnce_def Let_def u)
      next
        case fs: (Inr fs)
        obtain y d2 where ins: "insert_all E ?p fs d1 = (y, d2)" by fastforce
        have "\<forall>f \<in> set fs. fmt_range (f_FetchedAt f)" using d fs assms(3) by (auto simp: dated_def)
        then have d2: "stamped d2" "providers d2 = providers (mg_db m)" "db_ok d2"
          using stamped_insert_all [OF d1(2), of fs E ?p] insert_all_frame [of E ?p fs d1] d1 by (simp_all add: ins)
        obtain z d3 where inc: "IncrementUsage E ?p (clk 1) d2 = (z, d3)" by fastforce
        have d3: "db_ok d3" "readings d3 = readings d2"
          using db_ok_IncrementUsage [OF d2(3), of E ?p "clk 1"] readings_IncrementUsage [of E ?p "clk 1" d2] by (simp_all add: inc del: One_nat_def)
        have "providers d3 = providers d2"
          using arg_cong [OF inc, of "providers \<circ> snd"]
          by (auto simp: IncrementUsage_def Let_def split: stmt_splits option.splits)
        then have ok3: "manager_ok b (m\<lparr>mg_db := d3\<rparr>)" and ok2: "manager_ok b (m\<lparr>mg_db := d2\<rparr>)"
          using keep d2 d3 by (simp_all add: stamped_def)
        show ?thesis
          using manager_ok_record ok3 ok2 Inr allowed fs ins inc
          by (auto simp: RunOnce_def Let_def u split: sum.split)
      qed
    qed
  qed
qed

lemma run_entry_ok:
  assumes "manager_ok b m" and "(expr, fn) \<in> set (mg_entries m)" and "\<forall>i. fmt_range (clk i)"
  shows "manager_ok b (run_entry E clk fn m)"
proof (cases fn)
  case (FetchJob j)
  then show ?thesis using run_once_ok [OF assms(1) _ assms(3)] assms(2) by (simp add: runWithTimeout_def)
next
  case (PruneJob retention)
  let ?d = "snd (Prune E (clk 0) retention (mg_db m))"
  have "db_ok ?d" "stamped ?d" using assms(1) by (simp_all add: Prune_def manager_ok_def db_ok_PruneOlderThan stamped_prune)
  moreover have "providers ?d = providers (mg_db m)"
    by (auto simp: Prune_def PruneOlderThan_def Let_def split: stmt_split)
  ultimately show ?thesis using PruneJob manager_ok_db [OF assms(1)] by (simp add: ids_of_def)
qed

lemma run_entry_frame: "mg_entries (run_entry E clk fn m) = mg_entries m \<and> mg_running (run_entry E clk fn m) = mg_running m"
  by (cases fn) (auto simp: runWithTimeout_def RunOnce_def Let_def recordSuccess_def recordError_def
      split: prod.split sum.split option.split)

lemma refresh_metrics_ok:
  assumes "\<forall>x. sv_metrics s = Some x \<longrightarrow> metrics_ok x"
  shows "\<forall>x. sv_metrics (snd (handle w clk rt s)) = Some x \<longrightarrow> metrics_ok x"
proof -
  have b: "metrics_ok mx \<Longrightarrow> metrics_ok (fst (refresh_budgets E now ps mx d))" for E now ps mx d
  proof (induction ps arbitrary: mx d)
    case (Cons p ps)
    then show ?case by (simp add: Let_def case_prod_beta metrics_ok_updates split: option.split)
  qed simp
  have c: "sv_metrics (snd (cacheLookup t k s)) = sv_metrics s" "sv_metrics (snd (cacheStore t k v s)) = sv_metrics s" for t k v s
    by (simp_all add: cacheLookup_def cacheStore_def split: option.split prod.split)
  have r: "sv_metrics (snd (rate_round E cfg clk base code col s)) = sv_metrics s" for E cfg clk base code col s
    unfolding rate_round_def case_prod_beta by (auto simp: c split: option.split sum.split)
  have rs: "sv_metrics (snd (rate_rounds E cfg clk base codes col s)) = sv_metrics s" for E cfg clk base codes col s
    by (induction codes arbitrary: clk col s) (simp_all add: case_prod_beta r)
  show ?thesis
  proof (cases rt)
    case MetricsText
    then show ?thesis using assms
      by (auto simp: metricsHandler_def refreshProviderMetrics_def Let_def case_prod_beta metrics_ok_updates b
          split: option.split sum.split)
  next
    case ListedProviders
    then show ?thesis using assms
      unfolding ListedProviders handle.simps handleProviders_def case_prod_beta by (auto split: sum.split)
  next
    case Readyz
    then show ?thesis using assms
      unfolding Readyz handle.simps readyz_def case_prod_beta by (auto split: sum.split option.split)
  next
    case AllRates
    then show ?thesis using assms
      unfolding AllRates handle.simps allRates_def case_prod_beta Let_def by (auto simp: c split: option.split)
  next
    case (RatesFrom base)
    then show ?thesis using assms
      unfolding RatesFrom handle.simps ratesFromBase_def case_prod_beta Let_def by (auto simp: rs split: option.split)
  next
    case (SingleRate base quote)
    then show ?thesis using assms
      unfolding SingleRate handle.simps singleRate_def case_prod_beta Let_def by (auto simp: c split: option.split sum.split)
  next
    case (RateHistory base quote q)
    then show ?thesis using assms
      unfolding RateHistory handle.simps historyHandler_def case_prod_beta Let_def by (auto simp: c split: option.split sum.split)
  qed (use assms in \<open>simp add: healthz_def\<close>)
qed

lemma serve_ok:
  assumes "program_ok b p"
  shows "program_ok b (snd (serve w clk rt p))"
proof -
  let ?m = "pg_manager p"
  let ?s = "(pg_server p)\<lparr>sv_db := mg_db ?m, sv_metrics := mg_metrics ?m\<rparr>"
  let ?s' = "snd (handle w clk rt ?s)"
  obtain ttl where ttl: "srv_ok ttl (pg_server p)" and m: "manager_ok b ?m" using assms by (auto simp: program_ok_def)
  then have "srv_ok ttl ?s" by (simp add: srv_ok_def)
  then have s': "srv_ok ttl ?s'" "same_tables (mg_db ?m) (sv_db ?s')"
    using handle_kept [of ttl ?s w clk rt] by (simp_all add: kept_def)
  then obtain n where n: "sv_db ?s' = (mg_db ?m)\<lparr>stmts := n\<rparr>" by (auto simp: same_tables_def)
  have x: "\<forall>x. sv_metrics ?s' = Some x \<longrightarrow> metrics_ok x"
    by (rule refresh_metrics_ok) (use m in \<open>simp add: manager_ok_def\<close>)
  have "manager_ok b (?m\<lparr>mg_db := sv_db ?s', mg_metrics := sv_metrics ?s'\<rparr>)"
    using m x by (auto simp: manager_ok_def n stamped_def ids_of_def)
  then show ?thesis using s'(1) by (auto simp: program_ok_def serve_def case_prod_beta)
qed

lemma program_step_ok:
  assumes "program_step w p p'" and "program_ok b p"
  shows "program_ok b p' \<and> mg_entries (pg_manager p') = mg_entries (pg_manager p)"
  using assms(1)
proof (rule program_stepE)
  fix expr fn clk
  assume "p' = p\<lparr>pg_manager := run_entry (w_engine w) clk fn (pg_manager p)\<rparr>"
    "(expr, fn) \<in> set (mg_entries (pg_manager p))" "\<forall>i. fmt_range (clk i)"
  then show ?thesis
    using run_entry_ok [of b "pg_manager p" expr fn clk "w_engine w"] run_entry_frame assms(2) by (auto simp: program_ok_def)
next
  fix clk rt
  assume "p' = snd (serve w clk rt p)"
  then show ?thesis using serve_ok [OF assms(2)] by (simp add: serve_def case_prod_beta)
qed

lemma startup_assemble:
  assumes "startup h = Inr p"
  shows "\<exists>c cur f. LoadCurrencies (h_env h) = Inr cur
    \<and> Load (h_read_file h) (h_yaml h) (envOr (h_env h) ''ARGOSFX_CONFIG_PATH'' ''/etc/argosfx/config.yaml'') = Inr c
    \<and> Open (h_engine h) (h_migrated_at h) (h_migrations h) (fst (h_disk h (db_path h))) = (None, f)
    \<and> p = assemble h c cur (opened (fst (h_disk h (db_path h))) f (snd (h_disk h (db_path h))))"
proof -
  obtain before tables where disk: "h_disk h (db_path h) = (before, tables)" by fastforce
  show ?thesis
    using assms unfolding startup_def disk Let_def prod.case fst_conv snd_conv
    by (auto split: sum.splits option.splits prod.splits)
qed

lemma apply_all_nothing:
  "set names \<subseteq> set (applied_names f) \<Longrightarrow> apply_all E now names f = (None, f') \<Longrightarrow> applied_names f' = applied_names f"
proof (induction names arbitrary: f)
  case (Cons name names)
  have "applied_names (f\<lparr>df_stmts := Suc (df_stmts f)\<rparr>) = applied_names f" by simp
  then show ?case using Cons.IH [of "f\<lparr>df_stmts := Suc (df_stmts f)\<rparr>"] Cons.prems
    by (auto simp: fstmt_def split: option.splits)
qed simp

text \<open>Opening a database without tables of providers, or with nothing left to migrate.\<close>

definition steady :: "host \<Rightarrow> bool" where
  "steady h \<longleftrightarrow> providers (snd (h_disk h (db_path h))) = []
     \<or> set (migration_names (h_migrations h)) \<subseteq> set (applied_names (fst (h_disk h (db_path h))))"

lemma opened_rowid:
  assumes "Open (h_engine h) (h_migrated_at h) (h_migrations h) (fst (h_disk h (db_path h))) = (None, f)" and "steady h"
  shows "rowid_ok (opened (fst (h_disk h (db_path h))) f (snd (h_disk h (db_path h))))"
proof (cases "providers (snd (h_disk h (db_path h))) = []")
  case False
  then have "set (migration_names (h_migrations h)) \<subseteq> set (applied_names (fst (h_disk h (db_path h))))"
    using assms(2) by (simp add: steady_def)
  moreover obtain g where "apply_all (h_engine h) (h_migrated_at h) (migration_names (h_migrations h)) g = (None, f)"
    "applied_names g = applied_names (fst (h_disk h (db_path h)))" by (rule Open_apply [OF assms(1)])
  ultimately have "applied_names f = applied_names (fst (h_disk h (db_path h)))" using apply_all_nothing by metis
  then show ?thesis by (simp add: rowid_ok_def opened_def)
qed (simp add: rowid_ok_def opened_def)

lemma startup_ok:
  assumes "startup h = Inr p" and "db_ok (snd (h_disk h (db_path h)))" and "stamped (snd (h_disk h (db_path h)))"
  shows "program_ok (steady h) p"
proof -
  obtain c cur f where f: "Open (h_engine h) (h_migrated_at h) (h_migrations h) (fst (h_disk h (db_path h))) = (None, f)"
    and p: "p = assemble h c cur (opened (fst (h_disk h (db_path h))) f (snd (h_disk h (db_path h))))"
    using startup_assemble [OF assms(1)] by blast
  have "db_ok (opened x f (snd (h_disk h (db_path h))))" "stamped (opened x f (snd (h_disk h (db_path h))))" for x
    using assms(2,3) by (simp_all add: opened_def db_ok_defs stamped_def)
  then show ?thesis unfolding p using opened_rowid [OF f] by (intro assemble_ok) blast+
qed

text \<open>Every step keeps the entries, the allowed currencies and the configuration of the aggregator.\<close>

lemma step_config:
  assumes "program_step w p p'"
  shows "sv_agg (pg_server p') = sv_agg (pg_server p) \<and> sv_currencies (pg_server p') = sv_currencies (pg_server p)
    \<and> (sv_cache (pg_server p') = None \<longleftrightarrow> sv_cache (pg_server p) = None)"
  using assms
proof (rule program_stepE)
  fix clk rt
  assume "p' = snd (serve w clk rt p)"
  then show ?thesis
    using handle_kept [of "0" "(pg_server p)\<lparr>sv_db := mg_db (pg_manager p), sv_metrics := mg_metrics (pg_manager p)\<rparr>" w clk rt]
    by (simp add: serve_def case_prod_beta kept_def)
qed simp

lemma reachable_ok:
  assumes "(program_step w)\<^sup>*\<^sup>* p p'" and "program_ok b p"
  shows "program_ok b p' \<and> mg_entries (pg_manager p') = mg_entries (pg_manager p)
    \<and> sv_agg (pg_server p') = sv_agg (pg_server p) \<and> sv_currencies (pg_server p') = sv_currencies (pg_server p)
    \<and> (sv_cache (pg_server p') = None \<longleftrightarrow> sv_cache (pg_server p) = None)"
  using assms(1)
proof (induction rule: rtranclp_induct)
  case (step q r)
  then show ?case using program_step_ok [OF step(2), of b] step_config [OF step(2)] by simp
qed (simp add: assms(2))

lemma step_running: "program_step w p p' \<Longrightarrow> mg_running (pg_manager p') = mg_running (pg_manager p)"
  by (erule program_stepE) (simp_all add: run_entry_frame serve_def case_prod_beta)

text \<open>What holds in every phase: the manager runs until \<open>main\<close> has returned.\<close>

definition life_ok :: "bool \<Rightarrow> (string \<times> cron_fn) list \<Rightarrow> phase \<times> program \<Rightarrow> bool" where
  "life_ok b es x \<longleftrightarrow> program_ok b (snd x) \<and> mg_entries (pg_manager (snd x)) = es
     \<and> fst x \<in> {Serving, ShuttingDown, Finished 0, Finished 1} \<and> mg_running (pg_manager (snd x)) = (fst x \<noteq> Finished 0)"

lemma life_step_ok:
  assumes "life_step w x y" and "life_ok b es x"
  shows "life_ok b es y"
  using assms(1)
proof cases
  case (work ph p p')
  then show ?thesis using assms(2) program_step_ok [OF work(4), of b] step_running [OF work(4)] by (auto simp: life_ok_def)
qed (use assms(2) in \<open>auto simp: life_ok_def program_ok_def manager_ok_def Stop_def\<close>)

lemma life_reachable_ok: "(life_step w)\<^sup>*\<^sup>* x y \<Longrightarrow> life_ok b es x \<Longrightarrow> life_ok b es y"
  by (induction rule: rtranclp_induct) (auto intro: life_step_ok)

lemma startup_running: "startup h = Inr p \<Longrightarrow> mg_running (pg_manager p)"
  by (drule startup_assemble) (auto simp: assemble_def Let_def Start_def)

text \<open>
  C2: the invariant of the process, from a successful start on a sound database to its end. In
  every state that any interleaving of scheduled runs, requests and the shutdown reaches,
  whatever fails on the way, the tables are consistent and hold only times the code can read
  back, the scheduled entries are those of the start, and the response cache and the metrics are
  sound; the manager runs until \<open>main\<close> has returned, and nothing happens after the exit, whose
  status is 0 or 1. If the start has not migrated a database that already had providers, every
  scheduled job books its readings and its usage on an existing provider.
\<close>

theorem program_invariant:
  assumes "startup h = Inr p" and "db_ok (snd (h_disk h (db_path h)))" and "stamped (snd (h_disk h (db_path h)))"
    and "(life_step w)\<^sup>*\<^sup>* (Serving, p) (ph, p')"
  shows "db_ok (mg_db (pg_manager p')) \<and> stamped (mg_db (pg_manager p'))
    \<and> mg_entries (pg_manager p') = mg_entries (pg_manager p)
    \<and> (steady h \<longrightarrow> (\<forall>expr j. (expr, FetchJob j) \<in> set (mg_entries (pg_manager p')) \<longrightarrow>
         j_ProviderID j \<in> pr_id ` set (providers (mg_db (pg_manager p')))))
    \<and> (\<forall>c. sv_cache (pg_server p') = Some c \<longrightarrow> map_wf (c_items c) \<and> 0 < sint (c_ttl c))
    \<and> (\<forall>x. mg_metrics (pg_manager p') = Some x \<longrightarrow> metrics_ok x)
    \<and> mg_running (pg_manager p') = (ph \<noteq> Finished 0)
    \<and> (\<forall>n. ph = Finished n \<longrightarrow> (n = 0 \<or> n = 1) \<and> (\<nexists>y. life_step w (ph, p') y))"
proof -
  let ?b = "steady h" and ?es = "mg_entries (pg_manager p)"
  have "life_ok ?b ?es (Serving, p)" using startup_ok [OF assms(1-3)] startup_running [OF assms(1)] by (simp add: life_ok_def)
  then have life: "life_ok ?b ?es (ph, p')" by (rule life_reachable_ok [OF assms(4)])
  then obtain ttl where ok: "manager_ok ?b (pg_manager p')" "srv_ok ttl (pg_server p')" by (auto simp: life_ok_def program_ok_def)
  have "0 < sint (c_ttl (NewCache ttl))" by (simp add: NewCache_ttl)
  then have "\<forall>c. sv_cache (pg_server p') = Some c \<longrightarrow> map_wf (c_items c) \<and> 0 < sint (c_ttl c)"
    using ok(2) by (auto simp only: srv_ok_def cache_wf_def)
  moreover have "(n = 0 \<or> n = 1) \<and> (\<nexists>y. life_step w (ph, p') y)" if "ph = Finished n" for n
    using life that by (auto simp: life_ok_def life_step_finished)
  ultimately show ?thesis using ok(1) life unfolding manager_ok_def ids_of_def life_ok_def by (simp; blast)
qed

definition sample_host :: host where
  "sample_host = \<lparr>h_env = (\<lambda>k. if k = ''ARGOSFX_CURRENCIES'' then ''EUR'' else []), h_read_file = (\<lambda>_. Inr []),
     h_yaml = (\<lambda>_. Inr Config.sample_config), h_disk = (\<lambda>_. (new_file, empty_db)), h_migrations = [], h_engine = plain_engine,
     h_cron_error = (\<lambda>_. None), h_send = (\<lambda>_ _ _ _. Inl []), h_bad_url = (\<lambda>_. None), h_order = (\<lambda>xs. xs), h_migrated_at = (\<lambda>_. 0), h_now = (\<lambda>_. 0)\<rparr>"

lemma sample_currencies: "LoadCurrencies (h_env sample_host) = Inr [(''EUR'', ()), (''USD'', ())]"
proof -
  have "TrimSpace ''EUR'' = ''EUR''" by (rule TrimSpace_letters) (simp_all add: letter_def)
  then show ?thesis by (simp add: LoadCurrencies_def sample_host_def Let_def map_get_def map_set_def)
qed

lemma sample_start: "\<exists>p. startup sample_host = Inr p"
proof -
  note sample_currencies
  moreover have "Load (h_read_file sample_host) (h_yaml sample_host) path = Inr (applyDefaults Config.sample_config)" for path
    by (simp add: sample_host_def Load_def Let_def Validate_def applyDefaults_def Config.sample_config_def map_defs)
  moreover have "\<exists>f. Open plain_engine now [] new_file = (None, f)" for now
    by (simp add: Open_def migrate_def fstmt_def migration_names_def)
  then obtain f where "Open plain_engine (\<lambda>_. 0) [] new_file = (None, f)" by blast
  ultimately show ?thesis by (simp add: startup_def Let_def) (simp add: sample_host_def)
qed

definition plain_world :: world where
  "plain_world = \<lparr>w_engine = plain_engine, w_dbtext = (\<lambda>_. []), w_order = (\<lambda>xs. xs)\<rparr>"

theorem program_invariant_witness:
  "\<exists>p p'. startup sample_host = Inr p \<and> (life_step plain_world)\<^sup>*\<^sup>* (Serving, p) (Finished 0, p')
     \<and> db_ok (mg_db (pg_manager p')) \<and> \<not> mg_running (pg_manager p')"
proof -
  obtain p where p: "startup sample_host = Inr p" using sample_start by blast
  have d: "db_ok (snd (h_disk sample_host path))" "stamped (snd (h_disk sample_host path))" for path
    by (simp_all add: sample_host_def db_ok_empty) (simp add: stamped_def empty_db_def)
  let ?p1 = "snd (serve plain_world (\<lambda>_. 0) ListedProviders p)"
  have "life_step plain_world (Serving, p) (Serving, ?p1)" by (rule work) (simp_all add: request)
  moreover have "life_step plain_world (Serving, ?p1) (ShuttingDown, ?p1)" by (rule signal)
  moreover have "life_step plain_world (ShuttingDown, ?p1) (Finished 0, ?p1\<lparr>pg_manager := Stop (pg_manager ?p1)\<rparr>)" by (rule return)
  ultimately have r: "(life_step plain_world)\<^sup>*\<^sup>* (Serving, p) (Finished 0, ?p1\<lparr>pg_manager := Stop (pg_manager ?p1)\<rparr>)"
    by (meson converse_rtranclp_into_rtranclp rtranclp.rtrancl_refl)
  from program_invariant [OF p d r] p r show ?thesis by blast
qed

section \<open>A fetched rate is served\<close>

lemma side_spec_wff:
  assumes "side_spec cfg vs = Inr v" and "\<forall>x \<in> set vs. wff x"
  shows "wff v"
proof -
  let ?ws = "FilterOutliers vs (fdiv (OutlierTolerancePct cfg) (Fin 100))"
  have "\<forall>x \<in> set (sort ?ws). wff x" using FilterOutliers_set assms(2) by auto
  moreover have "sort ?ws ! (length ?ws div 2) \<in> set (sort ?ws)" if "?ws \<noteq> []"
    using that by (intro nth_mem) (simp add: div_less_dividend)
  ultimately have "wff (fst (Median ?ws))" by (auto simp: Median_def Let_def)
  then show ?thesis using assms(1) by (simp add: side_spec_def split: if_splits)
qed

text \<open>With a fresh newest reading and a minimum of at most one provider, \<open>Compute\<close> finds the rate of the specification.\<close>

lemma Compute_finds:
  assumes "engine_ok E" and "db_ok d" and "stamped d" and "\<forall>n. fault E n = None"
    and "fmt_range (oldest_allowed cfg (clk 0))" and "sint (MinProviders cfg) \<le> 1"
    and "r \<in> set (rate_rows q (oldest_allowed cfg (clk 0)) d)"
    and "q \<noteq> []" and "to_upper q = q" and "Base cfg \<noteq> []" and "to_upper (Base cfg) = Base cfg" and "q \<noteq> Base cfg"
  obtains res d' where "Compute E cfg clk (Base cfg) q d = (Inr res, d')"
    and "rate_spec cfg (stored_rates (oldest_allowed cfg (clk 0)) d) (Base cfg) q = Inr (res_Rate res)"
    and "set (res_ProvidersUsed res) \<subseteq> pr_name ` set (providers d)"
proof -
  let ?x = "fst (Compute E cfg clk (Base cfg) q d)" and ?R = "stored_rates (oldest_allowed cfg (clk 0)) d"
  have "store_good d" using assms(2,3) by (simp add: store_good_def)
  then have view: "rate_of ?x = rate_spec cfg ?R (Base cfg) q"
    using Compute_view [where cfg = cfg and clk = clk, OF assms(1) _ assms(5,4), of d "Base cfg" q] assms(9,11) by simp
  have "length (?R q) \<noteq> 0" using assms(7) by (auto simp: stored_rates_def)
  then have "\<not> int (length (?R q)) < sint (MinProviders cfg)" using assms(6) by linarith
  then have "\<exists>v. rate_of ?x = Inr v" unfolding view using assms(8,10) by (simp add: rate_spec_def side_spec_def)
  then obtain res d' where res: "Compute E cfg clk (Base cfg) q d = (Inr res, d')"
    by (cases "Compute E cfg clk (Base cfg) q d"; cases ?x) auto
  then have "computeDirect E cfg (shift 1 clk) q (oldest_allowed cfg (clk 0)) d = (Inr res, d')"
    using assms(8-12) by (simp add: Compute_def Let_def)
  then show thesis using that [OF res] view res used_names by (simp add: rate_of_def)
qed

lemma LoadCurrencies_usd: "LoadCurrencies env = Inr m \<Longrightarrow> map_get m ''USD'' \<noteq> None"
  by (auto simp: LoadCurrencies_def Let_def map_get_def map_set_def update_conv split: if_splits sum.splits)

text \<open>
  C3: what is fetched is served. Take any state the program reaches after a start that does not
  migrate a database with providers, with a working database from then on, a minimum of one
  provider, and stored rates that are binary64 numbers. Let a scheduled job within its budget run,
  and its provider report a rate of an allowed currency other than the base, no row of that
  provider and currency being newer. If that report is within the maximum age and the pair is not
  in the cache, then the reported rate is one of the fresh newest rates of the currency, and a
  request for the pair, in any letter case, is answered with status 200 and the filtered median
  of those rates, which is the reported rate itself if there is no other; only a median that
  overflows gives an empty body. Names and codes are assumed to be valid UTF-8.
\<close>

theorem fetched_rate_is_served:
  assumes "startup h = Inr p0" and "db_ok (snd (h_disk h (db_path h)))" and "stamped (snd (h_disk h (db_path h)))"
    and "steady h" and "(program_step w)\<^sup>*\<^sup>* p0 p" and "(expr, FetchJob j) \<in> set (mg_entries (pg_manager p))"
    and "engine_ok (w_engine w)" and "\<forall>n. fault (w_engine w) n = None" and "\<forall>i. fmt_range (clk i)"
    and "BudgetAllowed (usage_count (mg_db (pg_manager p)) (j_ProviderID j) (clk 0)) (j_CallsPerDay j)"
    and "pv_Fetch (j_Provider j) (clk 2) (j_Base j) (j_CurrencyCodes j) = Inr fs"
    and "\<forall>f \<in> set fs. f_Rate f \<noteq> NaN \<and> wff (f_Rate f)" and "f \<in> set fs" and "f_Quote f = to_upper quote" and "quote \<noteq> []"
    and "\<forall>r \<in> set (readings (mg_db (pg_manager p))). wff (rr_rate r) \<and>
      (rr_provider_id r = j_ProviderID j \<longrightarrow> rr_quote r = to_upper quote \<longrightarrow> row_time r \<le> to_second (clk 2))"
    and "isAllowed (pg_server p) (to_upper quote)" and "to_upper base = ''USD''" and "to_upper quote \<noteq> ''USD''"
    and "valid_utf8 (to_upper quote)" and "\<forall>r \<in> set (providers (mg_db (pg_manager p))). valid_utf8 (pr_name r)"
    and "sv_agg (pg_server p) = Some cfg" and "sint (MinProviders cfg) \<le> 1"
    and "fmt_range (oldest_allowed cfg (clk' 1))" and "oldest_allowed cfg (clk' 1) \<le> clk 2"
    and "fst (cacheLookup (clk' 0) (rate_key ''USD'' (to_upper quote)) (pg_server p)) = None"
    and "p' = p\<lparr>pg_manager := run_entry (w_engine w) clk (FetchJob j) (pg_manager p)\<rparr>"
    and "R = stored_rates (oldest_allowed cfg (clk' 1)) (mg_db (pg_manager p'))"
    and "answer = fst (serve w clk' (SingleRate base quote) p')"
  shows "f_Rate f \<in> set (R (to_upper quote)) \<and> rp_status answer = 200
    \<and> (\<exists>v. rate_spec cfg R ''USD'' (to_upper quote) = Inr v \<and> (R (to_upper quote) = [f_Rate f] \<longrightarrow> v = f_Rate f)
        \<and> (if ffinite v
           then \<exists>a. single_decode (rp_body answer) = Some a \<and> sr_From a = ''USD'' \<and> sr_To a = to_upper quote \<and> sr_Rate a = v
           else rp_body answer = []))"
proof -
  let ?E = "w_engine w" and ?m = "pg_manager p" and ?q = "to_upper quote" and ?since = "oldest_allowed cfg (clk' 1)"
  let ?m' = "run_entry ?E clk (FetchJob j) ?m"
  let ?s = "(pg_server p)\<lparr>sv_db := mg_db ?m', sv_metrics := mg_metrics ?m'\<rparr>"
  have p': "pg_manager p' = ?m'" "pg_server p' = pg_server p" by (simp_all add: assms(27))
  have ok0: "program_ok True p0" using startup_ok [OF assms(1-3)] assms(4) by simp
  note reach = reachable_ok [OF assms(5) ok0]
  obtain c cur where p0: "sv_agg (pg_server p0) = Some (aggregator_of c)" "sv_currencies (pg_server p0) = cur"
      "sv_cache (pg_server p0) \<noteq> None" and cur: "LoadCurrencies (h_env h) = Inr cur"
    using startup_assemble [OF assms(1)] by (auto simp: assemble_def Let_def NewServer_def)
  have usd: "map_get cur ''USD'' \<noteq> None" using cur LoadCurrencies_usd by blast
  have base: "Base cfg = ''USD''" using reach p0(1) assms(22) by (auto simp: aggregator_of_def New_def)
  have up: "to_upper ''USD'' = ''USD''" "valid_utf8 ''USD''" by code_simp+
  have m: "manager_ok True ?m" using reach by (simp add: program_ok_def)
  then have "manager_ok True ?m'" by (rule run_entry_ok [OF _ assms(6,9)])
  then have m': "db_ok (mg_db ?m')" "stamped (mg_db ?m')" by (simp_all add: manager_ok_def)
  have known: "j_ProviderID j \<in> pr_id ` set (providers (mg_db ?m))" "dated j" "db_ok (mg_db ?m)"
    using m assms(6) by (auto simp: manager_ok_def ids_of_def)
  obtain d new where run: "RunOnce ?E clk j ?m = (Inr (), recordSuccess (pv_Name (j_Provider j)) (?m\<lparr>mg_db := d\<rparr>))"
      "readings d = readings (mg_db ?m) @ new" "list_all2 (stored_as (j_ProviderID j)) fs new" "providers d = providers (mg_db ?m)"
    using RunOnce_success [OF known(3) assms(8) known(1) _ assms(10,11)] assms(9,12) by metis
  have d: "mg_db ?m' = d" using run(1) by (simp add: runWithTimeout_def recordSuccess_def split: option.split)
  have new: "\<exists>g \<in> set fs. stored_as (j_ProviderID j) g x" if "x \<in> set new" for x
    using that run(3) unfolding list_all2_conv_all_nth in_set_conv_nth by (metis nth_mem)
  have times: "row_time x = to_second (clk 2)" if "stored_as (j_ProviderID j) g x" "g \<in> set fs" for g x
    using that known(2) assms(9,11) by (auto simp: stored_as_def dated_def row_time_def parse_or_zero_fmt)
  obtain r where r: "r \<in> set new" "stored_as (j_ProviderID j) f r"
    using run(3) assms(13) unfolding list_all2_conv_all_nth in_set_conv_nth by metis
  have rq: "rr_quote r = ?q" "rr_provider_id r = j_ProviderID j" "rr_rate r = f_Rate f" using r(2) assms(14) by (simp_all add: stored_as_def)
  have t: "row_time r = to_second (clk 2)" by (rule times [OF r(2) assms(13)])
  have "newest_row d r"
    unfolding newest_row_def run(2) t rq using assms(16) times new by fastforce
  then have row: "r \<in> set (rate_rows ?q ?since d)"
    using r(1) to_second_mono [OF assms(25)] by (simp add: rate_rows_def run(2) t rq(1) to_upper_idem)
  have R: "R = stored_rates ?since d" by (simp only: assms(28) p'(1) d)
  then have mem: "f_Rate f \<in> set (R ?q)" using row unfolding stored_rates_def by (force simp: rq(3))
  obtain res d' where res: "Compute ?E cfg (shift 1 clk') ''USD'' ?q d = (Inr res, d')"
      "rate_spec cfg R ''USD'' ?q = Inr (res_Rate res)" "set (res_ProvidersUsed res) \<subseteq> pr_name ` set (providers d)"
    by (rule Compute_finds [OF assms(7) m'[unfolded d] assms(8), where cfg = cfg and clk = "shift 1 clk'" and r = r and q = ?q])
      (use assms(15,19,23,24) row up in \<open>simp_all add: base shift_def R\<close>)
  have "\<forall>x \<in> set (R ?q). wff x"
    using assms(12,16) new unfolding R stored_rates_def rate_rows_def run(2) by (force simp: stored_as_def)
  then have wff: "wff (res_Rate res)"
    using res(2) side_spec_wff assms(15,19) by (auto simp: rate_spec_def base split: if_splits)
  have one: "res_Rate res = f_Rate f" if "R ?q = [f_Rate f]"
    using res(2) assms(15,19) by (simp add: rate_spec_def base side_spec_def that FilterOutliers_id Median_def split: if_splits)
  have names: "\<forall>n \<in> set (res_ProvidersUsed res). valid_utf8 n" using res(3) assms(21) by (auto simp: run(4))
  have allowed: "isAllowed ?s (to_upper base)" "isAllowed ?s ?q" "sv_agg ?s = Some cfg"
    using usd reach p0(2) assms(17,18,22) by (simp_all add: isAllowed_def)
  have "sv_db ?s = d" using d by simp
  then have comp: "Compute ?E cfg (shift 1 clk') base quote (sv_db ?s) = (Inr res, d')"
    using res(1) assms(18) up by (simp only: Compute_def to_upper_idem)
  have miss: "fst (cacheLookup (clk' 0) (rate_key (to_upper base) ?q) ?s) = None"
    using assms(18,26) by (simp add: cacheLookup_def split: option.splits prod.splits)
  have answer: "answer = fst (singleRate ?E (w_dbtext w) clk' base quote ?s)"
    by (simp add: assms(29) serve_def case_prod_beta p')
  have "rp_status answer = 200 \<and> (if ffinite (res_Rate res)
      then \<exists>a. single_decode (rp_body answer) = Some a \<and> sr_From a = ''USD'' \<and> sr_To a = ?q \<and> sr_Rate a = res_Rate res
      else rp_body answer = [])"
  proof (cases "ffinite (res_Rate res)")
    case True
    obtain cc where "sv_cache ?s = Some cc" using reach p0(3) by auto
    moreover from this have "cache_look cc (clk' 0) (rate_key (to_upper base) ?q) = None"
      using miss by (simp add: cacheLookup_def cache_look_def split: prod.splits)
    moreover obtain r2 s2 where "singleRate ?E (w_dbtext w) clk' base quote ?s = (r2, s2)" by fastforce
    ultimately obtain jj where "single_decode (json_text jj) = Some (single_of (clk' 8) res)" "answer = writeBytes [cache_control ?s] (json_text jj)"
      using single_rate_run [OF allowed _ _ comp True wff names, of cc "w_dbtext w" r2 s2] assms(18,20) up(2)
      by (auto simp: answer)
    then show ?thesis
      using True Compute_codes [OF comp] assms(18) by (simp add: writeBytes_def single_of_def)
  next
    case False
    then show ?thesis
      using infinite_rate_is_empty_answer [OF allowed miss comp, of "w_dbtext w"] by (simp add: answer writeBytes_def)
  qed
  then show ?thesis using mem res(2) one by blast
qed

text \<open>A start with one provider, whose service quotes the euro.\<close>

definition euro_host :: host where
  "euro_host = sample_host\<lparr>h_send := \<lambda>_. euro_answer, h_yaml := \<lambda>_. Inr (Config.sample_config\<lparr>cf_Providers := [euro_provider],
     cf_Aggregator := (cf_Aggregator Config.sample_config)\<lparr>ca_MinProviders := 1\<rparr>\<rparr>)\<rparr>"

lemma euro_simps:
  "h_engine euro_host = plain_engine" "h_migrated_at euro_host = (\<lambda>_. 0)" "h_now euro_host = (\<lambda>_. 0)" "h_order euro_host = (\<lambda>xs. xs)" "h_cron_error euro_host = (\<lambda>_. None)"
  "h_send euro_host = (\<lambda>_. euro_answer)" "h_bad_url euro_host = (\<lambda>_. None)" "h_disk euro_host = (\<lambda>_. (new_file, empty_db))"
  "h_migrations euro_host = []" "h_env euro_host = h_env sample_host"
  "IsEnabled euro_provider" "cp_CallsPerDay euro_provider = None" "cp_ScheduleCron euro_provider = []"
  by (simp_all add: euro_host_def sample_host_def euro_provider_def IsEnabled_def)

lemma euro_start:
  "\<exists>p j expr. startup euro_host = Inr p \<and> (expr, FetchJob j) \<in> set (mg_entries (pg_manager p)) \<and> usage (mg_db (pg_manager p)) = []
    \<and> j_Provider j = provider_of (\<lambda>_. euro_answer) (\<lambda>_. None) (AFrankfurter (NewFrankfurter [])) \<and> j_Base j = ''USD''
    \<and> j_CurrencyCodes j = [''EUR''] \<and> j_CallsPerDay j = 0 \<and> isAllowed (pg_server p) ''EUR''
    \<and> (\<exists>cfg. sv_agg (pg_server p) = Some cfg \<and> MinProviders cfg = 1 \<and> MaxAgeSeconds cfg = 86400)
    \<and> readings (mg_db (pg_manager p)) = [] \<and> pr_name ` set (providers (mg_db (pg_manager p))) = {cp_Name euro_provider}
    \<and> (\<exists>ttl. sv_cache (pg_server p) = Some (NewCache ttl))"
proof -
  let ?c = "applyDefaults (Config.sample_config\<lparr>cf_Providers := [euro_provider],
     cf_Aggregator := (cf_Aggregator Config.sample_config)\<lparr>ca_MinProviders := 1\<rparr>\<rparr>)"
  have "Load (h_read_file euro_host) (h_yaml euro_host) path = Inr ?c" for path
    by (simp add: euro_host_def sample_host_def Load_def Let_def Validate_def applyDefaults_def Config.sample_config_def map_defs euro_provider_def)
  moreover obtain f where f: "Open plain_engine (\<lambda>_. 0) [] new_file = (None, f)" "applied_names f = []"
    by (simp add: Open_def migrate_def fstmt_def migration_names_def new_file_def applied_names_def)
  define p where "p = assemble euro_host ?c [(''EUR'', ()), (''USD'', ())] (opened new_file f empty_db)"
  ultimately have start: "startup euro_host = Inr p"
    using sample_currencies f(1) by (simp add: startup_def p_def euro_simps Let_def)
  obtain d where u: "UpsertProvider plain_engine 0 (stored_provider euro_provider) (opened new_file f empty_db) = (Inr 1, d)"
    and d: "usage d = []" "readings d = []" "pr_name ` set (providers d) = {cp_Name euro_provider}"
    by (simp add: UpsertProvider_def go_simps Let_def upsert_row_def opened_def f(2) empty_db_def stored_provider_def)
  define j where "j = job_of euro_host [''EUR''] euro_provider (AFrankfurter (NewFrankfurter [])) 1"
  have c: "cf_Providers ?c = [euro_provider]" "ca_MinProviders (cf_Aggregator ?c) = 1" "ca_MaxAgeSeconds (cf_Aggregator ?c) = 86400"
    by (simp_all add: applyDefaults_def Config.sample_config_def Let_def default_int_def)
  have "register_all euro_host [''EUR''] (cf_Providers ?c) (SetMetrics NewMetrics (NewManager (opened new_file f empty_db)))
      = (1, \<lparr>mg_db = d, mg_metrics = Some NewMetrics, mg_entries = [(entry_expr (ComputeSchedule 0 []), FetchJob j)], mg_running = False\<rparr>)"
    unfolding c by (simp add: register_def euro_adapter SetMetrics_def NewManager_def Let_def euro_simps u Add_def AddFunc_def derefInt_def j_def)
  then have "(entry_expr (ComputeSchedule 0 []), FetchJob j) \<in> set (mg_entries (pg_manager p))" "usage (mg_db (pg_manager p)) = []"
    "readings (mg_db (pg_manager p)) = []" "pr_name ` set (providers (mg_db (pg_manager p))) = {cp_Name euro_provider}"
    by (simp_all add: p_def assemble_def Let_def quoteCodes_def euro_simps schedule_retention_def AddFunc_def Start_def d)
  moreover have "j_Provider j = provider_of (\<lambda>_. euro_answer) (\<lambda>_. None) (AFrankfurter (NewFrankfurter []))" "j_Base j = ''USD''"
    "j_CurrencyCodes j = [''EUR'']" "j_CallsPerDay j = 0"
    by (simp_all add: j_def job_of_def euro_simps derefInt_def)
  moreover have "isAllowed (pg_server p) ''EUR''" "sv_agg (pg_server p) = Some (aggregator_of ?c)"
    by (simp_all add: p_def assemble_def Let_def NewServer_def isAllowed_def map_get_def)
  moreover have "MinProviders (aggregator_of ?c) = 1" "MaxAgeSeconds (aggregator_of ?c) = 86400"
    unfolding aggregator_of_def c by (simp_all add: New_def)
  moreover have "\<exists>ttl. sv_cache (pg_server p) = Some (NewCache ttl)" by (simp add: p_def assemble_def Let_def NewServer_def) blast
  ultimately show ?thesis using start by blast
qed

theorem fetched_rate_is_served_witness:
  "\<exists>p j answer a. startup euro_host = Inr p \<and> answer = fst (serve plain_world (\<lambda>_. 90000 * ns_per_sec) (SingleRate ''usd'' ''eur'')
       (p\<lparr>pg_manager := run_entry plain_engine (\<lambda>_. 90000 * ns_per_sec) (FetchJob j) (pg_manager p)\<rparr>))
     \<and> rp_status answer = 200 \<and> single_decode (rp_body answer) = Some a \<and> sr_Rate a = Fin (1 / 2)"
proof -
  obtain p j expr cfg ttl where p: "startup euro_host = Inr p" and e: "(expr, FetchJob j) \<in> set (mg_entries (pg_manager p))"
    and u: "usage (mg_db (pg_manager p)) = []" and j: "j_Provider j = provider_of (\<lambda>_. euro_answer) (\<lambda>_. None) (AFrankfurter (NewFrankfurter []))"
      "j_Base j = ''USD''" "j_CurrencyCodes j = [''EUR'']" "j_CallsPerDay j = 0"
    and a: "isAllowed (pg_server p) ''EUR''" and cfg: "sv_agg (pg_server p) = Some cfg" "MinProviders cfg = 1" "MaxAgeSeconds cfg = 86400"
    and empty: "readings (mg_db (pg_manager p)) = []" "pr_name ` set (providers (mg_db (pg_manager p))) = {cp_Name euro_provider}"
      "sv_cache (pg_server p) = Some (NewCache ttl)"
    using euro_start by (elim exE conjE) (rule that, assumption+)
  let ?t = "90000 * ns_per_sec" and ?m = "pg_manager p"
  let ?clk = "\<lambda>_ :: nat. ?t"
  have up: "to_upper ''eur'' = ''EUR''" "to_upper ''usd'' = ''USD''" "to_upper ''EUR'' = ''EUR''" "to_upper ''USD'' = ''USD''" by code_simp+
  have d: "db_ok (snd (h_disk euro_host path))" "stamped (snd (h_disk euro_host path))" "steady euro_host" for path
    by (simp_all add: euro_host_def sample_host_def db_ok_empty steady_def) (simp_all add: stamped_def empty_db_def)
  define f where "f = \<lparr>f_Base = ''USD'', f_Quote = ''EUR'', f_Rate = Fin (1 / 2), f_FetchedAt = ?t, f_ProviderTS = ''2026-01-02''\<rparr>"
  have "rate_readings ?t ''USD'' ''2026-01-02'' euro_rates [''EUR''] = [f]"
    by (simp add: rate_readings_def euro_rates_def map_get_def f_def up)
  then have fetch: "pv_Fetch (j_Provider j) ?t (j_Base j) (j_CurrencyCodes j) = Inr [f]"
    using euro_adapter_fetch [of "''USD''" "[''EUR'']" ?t] by (simp add: j provider_of_def or_default_def equal_fold_def)
  have r: "fmt_range ?t" "fmt_range (oldest_allowed cfg ?t)"
    by (simp_all add: oldest_allowed_def cfg(3) time_add_def fmt_range_def ns_per_sec_def)
  have old: "oldest_allowed cfg ?t \<le> ?t" by (simp add: oldest_allowed_def cfg(3) time_add_def ns_per_sec_def)
  have "rndq (1 / 2) = 1 / 2" by (rule rndq_short [of _ 1 "- 1"]) (simp_all add: power_int_minus)
  moreover have "\<bar>1 / 2 :: rat\<bar> < f64_lim" by (simp add: f64_lim_def)
  ultimately have half: "wff (Fin (1 / 2))" by (simp add: fin_ok_def)
  have f: "f_Rate f = Fin (1 / 2)" "f_Quote f = ''EUR''" by (simp_all add: f_def)
  have b: "BudgetAllowed (usage_count (mg_db ?m) (j_ProviderID j) ?t) (j_CallsPerDay j)" by (simp add: j BudgetAllowed_def)
  have "valid_utf8 ''ecb''" by (rule valid_utf8_ascii) simp
  then have utf: "valid_utf8 ''EUR''" "valid_utf8 (cp_Name euro_provider)" using sample_codes by (simp_all only: euro_provider_def provider_cfg.simps)
  have names: "\<forall>r \<in> set (providers (mg_db ?m)). valid_utf8 (pr_name r)"
  proof
    fix r assume "r \<in> set (providers (mg_db ?m))"
    then have "pr_name r \<in> {cp_Name euro_provider}" unfolding empty(2) [symmetric] by (rule imageI)
    then show "valid_utf8 (pr_name r)" using utf(2) by simp
  qed
  define p' where "p' = p\<lparr>pg_manager := run_entry plain_engine ?clk (FetchJob j) ?m\<rparr>"
  define R where "R = stored_rates (oldest_allowed cfg ?t) (mg_db (pg_manager p'))"
  define answer where "answer = fst (serve plain_world ?clk (SingleRate ''usd'' ''eur'') p')"
  have miss: "fst (cacheLookup ?t k (pg_server p)) = None" for k
    using rc.look_new [of ttl ?t k] by (auto simp: cacheLookup_def empty(3) cache_look_def split: prod.split)
  have served: "f_Rate f \<in> set (R ''EUR'') \<and> rp_status answer = 200
    \<and> (\<exists>v. rate_spec cfg R ''USD'' ''EUR'' = Inr v \<and> (R ''EUR'' = [f_Rate f] \<longrightarrow> v = f_Rate f)
        \<and> (if ffinite v
           then \<exists>a. single_decode (rp_body answer) = Some a \<and> sr_From a = ''USD'' \<and> sr_To a = ''EUR'' \<and> sr_Rate a = v
           else rp_body answer = []))"
    by (rule fetched_rate_is_served [OF p d(1,2,3) rtranclp.rtrancl_refl e, of plain_world ?clk "[f]" f "''eur''" "''usd''" cfg ?clk p' R answer,
          unfolded up])
      (use half utf names miss fetch in \<open>simp_all add: plain_world_def r f a cfg up b empty old p'_def R_def answer_def\<close>)
  have known: "j_ProviderID j \<in> pr_id ` set (providers (mg_db ?m))" "db_ok (mg_db ?m)"
    using startup_ok [OF p d(1,2)] e d(3) by (auto simp: program_ok_def manager_ok_def ids_of_def)
  obtain d2 new where "RunOnce plain_engine ?clk j ?m = (Inr (), recordSuccess (pv_Name (j_Provider j)) (?m\<lparr>mg_db := d2\<rparr>))"
      "readings d2 = readings (mg_db ?m) @ new" "list_all2 (stored_as (j_ProviderID j)) [f] new"
    by (rule RunOnce_success [where m = ?m and E = plain_engine and j = j and clk = ?clk and fs = "[f]"])
      (use known r(1) b fetch in \<open>simp_all add: f\<close>)
  then have "length (readings (mg_db (pg_manager p'))) = 1"
    by (auto simp: p'_def runWithTimeout_def recordSuccess_def empty(1) dest!: list_all2_lengthD split: option.split)
  then have "length (R ''EUR'') \<le> 1"
    unfolding R_def stored_rates_def rate_rows_def length_map by (intro order_trans [OF length_filter_le]) simp
  then have "R ''EUR'' = [f_Rate f]" using served by (cases "R ''EUR''") auto
  then show ?thesis using served p by (auto simp: f answer_def p'_def)
qed

section \<open>Jobs and rows\<close>

text \<open>
  The providers of the configuration that a start stores, and those of them it inserts: the ones
  whose name is new to the database \<open>d\<close> it opened.
\<close>

definition registered :: "provider_cfg \<Rightarrow> bool" where
  "registered pc \<longleftrightarrow> IsEnabled pc \<and> cp_Type pc \<in> {''frankfurter'', ''moneyconvert'', ''yahoo''}"

definition accepted :: "host \<Rightarrow> provider_cfg \<Rightarrow> bool" where
  "accepted h pc \<longleftrightarrow> registered pc
     \<and> h_cron_error h (entry_expr (ComputeSchedule (derefInt (cp_CallsPerDay pc)) (cp_ScheduleCron pc))) = None"

definition inserted :: "db \<Rightarrow> provider_cfg list \<Rightarrow> provider_cfg list" where
  "inserted d pcs = filter (\<lambda>pc. registered pc \<and> cp_Name pc \<notin> pr_name ` set (providers d)) pcs"

text \<open>Every element with those before it.\<close>

fun with_earlier :: "'a list \<Rightarrow> 'a list \<Rightarrow> ('a list \<times> 'a) list" where
  "with_earlier before [] = []"
| "with_earlier before (x # xs) = (before, x) # with_earlier (before @ [x]) xs"

text \<open>
  The id a provider's job books on, with \<open>d\<close> the database the start opened, \<open>d'\<close> the one it
  leaves, and \<open>earlier\<close> the providers before it in the configuration. A new provider books on
  its own row, and so does a stored one as long as the connection has inserted nothing. After an
  insert a stored provider books on the row that was inserted last: that of the last new provider
  before it, or that of the last recorded migration, which is a row of another table.
\<close>

definition books_on :: "db \<Rightarrow> db \<Rightarrow> provider_cfg list \<Rightarrow> provider_cfg \<Rightarrow> int \<Rightarrow> bool" where
  "books_on d d' earlier pc i \<longleftrightarrow>
     (if cp_Name pc \<notin> pr_name ` set (providers d) \<or> inserted d earlier = [] \<and> last_rowid d = 0
      then \<exists>r \<in> set (providers d'). pr_id r = i \<and> pr_name r = cp_Name pc
      else if inserted d earlier = [] then i = last_rowid d
      else \<exists>r \<in> set (providers d'). pr_id r = i \<and> pr_name r = cp_Name (last (inserted d earlier)))"

text \<open>What a start schedules for a provider: its expression, an adapter of its type, its budget, and an id.\<close>

definition schedules :: "db \<Rightarrow> db \<Rightarrow> provider_cfg list \<times> provider_cfg \<Rightarrow> string \<times> cron_fn \<Rightarrow> bool" where
  "schedules d d' = (\<lambda>(earlier, pc) (expr, fn).
     expr = entry_expr (ComputeSchedule (derefInt (cp_CallsPerDay pc)) (cp_ScheduleCron pc))
     \<and> (\<exists>j. fn = FetchJob j \<and> pv_Type (j_Provider j) = cp_Type pc \<and> j_CallsPerDay j = derefInt (cp_CallsPerDay pc)
          \<and> books_on d d' earlier pc (j_ProviderID j)))"

abbreviation row_keys :: "db \<Rightarrow> (int \<times> string \<times> string) list" where
  "row_keys d \<equiv> map (\<lambda>r. (pr_id r, pr_name r, pr_created_at r)) (providers d)"

lemma schedules_keep:
  assumes "row_keys d2 = row_keys d1 @ new" and "schedules d d1 x e"
  shows "schedules d d2 x e"
proof -
  have "\<exists>r' \<in> set (providers d2). pr_id r' = pr_id r \<and> pr_name r' = pr_name r" if "r \<in> set (providers d1)" for r
  proof -
    have "(pr_id r, pr_name r, pr_created_at r) \<in> set (row_keys d2)" unfolding assms(1) using that by simp
    then show ?thesis by auto
  qed
  then have "books_on d d1 earlier pc i \<Longrightarrow> books_on d d2 earlier pc i" for earlier pc i
    unfolding books_on_def by (simp split: if_splits) metis+
  then show ?thesis using assms(2) unfolding schedules_def by (auto split: prod.splits)
qed

lemma NewFromConfig_accepts:
  "(case NewFromConfig pc of Inl e \<Rightarrow> cp_Type pc \<notin> {''frankfurter'', ''moneyconvert'', ''yahoo''}
    | Inr a \<Rightarrow> cp_Type pc \<in> {''frankfurter'', ''moneyconvert'', ''yahoo''} \<and> adapter_Name a = cp_Type pc)"
  by (simp add: NewFromConfig_def)

text \<open>An upsert without a failing statement, whatever was inserted before.\<close>

lemma upsert_outcome:
  fixes E :: engine and now :: time and p :: provider and d :: db
  assumes "db_ok d" and "\<forall>n. fault E n = None"
  defines "known \<equiv> p_Name p \<in> pr_name ` set (providers d)"
  obtains i d' rows where "UpsertProvider E now p d = (Inr i, d')" and "db_ok d'" and "row_keys d' = row_keys d @ rows"
    and "pr_name ` set (providers d') = insert (p_Name p) (pr_name ` set (providers d))"
    and "last_rowid d' = (if known then last_rowid d else i)" and "known \<or> i \<noteq> 0"
    and "if known \<and> last_rowid d \<noteq> 0 then i = last_rowid d else \<exists>r \<in> set (providers d'). pr_id r = i \<and> pr_name r = p_Name p"
proof -
  define cfg where "cfg = (case json_enc E (p_Config p) of Some j \<Rightarrow> j | None \<Rightarrow> ''{}'')"
  define d1 where "d1 = upsert_row E (fmt_rfc3339 now) cfg p (d\<lparr>stmts := Suc (stmts d)\<rparr>)"
  have U: "UpsertProvider E now p d =
      (if last_rowid d1 = 0 then select_id (p_Name p) (d1\<lparr>stmts := Suc (stmts d1)\<rparr>) else (Inr (last_rowid d1), d1))"
    using assms(2) by (intro UpsertProvider_ok) (simp_all add: d1_def cfg_def)
  have ok: "db_ok d1" using assms(1) by (simp add: d1_def db_ok_upsert_row)
  have names: "pr_name ` set (providers d1) = insert (p_Name p) (pr_name ` set (providers d))"
    by (simp add: d1_def upsert_row_providers update_named_keeps insert_absorb flip: set_map)
  obtain rows where rows: "row_keys d1 = row_keys d @ rows"
    using upsert_row_keeps [of E "fmt_rfc3339 now" cfg p "d\<lparr>stmts := Suc (stmts d)\<rparr>"] by (auto simp: d1_def)
  have last: "if known then last_rowid d1 = last_rowid d
      else last_rowid d1 \<noteq> 0 \<and> (\<exists>r \<in> set (providers d1). pr_id r = last_rowid d1 \<and> pr_name r = p_Name p)"
    using assms(1) by (simp add: known_def d1_def upsert_row_providers db_ok_defs)
  show ?thesis
  proof (cases "last_rowid d1 = 0")
    case True
    then have "known" "last_rowid d = 0" using last by (auto split: if_splits)
    moreover obtain r where r: "provider_by_name (p_Name p) d1 = Some r"
      using provider_by_name_None [of "p_Name p" d1] names by (cases "provider_by_name (p_Name p) d1") auto
    then have "r \<in> set (providers d1)" "pr_name r = p_Name p"
      by (auto simp: provider_by_name_def find_Some_iff)
    moreover have "UpsertProvider E now p d = (Inr (pr_id r), d1\<lparr>stmts := Suc (stmts d1)\<rparr>)"
      using True r by (simp add: U select_id_def provider_by_name_def)
    ultimately show ?thesis using ok names rows True
      by (intro that [of "pr_id r" "d1\<lparr>stmts := Suc (stmts d1)\<rparr>" rows]) auto
  next
    case False
    then show ?thesis using ok names rows last
      by (intro that [of "last_rowid d1" d1 rows]) (auto simp: U split: if_splits)
  qed
qed

text \<open>What registering the providers \<open>before\<close> has done to the database \<open>d\<close>.\<close>

definition registering :: "db \<Rightarrow> provider_cfg list \<Rightarrow> db \<Rightarrow> bool" where
  "registering d before d1 \<longleftrightarrow> db_ok d1
     \<and> pr_name ` set (providers d1) = pr_name ` set (providers d) \<union> cp_Name ` set (inserted d before)
     \<and> (if inserted d before = [] then last_rowid d1 = last_rowid d
        else last_rowid d1 \<noteq> 0
          \<and> (\<exists>r \<in> set (providers d1). pr_id r = last_rowid d1 \<and> pr_name r = cp_Name (last (inserted d before))))"

lemma stored_provider_Name [simp]: "p_Name (stored_provider pc) = cp_Name pc"
  by (simp add: stored_provider_def)

lemma register_step:
  fixes h :: host and codes :: "string list" and pc :: provider_cfg and m :: manager
  assumes "\<forall>n. fault (h_engine h) n = None" and "registering d before (mg_db m)" and "cp_Name pc \<notin> cp_Name ` set before"
  defines "m' \<equiv> snd (register h codes pc m)"
  shows "\<exists>new rows. mg_entries m' = mg_entries m @ new
    \<and> list_all2 (schedules d (mg_db m')) (filter (accepted h \<circ> snd) [(before, pc)]) new
    \<and> row_keys (mg_db m') = row_keys (mg_db m) @ rows \<and> registering d (before @ [pc]) (mg_db m')"
proof (cases "registered pc")
  case False
  then have "register h codes pc m = (False, m)"
    using NewFromConfig_accepts [of pc] by (auto simp: register_def registered_def split: sum.split sum.splits)
  then show ?thesis using False assms(2) by (auto simp: m'_def accepted_def registering_def inserted_def)
next
  case True
  then obtain a where a: "NewFromConfig pc = Inr a" "adapter_Name a = cp_Type pc"
    using NewFromConfig_accepts [of pc] by (cases "NewFromConfig pc") (auto simp: registered_def)
  have ok: "db_ok (mg_db m)" using assms(2) by (simp add: registering_def)
  let ?known = "cp_Name pc \<in> pr_name ` set (providers d)"
  have known: "cp_Name pc \<in> pr_name ` set (providers (mg_db m)) \<longleftrightarrow> ?known"
    using assms(2,3) by (auto simp: registering_def inserted_def)
  obtain i d' rows where u: "UpsertProvider (h_engine h) (h_now h (stmts (mg_db m))) (stored_provider pc) (mg_db m) = (Inr i, d')"
    and d': "db_ok d'" "row_keys d' = row_keys (mg_db m) @ rows"
      "pr_name ` set (providers d') = insert (cp_Name pc) (pr_name ` set (providers (mg_db m)))"
      "last_rowid d' = (if ?known then last_rowid (mg_db m) else i)" "?known \<or> i \<noteq> 0"
      "if ?known \<and> last_rowid (mg_db m) \<noteq> 0 then i = last_rowid (mg_db m)
       else \<exists>r \<in> set (providers d'). pr_id r = i \<and> pr_name r = cp_Name pc"
    using upsert_outcome [OF ok assms(1), where p = "stored_provider pc" and now = "h_now h (stmts (mg_db m))"]
    unfolding stored_provider_Name known by blast
  let ?j = "job_of h codes pc a i"
  let ?expr = "entry_expr (ComputeSchedule (derefInt (cp_CallsPerDay pc)) (cp_ScheduleCron pc))"
  have reg: "m' = (if h_cron_error h ?expr = None then m\<lparr>mg_db := d', mg_entries := mg_entries m @ [(?expr, FetchJob ?j)]\<rparr> else m\<lparr>mg_db := d'\<rparr>)"
    using True by (simp add: m'_def register_def registered_def a u Add_def AddFunc_def Let_def split: option.split)
  have keep: "\<exists>r' \<in> set (providers d'). pr_id r' = pr_id r \<and> pr_name r' = pr_name r" if "r \<in> set (providers (mg_db m))" for r
  proof -
    have "(pr_id r, pr_name r, pr_created_at r) \<in> set (row_keys d')" unfolding d'(2) using that by simp
    then show ?thesis by auto
  qed
  have "books_on d d' before pc i"
    using assms(2) d'(6) keep unfolding books_on_def registering_def by (simp split: if_splits) metis
  then have "schedules d d' (before, pc) (?expr, FetchJob ?j)"
    using a(2) by (simp add: schedules_def job_of_def provider_of_def)
  moreover have "registering d (before @ [pc]) d'"
  proof (cases ?known)
    case known: True
    then have ins: "inserted d (before @ [pc]) = inserted d before" by (simp add: inserted_def)
    have "cp_Name pc \<in> pr_name ` set (providers (mg_db m))" using known \<open>_ \<longleftrightarrow> ?known\<close> by simp
    then show ?thesis using assms(2) d' known keep unfolding registering_def ins by (auto simp: insert_absorb split: if_splits) metis
  next
    case new: False
    then have ins: "inserted d (before @ [pc]) = inserted d before @ [pc]" using True by (simp add: inserted_def)
    show ?thesis using assms(2) d' new unfolding registering_def ins by auto
  qed
  ultimately show ?thesis using d'(2) True by (auto simp: reg accepted_def)
qed

lemma register_all_jobs:
  assumes "\<forall>n. fault (h_engine h) n = None" and "registering d before (mg_db m)" and "distinct (map cp_Name (before @ pcs))"
  shows "\<exists>new rows. mg_entries (snd (register_all h codes pcs m)) = mg_entries m @ new
    \<and> list_all2 (schedules d (mg_db (snd (register_all h codes pcs m)))) (filter (accepted h \<circ> snd) (with_earlier before pcs)) new
    \<and> row_keys (mg_db (snd (register_all h codes pcs m))) = row_keys (mg_db m) @ rows"
  using assms(2,3)
proof (induction pcs arbitrary: m before)
  case (Cons pc pcs)
  let ?m1 = "snd (register h codes pc m)"
  have "cp_Name pc \<notin> cp_Name ` set before" using Cons.prems(2) by auto
  then obtain n1 r1 where 1: "mg_entries ?m1 = mg_entries m @ n1"
    "list_all2 (schedules d (mg_db ?m1)) (filter (accepted h \<circ> snd) [(before, pc)]) n1"
    "row_keys (mg_db ?m1) = row_keys (mg_db m) @ r1" "registering d (before @ [pc]) (mg_db ?m1)"
    using register_step [OF assms(1) Cons.prems(1)] by blast
  let ?m2 = "snd (register_all h codes pcs ?m1)"
  obtain n2 r2 where 2: "mg_entries ?m2 = mg_entries ?m1 @ n2"
    "list_all2 (schedules d (mg_db ?m2)) (filter (accepted h \<circ> snd) (with_earlier (before @ [pc]) pcs)) n2"
    "row_keys (mg_db ?m2) = row_keys (mg_db ?m1) @ r2"
    using Cons.IH [OF 1(4)] Cons.prems(2) by (auto simp: comp_def)
  have "list_all2 (schedules d (mg_db ?m2)) (filter (accepted h \<circ> snd) [(before, pc)]) n1"
    using 1(2) schedules_keep [OF 2(3)] by (rule list_all2_mono)
  then have "list_all2 (schedules d (mg_db ?m2))
      (filter (accepted h \<circ> snd) [(before, pc)] @ filter (accepted h \<circ> snd) (with_earlier (before @ [pc]) pcs)) (n1 @ n2)"
    using 2(2) by (rule list_all2_appendI)
  then show ?case using 1(1,3) 2(1,3)
    by (intro exI [of _ "n1 @ n2"] exI [of _ "r1 @ r2"]) (cases "accepted h pc"; simp add: case_prod_beta comp_def)
qed simp

text \<open>
  C14: what a start schedules, and which row every job books on. When no statement fails and the
  names of the configuration are distinct, the scheduled entries are, in the order of the
  configuration, one fetch job for each enabled provider of a known type with a schedule the cron
  library accepts, with its expression, its type and its budget; at most the pruning follows, and
  the program is running. The job of a provider that is new to the database books on the
  provider's own row. So does that of a stored provider, if this start has inserted nothing
  before it; otherwise it books on the id inserted last, that of another provider or of the record
  of a migration.
\<close>

theorem start_books_rows:
  assumes "\<forall>n. fault (h_engine h) n = None" and "db_ok d" and "distinct (map cp_Name (cf_Providers c))"
    and "p = assemble h c currencies d"
  shows "mg_running (pg_manager p) \<and> (\<exists>jobs rest. mg_entries (pg_manager p) = jobs @ rest
    \<and> list_all2 (schedules d (mg_db (pg_manager p))) (filter (accepted h \<circ> snd) (with_earlier [] (cf_Providers c))) jobs
    \<and> rest = (if 0 < sint (ca_RetentionDays (cf_Aggregator c)) \<and> h_cron_error h ''@daily'' = None
              then [(''@daily'', PruneJob (ca_RetentionDays (cf_Aggregator c) * 24 * hour))] else []))"
proof -
  let ?m0 = "SetMetrics NewMetrics (NewManager d)"
  let ?codes = "quoteCodes (h_order h) currencies ''USD''"
  let ?m1 = "snd (register_all h ?codes (cf_Providers c) ?m0)"
  have "registering d [] (mg_db ?m0)" "mg_entries ?m0 = []"
    using assms(2) by (simp_all add: registering_def inserted_def SetMetrics_def NewManager_def)
  then obtain jobs where "mg_entries ?m1 = jobs"
    "list_all2 (schedules d (mg_db ?m1)) (filter (accepted h \<circ> snd) (with_earlier [] (cf_Providers c))) jobs"
    using register_all_jobs [OF assms(1), of d "[]" ?m0 "cf_Providers c" ?codes] assms(3) by auto
  then show ?thesis
    unfolding assms(4) assemble_def Let_def
    by (auto simp: Start_def schedule_retention_def AddFunc_def split: option.split)
qed

theorem start_books_rows_witness:
  "\<exists>jobs rest. mg_entries (pg_manager (assemble sample_host Config.sample_config [] empty_db))
     = jobs @ rest \<and> length jobs = 1"
proof -
  let ?c = "Config.sample_config"
  have "\<forall>n. fault (h_engine sample_host) n = None" "distinct (map cp_Name (cf_Providers ?c))"
    by (simp_all add: sample_host_def Config.sample_config_def)
  then obtain jobs rest where j: "mg_entries (pg_manager (assemble sample_host ?c [] empty_db)) = jobs @ rest"
    "list_all2 (schedules empty_db (mg_db (pg_manager (assemble sample_host ?c [] empty_db))))
       (filter (accepted sample_host \<circ> snd) (with_earlier [] (cf_Providers ?c))) jobs"
    using start_books_rows [of sample_host empty_db ?c, OF _ db_ok_empty _ refl, where currencies = "[]"] by blast
  have "filter (accepted sample_host \<circ> snd) (with_earlier [] (cf_Providers ?c)) = with_earlier [] (cf_Providers ?c)"
    by (simp add: accepted_def registered_def sample_host_def Config.sample_config_def IsEnabled_def)
  then have "length jobs = 1" using list_all2_lengthD [OF j(2)] by (simp add: Config.sample_config_def)
  with j(1) show ?thesis by blast
qed

end
