(* ===== verification/CacheKeys.thy ===== *)
theory CacheKeys
  imports ProgramFacts
begin

text \<open>
  What the response cache holds under the keys of currency pairs: in every state of the running
  program the document of that pair and of no other, although pairs, tables and histories share
  one cache. It rests on the allowed codes being three bytes long.
\<close>

section \<open>Keys\<close>

lemma rate_key_inject:
  assumes "length f = length f'"
  shows "rate_key f t = rate_key f' t' \<longleftrightarrow> f = f' \<and> t = t'"
  using assms by (auto simp: rate_key_def)

lemma other_keys:
  assumes "length f = 3"
  shows "''USD:*'' \<noteq> rate_key f t" and "history_key a b start finish step \<noteq> rate_key f t"
proof -
  obtain x y z where f: "f = [x, y, z]" using assms by (auto simp: numeral_3_eq_3 length_Suc_conv)
  show "''USD:*'' \<noteq> rate_key f t" "history_key a b start finish step \<noteq> rate_key f t"
    by (simp_all add: f rate_key_def history_key_def)
qed

section \<open>Documents under the keys of pairs\<close>

definition pair_doc :: "string \<Rightarrow> string \<Rightarrow> string \<Rightarrow> bool" where
  "pair_doc f t body \<longleftrightarrow> (\<exists>resp j. single_json resp = Some j \<and> body = json_text j \<and> sr_From resp = f \<and> sr_To resp = t)"

definition keyed :: "server \<Rightarrow> bool" where
  "keyed s \<longleftrightarrow> (\<exists>ttl. srv_ok ttl s) \<and> (\<forall>k. isAllowed s k \<longrightarrow> length k = 3 \<and> to_upper k = k)
     \<and> (\<forall>now f t b. length f = 3 \<longrightarrow> server_look now (rate_key f t) s = Some b \<longrightarrow> pair_doc f t b)"

lemma keyed_db [simp]: "keyed (s\<lparr>sv_db := d\<rparr>) = keyed s" "keyed (s\<lparr>sv_metrics := x\<rparr>) = keyed s"
  by (simp_all add: keyed_def srv_ok_def isAllowed_def server_look_cases)

lemma look_sub_lookup:
  assumes "srv_ok ttl s" and "server_look l k' (snd (cacheLookup now k s)) = Some b"
  shows "server_look l k' s = Some b"
proof (cases "sv_cache s")
  case (Some c)
  then have wf: "map_wf (c_items c)" using assms(1) by (simp add: srv_ok_def cache_wf_def)
  show ?thesis using assms(2) Some gm.get_del [OF wf]
    by (auto simp: server_look_cases cacheLookup_def cache_look_cases cache_Get_def split: option.splits if_splits)
qed (use assms(2) in \<open>simp add: server_look_cases cacheLookup_def\<close>)

lemma keyed_lookup: "keyed s \<Longrightarrow> keyed (snd (cacheLookup now k s))"
  using srv_ok_steps(1) look_sub_lookup unfolding keyed_def isAllowed_def by (simp only: cacheLookup_frame) blast

lemma keyed_hit:
  assumes "keyed s" and "isAllowed s f" and "fst (cacheLookup now (rate_key f t) s) = Some b"
  shows "pair_doc f t b"
  using assms unfolding keyed_def server_look_def by blast

lemma keyed_store:
  assumes "keyed s" and "\<And>f t j. length f = 3 \<Longrightarrow> k = rate_key f t \<Longrightarrow> v = Some j \<Longrightarrow> pair_doc f t (json_text j)"
  shows "keyed (snd (cacheStore now k v s))"
proof -
  obtain ttl where ok: "srv_ok ttl s" using assms(1) by (auto simp: keyed_def)
  have "pair_doc f t b" if "length f = 3" "server_look l (rate_key f t) (snd (cacheStore now k v s)) = Some b" for l f t b
  proof (cases "rate_key f t = k")
    case False
    then show ?thesis using that look_other_store [OF ok] assms(1) unfolding keyed_def by metis
  next
    case True
    show ?thesis
    proof (cases v)
      case None
      then show ?thesis using that assms(1) unfolding keyed_def by (simp add: cacheStore_def)
    next
      case (Some j)
      then show ?thesis
        using that assms(2) [OF that(1) True [symmetric] Some] True look_after_store [OF ok, where j = j and now = now and k = k and k' = k and later = l]
        by (cases "sv_cache s") (auto simp: server_look_cases cacheStore_def split: if_splits)
    qed
  qed
  then show ?thesis using assms(1) srv_ok_steps(2) unfolding keyed_def isAllowed_def by (simp only: cacheStore_frame) blast
qed

lemma keyed_store_pair:
  assumes "keyed s" and "length f = 3" and "sr_From resp = f" and "sr_To resp = t"
  shows "keyed (snd (cacheStore now (rate_key f t) (single_json resp) s))"
  using assms by (intro keyed_store) (auto simp: rate_key_inject pair_doc_def)

lemma keyed_store_other: "keyed s \<Longrightarrow> (\<And>f t. length f = 3 \<Longrightarrow> k \<noteq> rate_key f t) \<Longrightarrow> keyed (snd (cacheStore now k v s))"
  by (intro keyed_store) auto

text \<open>The result of \<open>Compute\<close> names the pair it was asked for.\<close>

lemma computeDirect_pair:
  "computeDirect E cfg clk q since d = (Inr r, d') \<Longrightarrow> res_From r = Base cfg \<and> res_To r = to_upper q"
  by (auto simp: computeDirect_def direct_result_def Let_def split: prod.splits sum.splits if_splits)

lemma Compute_pair:
  assumes "Compute E cfg clk f t d = (Inr r, d')"
  shows "res_From r = to_upper f \<and> res_To r = to_upper t"
proof -
  have cross: "computeCross E cfg c a b since d = (Inr r, d') \<Longrightarrow> res_From r = a \<and> res_To r = b" for c a b since
    by (auto simp: computeCross_def split: prod.splits sum.splits if_splits)
  have inv: "invertTo x to = Inr y \<Longrightarrow> res_From y = res_To x \<and> res_To y = to_upper to" for x y to
    by (auto simp: invertTo_def Let_def split: if_splits)
  consider "to_upper f = to_upper t" | "to_upper f \<noteq> to_upper t" "to_upper t = Base cfg" "to_upper f \<noteq> Base cfg"
    | "to_upper f \<noteq> to_upper t" "to_upper f = Base cfg \<or> to_upper t \<noteq> Base cfg" by blast
  then show ?thesis
  proof cases
    case 2
    then obtain x d1 where x: "computeDirect E cfg (shift 1 clk) (to_upper f) (oldest_allowed cfg (clk 0)) d = (Inr x, d1)"
        "invertTo x (to_upper t) = Inr r"
      using assms by (auto simp: Compute_def Let_def split: if_splits prod.splits sum.splits)
    then show ?thesis using computeDirect_pair [OF x(1)] inv [OF x(2)] by simp
  qed (use assms in \<open>auto simp: Compute_def Let_def dest: computeDirect_pair cross split: if_splits\<close>)
qed

section \<open>Every handler keeps them\<close>

text \<open>The lookup, the query and the store of a pair, as \<open>singleRate\<close> and \<open>ratesFromBase\<close> do them.\<close>

lemma keyed_answer:
  assumes "keyed s" and "isAllowed s f" and "isAllowed s t" and "fst x = Inr res" and "x = Compute E cfg c f t d0"
  shows "keyed (snd (cacheStore now (rate_key f t) (single_json (single_of u res)) ((snd (cacheLookup t0 k s))\<lparr>sv_db := d\<rparr>)))"
proof (rule keyed_store_pair)
  show "length f = 3" using assms(1,2) by (simp add: keyed_def)
  have "res_From res = f \<and> res_To res = t"
    using Compute_pair [of E cfg c f t d0 res "snd x"] assms by (simp add: keyed_def prod_eq_iff)
  then show "sr_From (single_of u res) = f" "sr_To (single_of u res) = t" by (simp_all add: single_of_def)
qed (simp add: assms(1) keyed_lookup)

lemma keyed_singleRate: "keyed s \<Longrightarrow> keyed (snd (singleRate E dbtext clk base quote s))"
  unfolding singleRate_def Let_def case_prod_beta
  by (auto simp: keyed_lookup keyed_answer split: option.split sum.split)

lemma keyed_rate_round:
  assumes "keyed s" and "isAllowed s base" and "isAllowed s code"
  shows "keyed (snd (rate_round E cfg clk base code c s))"
  unfolding rate_round_def case_prod_beta
  using assms by (auto simp: keyed_lookup keyed_answer split: option.split sum.split)

lemma keyed_rate_rounds:
  "keyed s \<Longrightarrow> isAllowed s base \<Longrightarrow> \<forall>code \<in> set codes. isAllowed s code \<Longrightarrow>
    keyed (snd (rate_rounds E cfg clk base codes c s))"
proof (induction codes arbitrary: clk c s)
  case (Cons code codes)
  have "sv_currencies (snd (rate_round E cfg clk base code c s)) = sv_currencies s"
    using kept_rate_round by (simp add: kept_def)
  then have "isAllowed (snd (rate_round E cfg clk base code c s)) k = isAllowed s k" for k by (simp add: isAllowed_def)
  then show ?case using Cons.prems Cons.IH keyed_rate_round by (simp add: case_prod_beta)
qed simp

lemma allowedCodes_allowed:
  assumes "\<And>xs. mset (order xs) = mset xs" and "code \<in> set (allowedCodes order s)"
  shows "isAllowed s code"
proof -
  have "set (order xs) = set xs" for xs :: "string list" using assms(1) by (metis set_mset_mset)
  then show ?thesis using assms(2)
    by (auto simp: allowedCodes_def isAllowed_def map_get_def map_of_eq_None_iff split: if_splits)
qed

lemma keyed_ratesFromBase:
  assumes "\<And>xs. mset (order xs) = mset xs" and "keyed s"
  shows "keyed (snd (ratesFromBase order E clk base s))"
  unfolding ratesFromBase_def Let_def case_prod_beta
  using keyed_rate_rounds [OF assms(2)] allowedCodes_allowed [OF assms(1)] assms(2) by (auto split: option.split)

lemma keyed_allRates: "keyed s \<Longrightarrow> keyed (snd (allRates order E clk s))"
  unfolding allRates_def Let_def case_prod_beta
  by (auto simp: keyed_lookup keyed_store_other other_keys split: option.split)

lemma keyed_history: "keyed s \<Longrightarrow> keyed (snd (historyHandler E dbtext clk base quote q s))"
  unfolding historyHandler_def Let_def case_prod_beta
  by (auto simp: keyed_lookup keyed_store_other other_keys split: option.split sum.split)

lemma keyed_same_cache:
  "keyed s \<Longrightarrow> sv_cache s' = sv_cache s \<Longrightarrow> sv_currencies s' = sv_currencies s \<Longrightarrow> keyed s'"
  by (simp add: keyed_def srv_ok_def isAllowed_def server_look_cases)

lemma keyed_handle:
  assumes "\<And>xs. mset (w_order w xs) = mset xs" and "keyed s"
  shows "keyed (snd (handle w clk rt s))"
proof (cases rt)
  case Readyz
  then show ?thesis using assms(2) unfolding Readyz handle.simps readyz_def case_prod_beta by (auto split: option.split sum.split)
next
  case MetricsText
  have "sv_cache (refreshProviderMetrics E clk s) = sv_cache s" "sv_currencies (refreshProviderMetrics E clk s) = sv_currencies s" for E
    by (auto simp: refreshProviderMetrics_def Let_def case_prod_beta split: option.split sum.split)
  then show ?thesis unfolding MetricsText using assms(2) keyed_same_cache
    by (auto simp: metricsHandler_def Let_def split: option.split)
next
  case ListedProviders
  then show ?thesis using assms(2) unfolding ListedProviders handle.simps handleProviders_def case_prod_beta by (auto split: sum.split)
qed (use assms in \<open>simp_all add: healthz_def keyed_singleRate keyed_ratesFromBase keyed_allRates keyed_history\<close>)

section \<open>In the running program\<close>

lemma keyed_step:
  assumes "\<And>xs. mset (w_order w xs) = mset xs" and "program_step w p p'" and "keyed (pg_server p)"
  shows "keyed (pg_server p')"
  using assms(2)
proof (rule program_stepE)
  fix clk rt
  assume "p' = snd (serve w clk rt p)"
  then show ?thesis using keyed_handle [OF assms(1)] assms(3) by (simp add: serve_def case_prod_beta)
qed (simp add: assms(3))

lemma trim_left_subset: "set (trim_left s) \<subseteq> set s"
  by (induction s rule: trim_left.induct, subst trim_left.simps)
    (fastforce simp: strip_with_def dest: in_set_dropD split: option.splits)

lemma trim_right_subset: "set (trim_right_rev s) \<subseteq> set s"
  by (induction s rule: trim_right_rev.induct, subst trim_right_rev.simps)
    (fastforce simp: strip_with_def dest: in_set_dropD split: option.splits)

lemma TrimSpace_upper: "to_upper (TrimSpace (to_upper s)) = TrimSpace (to_upper s)"
proof -
  have "set (TrimSpace (to_upper s)) \<subseteq> set (to_upper s)"
    using trim_left_subset trim_right_subset unfolding TrimSpace_def set_rev by (metis order_trans set_rev)
  then have "\<forall>c \<in> set (TrimSpace (to_upper s)). upper_char c = c" by (auto simp: to_upper_def)
  then show ?thesis by (simp add: to_upper_def map_idI)
qed

lemma LoadCurrencies_codes:
  assumes "LoadCurrencies env = Inr m" and "map_get m k \<noteq> None"
  shows "length k = 3 \<and> to_upper k = k"
proof -
  let ?codes = "filter (\<lambda>c. c \<noteq> []) (map (\<lambda>c. TrimSpace (to_upper c)) (split_at CHR '','' (TrimSpace (env ''ARGOSFX_CURRENCIES''))))"
  obtain out where out: "load_codes (split_at CHR '','' (TrimSpace (env ''ARGOSFX_CURRENCIES''))) [] = Inr out"
      "m = out \<or> m = map_set ''USD'' () out"
    using assms(1) by (auto simp: LoadCurrencies_def Let_def split: if_splits sum.splits)
  note r = load_codes_result [OF gm.wf_empty, of "split_at CHR '','' (TrimSpace (env ''ARGOSFX_CURRENCIES''))"]
  have none: "find (\<lambda>c. length c \<noteq> 3) ?codes = None" using r out(1) by (cases "find (\<lambda>c. length c \<noteq> 3) ?codes") simp_all
  then have o: "map_wf out" "dom (map_get out) = set ?codes" using r out(1) by (auto simp: gm.get_empty)
  have usd: "to_upper ''USD'' = ''USD''" by code_simp
  have "k \<in> set ?codes \<or> k = ''USD''" using assms(2) out(2) o gm.get_put [OF o(1), of "''USD''" "()"] by (auto split: if_splits)
  then show ?thesis using none usd TrimSpace_upper by (auto simp: find_None_iff)
qed

lemma keyed_startup:
  assumes "startup h = Inr p"
  shows "keyed (pg_server p)"
proof -
  obtain c cur f d where cur: "LoadCurrencies (h_env h) = Inr cur" and p: "p = assemble h c cur d"
    using startup_assemble [OF assms] by blast
  have "length k = 3 \<and> to_upper k = k" if "map_get cur k \<noteq> None" for k
    using LoadCurrencies_codes [OF cur that] .
  then show ?thesis
    using rc.wf_new by (auto simp: p assemble_def Let_def NewServer_def keyed_def srv_ok_def isAllowed_def server_look_cases rc.look_new)
qed

lemma keyed_reachable:
  assumes "startup h = Inr p0" and "\<And>xs. mset (w_order w xs) = mset xs" and "(program_step w)\<^sup>*\<^sup>* p0 p"
  shows "keyed (pg_server p)"
  using assms(3) by (induction rule: rtranclp_induct) (auto intro: keyed_startup [OF assms(1)] keyed_step [OF assms(2)])

text \<open>
  C7: an answer is about the pair it was asked for. In every state the running program reaches,
  after any requests for pairs, tables and histories, a request for the rate of a pair that is
  answered with status 200 gets the document of exactly that pair, in upper case, whether it
  was computed or came from the shared cache; only a rate that cannot be encoded has an empty
  body.
\<close>

theorem answers_name_their_pair:
  assumes "startup h = Inr p0" and "\<And>xs. mset (w_order w xs) = mset xs" and "(program_step w)\<^sup>*\<^sup>* p0 p"
    and "rp_status (fst (serve w clk (SingleRate base quote) p)) = 200"
  shows "rp_body (fst (serve w clk (SingleRate base quote) p)) = []
    \<or> pair_doc (to_upper base) (to_upper quote) (rp_body (fst (serve w clk (SingleRate base quote) p)))"
proof -
  define s where "s = (pg_server p)\<lparr>sv_db := mg_db (pg_manager p), sv_metrics := mg_metrics (pg_manager p)\<rparr>"
  let ?f = "to_upper base" and ?t = "to_upper quote"
  have k: "keyed s" using keyed_reachable [OF assms(1-3)] by (simp add: s_def)
  have r: "fst (serve w clk (SingleRate base quote) p) = fst (singleRate (w_engine w) (w_dbtext w) clk base quote s)"
    by (simp add: serve_def case_prod_beta s_def)
  have hit: "pair_doc ?f ?t b" if "isAllowed s ?f" "fst (cacheLookup (clk 0) (rate_key ?f ?t) s) = Some b" for b
    using keyed_hit [OF k that] .
  have computed: "fst (cacheStore n key (single_json (single_of u res)) s1) = []
      \<or> pair_doc ?f ?t (fst (cacheStore n key (single_json (single_of u res)) s1))"
    if "fst (Compute E cfg c ?f ?t d) = Inr res" for E cfg c d res n u key s1
  proof -
    have "sr_From (single_of u res) = ?f \<and> sr_To (single_of u res) = ?t"
      using Compute_pair [of E cfg c ?f ?t d res "snd (Compute E cfg c ?f ?t d)"] that by (simp add: single_of_def prod_eq_iff)
    then show ?thesis by (cases "single_json (single_of u res)") (auto simp: cacheStore_def pair_doc_def)
  qed
  show ?thesis
    using assms(4) hit computed unfolding r singleRate_def Let_def case_prod_beta
    by (auto simp: writeBytes_def write_simps split: option.splits sum.splits if_splits)
qed

lemma singleRate_answers:
  assumes "isAllowed s (to_upper base)" and "isAllowed s (to_upper quote)" and "sv_agg s = Some cfg"
    and "\<And>d. same_tables (sv_db s) d \<Longrightarrow> \<exists>res. fst (Compute E cfg (shift 1 clk) (to_upper base) (to_upper quote) d) = Inr res"
  shows "rp_status (fst (singleRate E dbtext clk base quote s)) = 200"
proof (cases "cacheLookup (clk 0) (rate_key (to_upper base) (to_upper quote)) s")
  case (Pair hit s1)
  have "sv_db s1 = sv_db s"
    using arg_cong [OF Pair, of "sv_db \<circ> snd"] by (simp add: cacheLookup_def split: option.splits prod.splits)
  then obtain res where "fst (Compute E cfg (shift 1 clk) (to_upper base) (to_upper quote) (sv_db s1)) = Inr res"
    using assms(4) [of "sv_db s"] by auto
  then obtain d where "Compute E cfg (shift 1 clk) (to_upper base) (to_upper quote) (sv_db s1) = (Inr res, d)"
    by (cases "Compute E cfg (shift 1 clk) (to_upper base) (to_upper quote) (sv_db s1)") simp
  then show ?thesis
    by (cases hit) (simp_all add: singleRate_def Let_def assms(1-3) Pair writeBytes_def case_prod_beta)
qed

theorem answers_name_their_pair_witness:
  "\<exists>p. startup sample_host = Inr p \<and> (case fst (serve plain_world (\<lambda>_. 0) (SingleRate ''usd'' ''USD'') p) of r \<Rightarrow>
     rp_status r = 200 \<and> (rp_body r = [] \<or> pair_doc ''USD'' ''USD'' (rp_body r)))"
proof -
  obtain p where p: "startup sample_host = Inr p" using sample_start by blast
  have up: "to_upper ''usd'' = ''USD''" "to_upper ''USD'' = ''USD''" by code_simp+
  let ?s = "(pg_server p)\<lparr>sv_db := mg_db (pg_manager p), sv_metrics := mg_metrics (pg_manager p)\<rparr>"
  obtain c cur d where "LoadCurrencies (h_env sample_host) = Inr cur" "p = assemble sample_host c cur d"
    using startup_assemble [OF p] by blast
  then have s: "isAllowed ?s ''USD''" "sv_agg ?s = Some (aggregator_of c)"
    using LoadCurrencies_usd by (auto simp: assemble_def Let_def NewServer_def isAllowed_def)
  have "rp_status (fst (serve plain_world (\<lambda>_. 0) (SingleRate ''usd'' ''USD'') p)) = 200"
    using singleRate_answers [of ?s "''usd''" "''USD''" "aggregator_of c" "w_engine plain_world" "\<lambda>_. 0" "w_dbtext plain_world"] s
    by (simp add: serve_def case_prod_beta up Compute_def Let_def)
  moreover note answers_name_their_pair [OF p _ rtranclp.rtrancl_refl this]
  ultimately show ?thesis using p by (auto simp: up plain_world_def)
qed

end
