(* ===== verification/Durations.thy ===== *)
theory Durations
  imports HttpFacts SchedulerFacts
begin

text \<open>
  The text of durations, as \<open>Duration.String\<close> prints them and \<open>time.ParseDuration\<close> reads them. The
  scheduler hands the interval of a provider to the cron library as the text \<open>@every <duration>\<close>
  (\<^verbatim>\<open>manager.go\<close>), a client of the history endpoint gives its step as a text, and finds the step
  that was used in the answer (\<^verbatim>\<open>httpapi.go\<close>). Fractions are scaled in floating point; the
  lemmas show that this is exact for what \<open>String\<close> prints.
\<close>

section \<open>Fractions\<close>

lemma exact_ops:
  assumes "0 \<le> n" and "n \<le> 2 ^ 53" and "0 \<le> a" and "0 < b"
  shows "of_int n = a * b \<Longrightarrow> fmul (Fin a) (Fin b) = Fin (of_int n)"
    and "of_int n = a / b \<Longrightarrow> fdiv (Fin a) (Fin b) = Fin (of_int n)"
  using f64_of_small_int [of n] assms by (simp_all add: f64_of_int_def fmul_def fdiv_def fsign_def)

lemma digit_val_bound:
  assumes "is_digit c"
  shows "digit_val c < 10" and "c \<noteq> CHR ''0'' \<Longrightarrow> 0 < digit_val c"
proof -
  have le: "48 \<le> (of_char c :: nat)" "(of_char c :: nat) \<le> 57" using assms by (simp_all add: is_digit_def)
  show "digit_val c < 10" unfolding digit_val_def using le by linarith
  assume "c \<noteq> CHR ''0''"
  then have "(of_char c :: nat) \<noteq> of_char (CHR ''0'')" by (simp only: of_char_eq_iff not_False_eq_True)
  then show "0 < digit_val c" unfolding digit_val_def using le by simp
qed

lemma digits_val_bound: "all_digits ds \<Longrightarrow> digits_val ds < 10 ^ length ds"
proof (induction ds rule: rev_induct)
  case (snoc c ds)
  then have "digit_val c < 10" by (simp add: digit_val_bound)
  with snoc show ?case by (simp add: digits_val_append)
qed simp

lemma lead_frac_exact:
  assumes "all_digits ds" and "length ds \<le> 9"
  shows "lead_frac ds = (int (digits_val ds), Fin (10 ^ length ds))"
proof -
  let ?step = "\<lambda>c (x, scale, over). if over \<or> (2 ^ 63 - 1) div 10 < x then (x, scale, True)
       else let y = 10 * x + int (digit_val c) in if 2 ^ 63 < y then (x, scale, True) else (y, fmul scale (Fin 10), False)"
  have "fold ?step ds (0, Fin 1, False) = (int (digits_val ds), Fin (10 ^ length ds), False)"
    using assms
  proof (induction ds rule: rev_induct)
    case (snoc c ds)
    have p: "(10 :: int) ^ length ds \<le> 10 ^ 8" using snoc.prems by (intro power_increasing) simp_all
    have x: "int (digits_val ds) < 10 ^ length ds" using digits_val_bound [of ds] snoc.prems
      by (metis all_digits_simps(3) of_nat_less_iff of_nat_numeral of_nat_power)
    have c: "digit_val c < 10" using snoc.prems by (simp add: digit_val_bound)
    have y: "int (digits_val ds) < 10 ^ 8" using x p by linarith
    have "fmul (Fin (10 ^ length ds)) (Fin 10) = Fin (of_int (10 * 10 ^ length ds))"
      by (rule exact_ops(1)) (use p in simp_all)
    then have m: "fmul (Fin (10 ^ length ds)) (Fin 10) = Fin (10 ^ length (ds @ [c]))" by simp
    have "\<not> (2 ^ 63 - 1) div 10 < int (digits_val ds)" "\<not> 2 ^ 63 < 10 * int (digits_val ds) + int (digit_val c)"
      using y c by simp_all
    with snoc m show ?case by (simp add: digits_val_append Let_def)
  qed simp
  then show ?thesis unfolding lead_frac_def by simp
qed

lemma digits_val_pad: "digits_val (pad p n) = n mod 10 ^ p \<and> all_digits (pad p n)"
proof (induction p arbitrary: n)
  case (Suc p)
  then show ?case by (simp add: digits_val_append mod_mult2_eq)
qed simp

text \<open>What is printed after the point: up to \<open>p\<close> digits whose value, scaled, is the remainder.\<close>

lemma frac_digits_text:
  obtains "frac_digits p n = []" "n mod 10 ^ p = 0"
  | ds where "frac_digits p n = CHR ''.'' # ds" "ds \<noteq> []" "all_digits ds" "length ds \<le> p"
      "n mod 10 ^ p = digits_val ds * 10 ^ (p - length ds)" "0 < digits_val ds"
proof -
  define ds where "ds = strip_zeros (pad p (n mod 10 ^ p))"
  obtain z where z: "pad p (n mod 10 ^ p) = ds @ zeros z" unfolding ds_def using strip_zeros_split by blast
  have v: "n mod 10 ^ p = digits_val ds * 10 ^ z"
    using digits_val_pad [of p "n mod 10 ^ p"] z by (simp add: digits_val_append)
  have d: "all_digits ds" using digits_val_pad [of p "n mod 10 ^ p"] z by simp
  have l: "p = length ds + z" using arg_cong [OF z, of length] by simp
  have f: "frac_digits p n = (if ds = [] then [] else CHR ''.'' # ds)"
    by (simp add: frac_digits_def ds_def strip_zeros_def Let_def)
  show thesis
  proof (cases "ds = []")
    case True
    with f v that(1) show thesis by simp
  next
    case False
    have "last ds \<noteq> CHR ''0''"
      using False hd_dropWhile [of "\<lambda>c. c = CHR ''0''" "rev (pad p (n mod 10 ^ p))"] by (simp add: ds_def strip_zeros_def last_rev)
    moreover have "is_digit (last ds)" using d False by (simp add: all_digits_def)
    ultimately have "0 < digit_val (last ds)" by (rule digit_val_bound(2) [rotated])
    moreover have "digits_val ds = digits_val (butlast ds) * 10 + digit_val (last ds)"
      using digits_val_append [of "butlast ds" "[last ds]"] False by simp
    ultimately show thesis using that(2) [OF _ False d] f False v l by simp
  qed
qed

section \<open>One number with its unit\<close>

text \<open>A unit, and what may follow it.\<close>

definition unit_text :: "string \<Rightarrow> bool" where
  "unit_text u \<longleftrightarrow> u \<noteq> [] \<and> list_all (\<lambda>c. c \<noteq> CHR ''.'' \<and> \<not> is_digit c) u"

definition next_term :: "string \<Rightarrow> bool" where
  "next_term r \<longleftrightarrow> r = [] \<or> is_digit (hd r)"

lemma unit_run:
  assumes "unit_text u" and "next_term r"
  shows "takeWhile (\<lambda>c. c \<noteq> CHR ''.'' \<and> \<not> is_digit c) (u @ r) = u" and "dropWhile (\<lambda>c. c \<noteq> CHR ''.'' \<and> \<not> is_digit c) (u @ r) = r"
proof -
  let ?P = "\<lambda>c. c \<noteq> CHR ''.'' \<and> \<not> is_digit c"
  have "takeWhile ?P r = []" "dropWhile ?P r = r" using assms(2) by (cases r; auto simp: next_term_def)+
  moreover have "\<forall>c \<in> set u. ?P c" using assms(1) by (simp add: unit_text_def list_all_iff)
  ultimately show "takeWhile ?P (u @ r) = u" "dropWhile ?P (u @ r) = r" by simp_all
qed

lemma unit_head: "unit_text u \<Longrightarrow> \<exists>c v. u = c # v \<and> c \<noteq> CHR ''.'' \<and> \<not> is_digit c"
  by (cases u) (simp_all add: unit_text_def)

lemma le_zdivI: "0 < k \<Longrightarrow> n * k \<le> b \<Longrightarrow> n \<le> b div k" for n :: int
  using zdiv_mono1 [of "n * k" b k] by simp

lemma duration_term_whole:
  assumes "unit_text u" and "next_term r" and "unit_ns u = Some k" and "0 < k" and "int n * k \<le> 2 ^ 63"
  shows "duration_term (decimal n @ u @ r) = Some (int n * k, r)"
proof -
  obtain c v where u: "u = c # v" "c \<noteq> CHR ''.''" "\<not> is_digit c" using unit_head [OF assms(1)] by blast
  have d: "all_digits (decimal n)" "digits_val (decimal n) = n" "decimal n \<noteq> []" using decimal_digits by auto
  have w: "takeWhile is_digit (decimal n @ u @ r) = decimal n" "dropWhile is_digit (decimal n @ u @ r) = u @ r"
    using digit_runs [OF d(1), of "u @ r"] u by simp_all
  have "\<not> starts_with ''.'' (u @ r)" using u by (simp add: starts_with_def)
  moreover have "int n \<le> 2 ^ 63 div k" using assms(4,5) by (rule le_zdivI)
  moreover have "int n \<le> int n * k" using assms(4) by (simp add: mult_le_cancel_left1)
  ultimately show ?thesis using assms(3,5) d unit_run [OF assms(1,2)]
    by (simp add: duration_term_def w Let_def lead_frac_def)
qed

lemma duration_term_frac:
  assumes "unit_text u" and "next_term r" and "unit_ns u = Some (10 ^ p)" and "p \<le> 9" and "n \<le> 2 ^ 63"
  shows "duration_term (decimal (n div 10 ^ p) @ frac_digits p n @ u @ r) = Some (int n, r)"
proof (cases rule: frac_digits_text [of p n])
  case 1
  then have "n div 10 ^ p * 10 ^ p = n" using div_mult_mod_eq [of n "10 ^ p"] by simp
  then have "int (n div 10 ^ p) * 10 ^ p = int n" by (metis of_nat_mult of_nat_numeral of_nat_power)
  then show ?thesis using 1 duration_term_whole [OF assms(1,2,3), of "n div 10 ^ p"] assms(5) by simp
next
  case (2 ds)
  obtain c v where u: "u = c # v" "c \<noteq> CHR ''.''" "\<not> is_digit c" using unit_head [OF assms(1)] by blast
  let ?n = "n div 10 ^ p" and ?f = "digits_val ds" and ?l = "length ds"
  have d: "all_digits (decimal ?n)" "digits_val (decimal ?n) = ?n" "decimal ?n \<noteq> []" using decimal_digits by auto
  have w: "takeWhile is_digit (decimal ?n @ CHR ''.'' # ds @ u @ r) = decimal ?n"
    "dropWhile is_digit (decimal ?n @ CHR ''.'' # ds @ u @ r) = CHR ''.'' # ds @ u @ r"
    using digit_runs [OF d(1), of "CHR ''.'' # ds @ u @ r"] by (simp_all add: is_digit_def)
  have x: "takeWhile is_digit (ds @ u @ r) = ds" "dropWhile is_digit (ds @ u @ r) = u @ r"
    using digit_runs [OF 2(3), of "u @ r"] u by simp_all
  have e: "lead_frac ds = (int ?f, Fin (10 ^ ?l))" using lead_frac_exact 2(3,4) assms(4) by simp
  have small: "(10 :: int) ^ k \<le> 10 ^ 9" if "k \<le> 9" for k using that by (intro power_increasing) simp_all
  have "(10 :: rat) ^ p = 10 ^ (p - ?l) * 10 ^ ?l" using 2(4) by (simp flip: power_add)
  then have eq: "of_int (10 ^ (p - ?l)) = (10 :: rat) ^ p / 10 ^ ?l" by simp
  have "p - ?l \<le> 9" using assms(4) by simp
  note s = small [OF this] small [OF assms(4)]
  have "fdiv (Fin (10 ^ p)) (Fin (10 ^ ?l)) = Fin (of_int (10 ^ (p - ?l)))"
    by (rule exact_ops(2) [OF _ _ _ _ eq]) (use s in simp_all)
  moreover have "f64_of_int (10 ^ p) = Fin (10 ^ p)" using f64_of_small_int [of "10 ^ p"] s by simp
  ultimately have q: "fdiv (f64_of_int (10 ^ p)) (Fin (10 ^ ?l)) = Fin (of_int (10 ^ (p - ?l)))" by simp
  have m: "int ?f * 10 ^ (p - ?l) = int (n mod 10 ^ p)" by (simp add: 2(5))
  moreover have "n mod 10 ^ p < 10 ^ p" by simp
  then have "int (n mod 10 ^ p) < 10 ^ p" by (metis of_nat_less_iff of_nat_numeral of_nat_power)
  ultimately have b: "int ?f * 10 ^ (p - ?l) < 10 ^ 9" using small [OF assms(4)] by linarith
  have "int ?f \<le> int ?f * 10 ^ (p - ?l)" by (simp add: mult_le_cancel_left1)
  then have "f64_of_int (int ?f) = Fin (of_int (int ?f))" using b by (intro f64_of_small_int) simp
  then have "fmul (f64_of_int (int ?f)) (fdiv (f64_of_int (10 ^ p)) (Fin (10 ^ ?l))) = Fin (of_int (int ?f * 10 ^ (p - ?l)))"
    unfolding q using exact_ops(1) [of "int ?f * 10 ^ (p - ?l)" "of_int (int ?f)" "of_int (10 ^ (p - ?l))"] b by simp
  then have g: "f64_to_int (fmul (f64_of_int (int ?f)) (fdiv (f64_of_int (10 ^ p)) (Fin (10 ^ ?l)))) = int (n mod 10 ^ p)"
    unfolding m f64_to_int_def by simp
  have "int ?n * 10 ^ p + int (n mod 10 ^ p) = int n"
    using div_mult_mod_eq [of n "10 ^ p"] by (metis of_nat_add of_nat_mult of_nat_numeral of_nat_power)
  moreover have "int n \<le> 2 ^ 63" using assms(5) by (metis of_nat_le_iff of_nat_numeral of_nat_power)
  ultimately have h: "int ?n * 10 ^ p + int (n mod 10 ^ p) = int n" "int ?n * 10 ^ p \<le> 2 ^ 63" "int n \<le> 2 ^ 63" by simp_all
  have le: "int ?n \<le> 2 ^ 63 div 10 ^ p" using h(2) by (intro le_zdivI) simp_all
  have "int ?n \<le> int ?n * 10 ^ p" by (simp add: mult_le_cancel_left1)
  then have le2: "int ?n \<le> 2 ^ 63" using h(2) by linarith
  show ?thesis unfolding 2(1)
    using d assms(3) le le2 h g 2(6) unit_run [OF assms(1,2)]
    by (simp add: duration_term_def w x e Let_def starts_with_def)
qed

section \<open>The whole text\<close>

definition span_text :: "nat \<Rightarrow> string" where
  "span_text u =
     (if u = 0 then ''0s''
      else if u < 10 ^ 3 then decimal (u div 10 ^ 0) @ frac_digits 0 u @ ''ns''
      else if u < 10 ^ 6 then decimal (u div 10 ^ 3) @ frac_digits 3 u @ [CHR 0xC2, CHR 0xB5, CHR ''s'']
      else if u < 10 ^ 9 then decimal (u div 10 ^ 6) @ frac_digits 6 u @ ''ms''
      else let s = u div 10 ^ 9; m = s div 60; h = m div 60
           in (if 0 < h then decimal h @ ''h'' else []) @ (if 0 < m then decimal (m mod 60) @ ''m'' else [])
              @ decimal (s mod 60) @ frac_digits 9 u @ ''s'')"

lemma duration_String_span: "duration_String d = (if sint d < 0 then ''-'' else []) @ span_text (nat \<bar>sint d\<bar>)"
  by (simp add: duration_String_def span_text_def Let_def)

lemma decimal_zero: "decimal 0 = ''0''"
  by code_simp

lemma decimal_first: "next_term (decimal n @ r) \<and> decimal n @ r \<noteq> []"
  using decimal_digits [of n] by (cases "decimal n") (auto simp: next_term_def)

lemma terms_step:
  assumes "duration_term s = Some (w, r)" and "acc + w \<le> 2 ^ 63" and "s \<noteq> []"
  shows "duration_terms acc s = duration_terms (acc + w) r"
  using assms by (subst duration_terms.simps) simp

lemma terms_end: "duration_terms acc [] = Some acc"
  by (simp add: duration_terms.simps)

text \<open>The last number of a text may have a fraction.\<close>

lemma terms_last:
  assumes "unit_text u" and "unit_ns u = Some (10 ^ p)" and "p \<le> 9" and "acc + int n \<le> 2 ^ 63" and "0 \<le> acc"
  shows "duration_terms acc (decimal (n div 10 ^ p) @ frac_digits p n @ u) = Some (acc + int n)"
proof -
  have "int n \<le> 2 ^ 63" using assms(4,5) by simp
  then have "n \<le> 2 ^ 63" by (metis of_nat_le_iff of_nat_numeral of_nat_power)
  then have "duration_term (decimal (n div 10 ^ p) @ frac_digits p n @ u) = Some (int n, [])"
    using duration_term_frac [OF assms(1) _ assms(2,3), of "[]" n] by (simp add: next_term_def)
  from terms_step [OF this assms(4)] decimal_first show ?thesis by (simp add: terms_end)
qed

text \<open>A whole number of a larger unit before it, which may be left out when it is zero.\<close>

lemma terms_lead:
  assumes "unit_text u" and "unit_ns u = Some k" and "0 < k" and "acc + int n * k \<le> 2 ^ 63" and "0 \<le> acc"
    and "next_term r" and "\<not> b \<Longrightarrow> n = 0"
  shows "duration_terms acc ((if b then decimal n @ u else []) @ r) = duration_terms (acc + int n * k) r"
proof (cases b)
  case True
  have "duration_term (decimal n @ u @ r) = Some (int n * k, r)"
    using duration_term_whole [OF assms(1,6,2,3), of n] assms(4,5) by simp
  from terms_step [OF this assms(4)] True decimal_first [of n] show ?thesis by simp
qed (use assms(7) in simp)

lemma units:
  "unit_text ''ns''" "unit_text ''s''" "unit_text ''ms''" "unit_text ''m''" "unit_text ''h''" "unit_text [CHR 0xC2, CHR 0xB5, CHR ''s'']"
  "unit_ns ''ns'' = Some (10 ^ 0)" "unit_ns [CHR 0xC2, CHR 0xB5, CHR ''s''] = Some (10 ^ 3)" "unit_ns ''ms'' = Some (10 ^ 6)"
  "unit_ns ''s'' = Some (10 ^ 9)" "unit_ns ''m'' = Some 60000000000" "unit_ns ''h'' = Some 3600000000000"
  by (simp_all add: unit_text_def is_digit_def unit_ns_def)

lemma clock_parts:
  fixes u :: nat
  assumes "s = u div 1000000000" and "m = s div 60" and "h = m div 60"
  shows "h * 3600000000000 + m mod 60 * 60000000000 + (s mod 60 * 1000000000 + u mod 1000000000) = u"
proof -
  have "u = s * 1000000000 + u mod 1000000000" "s = m * 60 + s mod 60" "m = h * 60 + m mod 60"
    unfolding assms by (simp_all only: div_mult_mod_eq)
  then show ?thesis by linarith
qed

lemma span_terms:
  assumes "u \<le> 2 ^ 63"
  shows "duration_terms 0 (span_text u) = Some (int u)"
proof -
  have le: "int u \<le> 2 ^ 63" using assms by (metis of_nat_le_iff of_nat_numeral of_nat_power)
  consider "u = 0" | "0 < u" "u < 10 ^ 9" | "10 ^ 9 \<le> u" by linarith
  then show ?thesis
  proof cases
    case 1
    have "duration_term ''0s'' = Some (0, [])"
      using duration_term_whole [OF units(2) _ units(10), of "[]" 0] by (simp add: next_term_def decimal_zero)
    from terms_step [OF this] show ?thesis by (simp add: 1 span_text_def terms_end)
  next
    case 2
    with terms_last [OF units(1,7), of 0 u] terms_last [OF units(6,8), of 0 u] terms_last [OF units(3,9), of 0 u] le
    show ?thesis by (simp add: span_text_def)
  next
    case 3
    define s where "s = u div 1000000000"
    define m where "m = s div 60"
    define h where "h = m div 60"
    define x where "x = s mod 60 * 1000000000 + u mod 1000000000"
    define t where "t = decimal (s mod 60) @ frac_digits 9 u @ ''s''"
    have "x div 10 ^ 9 = s mod 60" "x mod 10 ^ 9 = u mod 10 ^ 9" by (simp_all add: x_def)
    then have x: "t = decimal (x div 10 ^ 9) @ frac_digits 9 x @ ''s''" by (simp add: t_def frac_digits_def)
    have "h * 3600000000000 + m mod 60 * 60000000000 + x = u" unfolding x_def by (rule clock_parts [OF s_def m_def h_def])
    then have sum: "int h * 3600000000000 + int (m mod 60) * 60000000000 + int x = int u" by linarith
    have mm: "\<not> 0 < m \<Longrightarrow> m mod 60 = 0" by simp
    have t: "next_term t" "next_term ((if b then decimal n @ ''m'' else []) @ t)" for b n
      using decimal_first by (cases b; simp add: t_def)+
    have "span_text u = (if 0 < h then decimal h @ ''h'' else []) @ (if 0 < m then decimal (m mod 60) @ ''m'' else []) @ t"
      using 3 by (simp add: span_text_def t_def h_def m_def s_def Let_def)
    also have "duration_terms 0 \<dots> = duration_terms (0 + int h * 3600000000000) ((if 0 < m then decimal (m mod 60) @ ''m'' else []) @ t)"
      by (rule terms_lead [OF units(5,12) _ _ _ t(2)]) (use sum le in linarith)+
    also have "\<dots> = duration_terms (0 + int h * 3600000000000 + int (m mod 60) * 60000000000) t"
      by (rule terms_lead [OF units(4,11) _ _ _ t(1) mm]) (use sum le in linarith)+
    also have "\<dots> = Some (0 + int h * 3600000000000 + int (m mod 60) * 60000000000 + int x)"
      unfolding x by (rule terms_last [OF units(2,10)]) (use sum le in linarith)+
    also have "\<dots> = Some (int u)" using sum by simp
    finally show ?thesis .
  qed
qed

lemma span_first: "\<exists>c r. span_text u = c # r \<and> is_digit c"
proof -
  have "\<exists>a b. (if c then decimal n @ x else []) @ decimal k @ y = decimal a @ b" for c n x k y by (cases c) auto
  from this [of _ _ "''h''"] this [of _ _ "''m''"] have "\<exists>a b. (if c then decimal n @ ''h'' else [])
      @ (if d then decimal k @ ''m'' else []) @ decimal l @ y = decimal a @ b" for c n d k l y
    by (cases c; cases d) auto
  moreover have "''0s'' = decimal 0 @ ''s''" by (simp add: decimal_zero)
  ultimately have "\<exists>a b. span_text u = decimal a @ b" unfolding span_text_def Let_def by metis
  then show ?thesis using decimal_first by (metis next_term_def list.collapse)
qed

lemma ParseDuration_String: "ParseDuration (duration_String d) = Some d"
proof -
  let ?u = "nat \<bar>sint d\<bar>"
  have range: "- (2 ^ 63) \<le> sint d" "sint d \<le> 2 ^ 63 - 1" using go_int_bounds [of d] by simp_all
  then have t: "duration_terms 0 (span_text ?u) = Some \<bar>sint d\<bar>" using span_terms [of ?u] by simp
  obtain c r where f: "span_text ?u = c # r" "is_digit c" using span_first by blast
  have "duration_term ''0'' = None" by code_simp
  then have "duration_terms 0 ''0'' = None" by (subst duration_terms.simps) simp
  then have "span_text ?u \<noteq> ''0''" using t by auto
  moreover have "scan_sign (duration_String d) = (sint d < 0, span_text ?u)"
    using f by (auto simp: duration_String_span scan_sign_digit) (simp_all add: scan_sign_def)
  ultimately show ?thesis using t f range by (auto simp: ParseDuration_def)
qed

section \<open>The interval of a provider\<close>

text \<open>
  C19: a provider without a cron expression is entered with the interval \<open>ComputeSchedule\<close> chose. The
  job \<open>Add\<close> appends to the entries of the cron library carries \<open>@every\<close> and the text of a duration,
  and reading that text back gives back the interval to the nanosecond, so nothing of
  it is lost on the way through the library's parser; it is never zero, for every daily budget.
  With a cron expression the entry is that expression.
\<close>

theorem booked_interval_reads_back:
  assumes "Add cron_error j (ComputeSchedule n expr) m = (None, m')"
  shows "\<exists>e. mg_entries m' = mg_entries m @ [(e, FetchJob j)]
    \<and> (if expr = [] then \<exists>t. e = ''@every '' @ t \<and> ParseDuration t = Some (sc_Every (ComputeSchedule n []))
         \<and> sint second \<le> sint (sc_Every (ComputeSchedule n [])) else e = expr)"
proof -
  have "sc_Kind (ComputeSchedule n []) = KindEvery" by (simp add: ComputeSchedule_def Let_def)
  moreover have "sint second \<le> sint (sc_Every (ComputeSchedule n []))"
    using interval_at_least_second [of n] by (cases "0 < sint n") (simp_all add: ComputeSchedule_def)
  moreover have "expr \<noteq> [] \<Longrightarrow> sc_Kind (ComputeSchedule n expr) = KindCron \<and> sc_Cron (ComputeSchedule n expr) = expr"
    by (simp add: ComputeSchedule_def)
  moreover have "mg_entries m' = mg_entries m @ [(entry_expr (ComputeSchedule n expr), FetchJob j)]"
    using assms by (auto simp: Add_def AddFunc_def split: option.splits)
  ultimately show ?thesis using ParseDuration_String
    by (intro exI [of _ "entry_expr (ComputeSchedule n expr)"]) (auto simp: entry_expr_def)
qed

theorem booked_interval_reads_back_witness:
  "\<exists>m' t. Add (\<lambda>_. None) (sample_job (Inr []) 1) (ComputeSchedule 1000 []) (NewManager sample_db) = (None, m')
     \<and> map fst (mg_entries m') = [''@every '' @ t] \<and> ParseDuration t = Some (sc_Every (ComputeSchedule 1000 []))"
proof -
  obtain m' where m: "Add (\<lambda>_. None) (sample_job (Inr []) 1) (ComputeSchedule 1000 []) (NewManager sample_db) = (None, m')"
    by (auto simp: Add_def AddFunc_def)
  from booked_interval_reads_back [OF m] m show ?thesis by (auto simp: NewManager_def)
qed

section \<open>The window of a history\<close>

text \<open>The query that names a window the way the answer of the history endpoint does.\<close>

definition echoed :: "time \<Rightarrow> time \<Rightarrow> duration \<Rightarrow> string \<Rightarrow> string" where
  "echoed start finish step =
     (\<lambda>_. [])(''start'' := fmt_rfc3339 start, ''end'' := fmt_rfc3339 finish, ''step'' := duration_String step)"

lemma echoed_window:
  assumes "fmt_range start" and "fmt_range finish" and "sint minute \<le> sint step" and "sint step \<le> sint (24 * hour)"
  shows "history_window now (echoed start finish step) = Inr (to_second start, to_second finish, step)"
proof -
  have p: "parse_rfc3339 [] = None" "ParseDuration [] = None" by code_simp+
  have "fmt_rfc3339 start \<noteq> []" "fmt_rfc3339 finish \<noteq> []" "duration_String step \<noteq> []"
    using parse_fmt_rfc3339 [OF assms(1)] parse_fmt_rfc3339 [OF assms(2)] ParseDuration_String [of step] p by auto
  then show ?thesis using assms ParseDuration_String [of step]
    by (simp add: history_window_def param_def echoed_def parse_fmt_rfc3339)
qed

lemma window_step:
  assumes "history_window now q = Inr (start, finish, step)"
  shows "sint minute \<le> sint step" and "sint step \<le> sint (24 * hour)"
  using assms by (auto simp: history_window_def param_def split: if_splits option.splits)

lemma historySide_seconds: "historySide E quote (to_second a) (to_second b) step d = historySide E quote a b step d"
  by (simp add: historySide_def History_def)

lemma AggHistory_seconds: "AggHistory E cfg from to (to_second a) (to_second b) step d = AggHistory E cfg from to a b step d"
  by (simp add: AggHistory_def Let_def historySide_seconds)

text \<open>
  C16: the window of an answer can be asked for again. Let a request for a history, with any or
  none of its three parameters given, be accepted with a window and a step. The answer
  reports the start, the end and the step as texts, the times cut to the second. A later
  request that gives these texts as its parameters is the same request: from the same state, at
  the same times, it is answered with the same response, from the cache or from the database,
  and leaves the same state.
\<close>

theorem reported_window_can_be_repeated:
  assumes "history_window now q = Inr (start, finish, step)" and "fmt_range start" and "fmt_range finish"
  shows "historyHandler E dbtext (clk(0 := now')) base quote (echoed start finish step) s
       = historyHandler E dbtext (clk(0 := now)) base quote q s"
proof -
  note w = echoed_window [OF assms(2,3) window_step [OF assms(1)], of now']
  have k: "history_key x y (to_second start) (to_second finish) step = history_key x y start finish step" for x y
    by (simp add: history_key_def)
  show ?thesis
    by (cases "sv_agg s") (simp_all add: historyHandler_def Let_def assms(1) w k AggHistory_seconds split: prod.split option.split sum.split)
qed

theorem reported_window_can_be_repeated_witness:
  "historyHandler plain_engine (\<lambda>_. []) ((\<lambda>_. 86400 * ns_per_sec)(0 := 5)) ''usd'' ''eur''
     (echoed 0 (86400 * ns_per_sec) hour) (sample_server None)
   = historyHandler plain_engine (\<lambda>_. []) ((\<lambda>_. 86400 * ns_per_sec)(0 := 86400 * ns_per_sec)) ''usd'' ''eur'' no_params (sample_server None)"
proof (rule reported_window_can_be_repeated)
  show "history_window (86400 * ns_per_sec) no_params = Inr (0, 86400 * ns_per_sec, hour)"
    by (simp add: no_params_window time_add_def ns_per_sec_def)
qed (simp_all add: fmt_range_def ns_per_sec_def)

end
