(* ===== verification/MetricsConc.thy ===== *)
theory MetricsConc
  imports Metrics
begin

text \<open>
  The registry of \<^verbatim>\<open>internal/obs/metrics.go\<close> under concurrent calls. Jobs and requests update one
  registry from their own goroutines. Here a \<open>sync.Map\<close> holds addresses, the gauges, labelled
  values and counters are cells of a store, and a call is the steps it takes: \<open>LoadOrStore\<close> for
  each map on the way, then the write of the cell, which is one lock region or one atomic
  addition. Steps of different calls interleave. The theorem is that every interleaving reads
  like the sequential registry of \<open>Metrics\<close> after the same updates, in the order of their writes.
\<close>

section \<open>Cells behind a map\<close>

text \<open>\<open>LoadOrStore(k, new)\<close>: the address at \<open>k\<close>, which is the new one when there was none.\<close>

definition LoadOrStore :: "'k \<Rightarrow> nat \<Rightarrow> ('k \<rightharpoonup> nat) \<Rightarrow> nat \<times> ('k \<rightharpoonup> nat)" where
  "LoadOrStore k new m = (case m k of Some a \<Rightarrow> (a, m) | None \<Rightarrow> (new, m(k \<mapsto> new)))"

definition cell_read :: "'v \<Rightarrow> ('k \<rightharpoonup> nat) \<Rightarrow> (nat \<Rightarrow> 'v) \<Rightarrow> 'k \<Rightarrow> 'v" where
  "cell_read zero m cells k = (case m k of None \<Rightarrow> zero | Some a \<Rightarrow> cells a)"

text \<open>No two keys share a cell, and all cells have been allocated.\<close>

definition owned :: "('k \<rightharpoonup> nat) \<Rightarrow> nat \<Rightarrow> bool" where
  "owned m limit \<longleftrightarrow> (\<forall>k a. m k = Some a \<longrightarrow> a < limit) \<and> (\<forall>k k' a. m k = Some a \<longrightarrow> m k' = Some a \<longrightarrow> k = k')"

definition blank :: "'v \<Rightarrow> (nat \<Rightarrow> 'v) \<Rightarrow> nat \<Rightarrow> bool" where
  "blank zero cells limit \<longleftrightarrow> (\<forall>a. limit \<le> a \<longrightarrow> cells a = zero)"

lemma owned_empty [simp]: "owned Map.empty n"
  by (simp add: owned_def)

lemma owned_Suc: "owned m n \<Longrightarrow> owned m (Suc n)"
  by (auto simp: owned_def less_Suc_eq)

lemma blank_Suc: "blank z c n \<Longrightarrow> blank z c (Suc n)"
  by (simp add: blank_def)

lemma blank_write: "blank z c n \<Longrightarrow> a < n \<Longrightarrow> blank z (c(a := v)) n"
  by (auto simp: blank_def)

lemma LoadOrStore_cases:
  assumes "LoadOrStore k n m = (a, m')"
  obtains (old) "m k = Some a" "m' = m" | (new) "m k = None" "a = n" "m' = m(k \<mapsto> n)"
  using assms by (auto simp: LoadOrStore_def split: option.splits)

lemma owned_insert: "owned m n \<Longrightarrow> owned (m(k \<mapsto> n)) (Suc n)"
  unfolding owned_def by (auto simp: less_Suc_eq split: if_splits)

lemma LoadOrStore_owned:
  assumes "owned m n" and "LoadOrStore k n m = (a, m')"
  shows "owned m' (Suc n)" and "m' k = Some a"
  using assms(2) by (cases rule: LoadOrStore_cases; simp add: assms(1) owned_Suc owned_insert)+

lemma LoadOrStore_extends: "LoadOrStore k n m = (a, m') \<Longrightarrow> m \<subseteq>\<^sub>m m'"
  by (erule LoadOrStore_cases) (auto simp: map_le_def)

lemma LoadOrStore_read:
  assumes "blank z c n" and "LoadOrStore k n m = (a, m')"
  shows "cell_read z m' c = cell_read z m c"
  using assms(2)
proof (cases rule: LoadOrStore_cases)
  case new
  then show ?thesis using assms(1) by (simp add: fun_eq_iff cell_read_def blank_def)
qed simp

lemma write_read:
  assumes "owned m n" and "m k = Some a"
  shows "cell_read z m (c(a := v)) j = (if j = k then v else cell_read z m c j)"
  using assms by (auto simp: cell_read_def owned_def split: option.split)

section \<open>The registry and its calls\<close>

record registry =
  rg_gauges :: "string \<rightharpoonup> nat"
  rg_counters :: "string \<rightharpoonup> nat"
  rg_labeled :: "string \<rightharpoonup> nat"
  rg_maps :: "nat \<Rightarrow> string \<rightharpoonup> nat"
  rg_gauge_cells :: "nat \<Rightarrow> f64"
  rg_label_cells :: "nat \<Rightarrow> f64"
  rg_words :: "nat \<Rightarrow> 64 word"
  rg_next :: nat

definition new_registry :: registry where
  "new_registry = \<lparr>rg_gauges = Map.empty, rg_counters = Map.empty, rg_labeled = Map.empty, rg_maps = (\<lambda>_. Map.empty),
     rg_gauge_cells = (\<lambda>_. Fin 0), rg_label_cells = (\<lambda>_. Fin 0), rg_words = (\<lambda>_. 0), rg_next = 0\<rparr>"

datatype update = Gauge string f64 | Count string "64 word" | Labeled string string f64

text \<open>Where a call is: not running, holding the map of a name, or holding its cell.\<close>

datatype call = Idle | InMap string string f64 nat | AtCell update nat

fun begin_update :: "update \<Rightarrow> registry \<Rightarrow> call \<times> registry" where
  "begin_update (Gauge n v) R = (case LoadOrStore n (rg_next R) (rg_gauges R) of
     (a, m) \<Rightarrow> (AtCell (Gauge n v) a, R\<lparr>rg_gauges := m, rg_next := Suc (rg_next R)\<rparr>))"
| "begin_update (Count n d) R = (case LoadOrStore n (rg_next R) (rg_counters R) of
     (a, m) \<Rightarrow> (AtCell (Count n d) a, R\<lparr>rg_counters := m, rg_next := Suc (rg_next R)\<rparr>))"
| "begin_update (Labeled n l v) R = (case LoadOrStore n (rg_next R) (rg_labeled R) of
     (a, m) \<Rightarrow> (InMap n l v a, R\<lparr>rg_labeled := m, rg_next := Suc (rg_next R)\<rparr>))"

definition enter_map :: "string \<Rightarrow> string \<Rightarrow> f64 \<Rightarrow> nat \<Rightarrow> registry \<Rightarrow> call \<times> registry" where
  "enter_map n l v a R = (case LoadOrStore l (rg_next R) (rg_maps R a) of
     (c, m) \<Rightarrow> (AtCell (Labeled n l v) c, R\<lparr>rg_maps := (rg_maps R)(a := m), rg_next := Suc (rg_next R)\<rparr>))"

text \<open>\<open>gauge.set\<close> and \<open>float64Mutex.set\<close> write in one region of their lock.\<close>

definition gauge_set :: "nat \<Rightarrow> f64 \<Rightarrow> registry \<Rightarrow> registry" where
  [simp]: "gauge_set a v R = R\<lparr>rg_gauge_cells := (rg_gauge_cells R)(a := v)\<rparr>"

definition float64Mutex_set :: "nat \<Rightarrow> f64 \<Rightarrow> registry \<Rightarrow> registry" where
  [simp]: "float64Mutex_set a v R = R\<lparr>rg_label_cells := (rg_label_cells R)(a := v)\<rparr>"

fun write_cell :: "update \<Rightarrow> nat \<Rightarrow> registry \<Rightarrow> registry" where
  "write_cell (Gauge n v) a R = gauge_set a v R"
| "write_cell (Count n d) a R = R\<lparr>rg_words := (rg_words R)(a := rg_words R a + d)\<rparr>"
| "write_cell (Labeled n l v) a R = float64Mutex_set a v R"

text \<open>The updates whose write has happened are recorded in order.\<close>

record shared =
  sh_reg :: registry
  sh_calls :: "nat \<Rightarrow> call"
  sh_done :: "update list"

inductive metrics_step :: "shared \<Rightarrow> shared \<Rightarrow> bool" where
  call_begins: "sh_calls s i = Idle \<Longrightarrow> begin_update u (sh_reg s) = (c, R) \<Longrightarrow>
    metrics_step s (s\<lparr>sh_reg := R, sh_calls := (sh_calls s)(i := c)\<rparr>)"
| call_enters: "sh_calls s i = InMap n l v a \<Longrightarrow> enter_map n l v a (sh_reg s) = (c, R) \<Longrightarrow>
    metrics_step s (s\<lparr>sh_reg := R, sh_calls := (sh_calls s)(i := c)\<rparr>)"
| call_writes: "sh_calls s i = AtCell u a \<Longrightarrow>
    metrics_step s (s\<lparr>sh_reg := write_cell u a (sh_reg s), sh_calls := (sh_calls s)(i := Idle), sh_done := sh_done s @ [u]\<rparr>)"

definition quiet :: shared where
  "quiet = \<lparr>sh_reg = new_registry, sh_calls = (\<lambda>_. Idle), sh_done = []\<rparr>"

text \<open>What \<open>GetGauge\<close>, the counters and \<open>LabeledValue\<close> read.\<close>

definition label_map :: "registry \<Rightarrow> string \<times> string \<rightharpoonup> nat" where
  "label_map R = (\<lambda>(n, l). Option.bind (rg_labeled R n) (\<lambda>a. rg_maps R a l))"

definition read_gauge :: "registry \<Rightarrow> string \<Rightarrow> f64" where
  "read_gauge R = cell_read (Fin 0) (rg_gauges R) (rg_gauge_cells R)"

definition read_counter :: "registry \<Rightarrow> string \<Rightarrow> 64 word" where
  "read_counter R = cell_read 0 (rg_counters R) (rg_words R)"

definition read_labeled :: "registry \<Rightarrow> string \<times> string \<Rightarrow> f64" where
  "read_labeled R = cell_read (Fin 0) (label_map R) (rg_label_cells R)"

section \<open>The invariant\<close>

definition registry_ok :: "registry \<Rightarrow> bool" where
  "registry_ok R \<longleftrightarrow> owned (rg_gauges R) (rg_next R) \<and> owned (rg_counters R) (rg_next R) \<and> owned (rg_labeled R) (rg_next R)
     \<and> owned (label_map R) (rg_next R) \<and> (\<forall>a. rg_next R \<le> a \<longrightarrow> rg_maps R a = Map.empty)
     \<and> blank (Fin 0) (rg_gauge_cells R) (rg_next R) \<and> blank (Fin 0) (rg_label_cells R) (rg_next R) \<and> blank 0 (rg_words R) (rg_next R)"

fun call_ok :: "registry \<Rightarrow> call \<Rightarrow> bool" where
  "call_ok R Idle = True"
| "call_ok R (InMap n l v a) = (rg_labeled R n = Some a)"
| "call_ok R (AtCell (Gauge n v) a) = (rg_gauges R n = Some a)"
| "call_ok R (AtCell (Count n d) a) = (rg_counters R n = Some a)"
| "call_ok R (AtCell (Labeled n l v) a) = (label_map R (n, l) = Some a)"

text \<open>Entries are never removed or replaced.\<close>

definition extends :: "registry \<Rightarrow> registry \<Rightarrow> bool" where
  "extends R R' \<longleftrightarrow> rg_gauges R \<subseteq>\<^sub>m rg_gauges R' \<and> rg_counters R \<subseteq>\<^sub>m rg_counters R' \<and> rg_labeled R \<subseteq>\<^sub>m rg_labeled R'
     \<and> label_map R \<subseteq>\<^sub>m label_map R'"

lemma call_ok_extends: "call_ok R c \<Longrightarrow> extends R R' \<Longrightarrow> call_ok R' c"
  by (induction R c rule: call_ok.induct) (auto simp: extends_def map_le_def dom_def)

lemma calls_ok_extends:
  assumes "\<forall>i. call_ok R (f i)" and "extends R R'" and "call_ok R' c"
  shows "\<forall>k. call_ok R' ((f(i := c)) k)"
  using call_ok_extends [OF _ assms(2)] assms(1,3) by simp

lemma label_map_frame [simp]:
  "label_map (R\<lparr>rg_gauges := g\<rparr>) = label_map R" "label_map (R\<lparr>rg_counters := g\<rparr>) = label_map R"
  "label_map (R\<lparr>rg_next := k\<rparr>) = label_map R" "label_map (R\<lparr>rg_gauge_cells := c\<rparr>) = label_map R"
  "label_map (R\<lparr>rg_label_cells := c\<rparr>) = label_map R" "label_map (R\<lparr>rg_words := w\<rparr>) = label_map R"
  by (simp_all add: label_map_def)

text \<open>A new inner map is empty; entering it stores one label.\<close>

lemma label_map_begin:
  assumes "registry_ok R" and "LoadOrStore n (rg_next R) (rg_labeled R) = (a, m)"
  shows "label_map (R\<lparr>rg_labeled := m, rg_next := k\<rparr>) = label_map R"
  using assms(2)
proof (cases rule: LoadOrStore_cases)
  case new
  have "rg_maps R (rg_next R) = Map.empty" using assms(1) by (simp add: registry_ok_def)
  with new show ?thesis by (simp add: fun_eq_iff label_map_def)
qed (simp add: label_map_def)

lemma label_map_enter:
  assumes "registry_ok R" and "rg_labeled R n = Some a" and "LoadOrStore l (rg_next R) (rg_maps R a) = (c, m)"
  shows "LoadOrStore (n, l) (rg_next R) (label_map R) = (c, label_map (R\<lparr>rg_maps := (rg_maps R)(a := m)\<rparr>))"
    (is "_ = (c, ?L)")
proof -
  have only: "rg_labeled R n' = Some a \<longleftrightarrow> n' = n" for n' using assms(1,2) by (auto simp: registry_ok_def owned_def)
  have at: "label_map R (n, l) = rg_maps R a l" by (simp add: label_map_def assms(2))
  have L: "?L (n', l') = (if n' = n then m l' else label_map R (n', l'))" for n' l'
    using only [of n'] assms(2) by (cases "rg_labeled R n'") (auto simp: label_map_def)
  have same: "label_map R (n, l') = rg_maps R a l'" for l' by (simp add: label_map_def assms(2))
  from assms(3) show ?thesis
  proof (cases rule: LoadOrStore_cases)
    case old
    have "?L = label_map R" by (auto simp: fun_eq_iff L old(2) same)
    then show ?thesis using old(1) by (simp add: LoadOrStore_def at)
  next
    case new
    have "?L (n', l') = ((label_map R)((n, l) \<mapsto> rg_next R)) (n', l')" for n' l'
      unfolding L by (simp add: new(3) same)
    then have "?L = (label_map R)((n, l) \<mapsto> rg_next R)" by (simp add: fun_eq_iff)
    then show ?thesis using new(1,2) by (simp add: LoadOrStore_def at)
  qed
qed

text \<open>What an observer reads is unchanged until the write.\<close>

definition same_reads :: "registry \<Rightarrow> registry \<Rightarrow> bool" where
  "same_reads R R' \<longleftrightarrow> read_gauge R' = read_gauge R \<and> read_counter R' = read_counter R \<and> read_labeled R' = read_labeled R"

lemmas reads_defs = same_reads_def read_gauge_def read_counter_def read_labeled_def

lemma begin_update_ok:
  assumes "registry_ok R" and "begin_update u R = (c, R')"
  shows "registry_ok R' \<and> call_ok R' c \<and> extends R R' \<and> same_reads R R'"
proof (cases u)
  case (Gauge n v)
  obtain a m where l: "LoadOrStore n (rg_next R) (rg_gauges R) = (a, m)" by fastforce
  note facts = LoadOrStore_owned [OF _ l] LoadOrStore_extends [OF l] LoadOrStore_read [OF _ l]
  show ?thesis using assms Gauge facts
    by (auto simp: l registry_ok_def extends_def reads_defs owned_Suc blank_Suc)
next
  case (Count n d)
  obtain a m where l: "LoadOrStore n (rg_next R) (rg_counters R) = (a, m)" by fastforce
  note facts = LoadOrStore_owned [OF _ l] LoadOrStore_extends [OF l] LoadOrStore_read [OF _ l]
  show ?thesis using assms Count facts
    by (auto simp: l registry_ok_def extends_def reads_defs owned_Suc blank_Suc)
next
  case (Labeled n l v)
  obtain a m where l: "LoadOrStore n (rg_next R) (rg_labeled R) = (a, m)" by fastforce
  note facts = LoadOrStore_owned [OF _ l] LoadOrStore_extends [OF l] label_map_begin [OF assms(1) l]
  show ?thesis using assms Labeled facts
    by (auto simp: l registry_ok_def extends_def reads_defs owned_Suc blank_Suc)
qed

lemma enter_map_ok:
  assumes "registry_ok R" and "call_ok R (InMap n l v a)" and "enter_map n l v a R = (c, R')"
  shows "registry_ok R' \<and> call_ok R' c \<and> extends R R' \<and> same_reads R R'"
proof -
  obtain x m where l: "LoadOrStore l (rg_next R) (rg_maps R a) = (x, m)" by fastforce
  have "a < rg_next R" using assms(1,2) by (auto simp: registry_ok_def owned_def)
  moreover note L = label_map_enter [OF assms(1) _ l, of n]
  note facts = LoadOrStore_owned [OF _ L] LoadOrStore_extends [OF L] LoadOrStore_read [OF _ L]
  ultimately show ?thesis using assms facts
    by (auto simp: enter_map_def l registry_ok_def extends_def reads_defs owned_Suc blank_Suc)
qed

fun updated :: "update \<Rightarrow> registry \<Rightarrow> registry \<Rightarrow> bool" where
  "updated (Gauge n v) R R' = (read_gauge R' = (read_gauge R)(n := v) \<and> read_counter R' = read_counter R \<and> read_labeled R' = read_labeled R)"
| "updated (Count n d) R R' = (read_counter R' = (read_counter R)(n := read_counter R n + d) \<and> read_gauge R' = read_gauge R \<and> read_labeled R' = read_labeled R)"
| "updated (Labeled n l v) R R' = (read_labeled R' = (read_labeled R)((n, l) := v) \<and> read_gauge R' = read_gauge R \<and> read_counter R' = read_counter R)"

lemma write_cell_ok:
  assumes "registry_ok R" and "call_ok R (AtCell u a)"
  shows "registry_ok (write_cell u a R) \<and> extends R (write_cell u a R) \<and> updated u R (write_cell u a R)"
proof -
  have lt: "owned m k \<Longrightarrow> m x = Some a \<Longrightarrow> a < k" for m :: "'x \<rightharpoonup> nat" and k x by (auto simp: owned_def)
  have w: "cell_read 0 m c x = c a" if "m x = Some a" for m :: "string \<rightharpoonup> nat" and c :: "nat \<Rightarrow> 64 word" and x
    by (simp add: cell_read_def that)
  show ?thesis using assms
    by (cases u) (auto simp: registry_ok_def extends_def reads_defs blank_write lt write_read w fun_eq_iff)
qed

section \<open>Linearization\<close>

fun apply_update :: "update \<Rightarrow> metrics \<Rightarrow> metrics" where
  "apply_update (Gauge n v) m = SetGauge n v m"
| "apply_update (Count n d) m = AddCounter n d m"
| "apply_update (Labeled n l v) m = SetLabeled n l v m"

definition run_updates :: "update list \<Rightarrow> metrics" where
  "run_updates us = fold apply_update us NewMetrics"

lemma run_updates_ok: "metrics_ok (run_updates us)"
proof -
  have "metrics_ok m \<Longrightarrow> metrics_ok (fold apply_update us m)" for m
  proof (induction us arbitrary: m)
    case (Cons u us)
    then show ?case by (cases u) (simp_all add: metrics_ok_updates)
  qed simp
  then show ?thesis by (simp add: run_updates_def metrics_ok_new)
qed

definition agrees :: "registry \<Rightarrow> metrics \<Rightarrow> bool" where
  "agrees R m \<longleftrightarrow> (\<forall>n. read_gauge R n = GetGauge n m) \<and> (\<forall>n. read_counter R n = counter_value n m)
     \<and> (\<forall>n l. read_labeled R (n, l) = LabeledValue n l m)"

lemma agrees_same: "agrees R m \<Longrightarrow> same_reads R R' \<Longrightarrow> agrees R' m"
  by (simp add: agrees_def same_reads_def)

lemma GetGauge_other [simp]: "GetGauge k (AddCounter n d m) = GetGauge k m" "GetGauge k (SetLabeled n l v m) = GetGauge k m"
  by (simp_all add: GetGauge_def AddCounter_def SetLabeled_def)

lemma agrees_updated:
  assumes "agrees R m" and "metrics_ok m" and "updated u R R'"
  shows "agrees R' (apply_update u m)"
  using assms by (cases u)
    (auto simp: agrees_def GetGauge_SetGauge LabeledValue_SetLabeled counter_value_AddCounter)

definition shared_ok :: "shared \<Rightarrow> bool" where
  "shared_ok s \<longleftrightarrow> registry_ok (sh_reg s) \<and> (\<forall>i. call_ok (sh_reg s) (sh_calls s i)) \<and> agrees (sh_reg s) (run_updates (sh_done s))"

lemma shared_ok_quiet: "shared_ok quiet"
proof -
  have "owned (\<lambda>(n :: string, l :: string). None) 0" by (simp add: owned_def)
  then show ?thesis
    by (simp add: shared_ok_def quiet_def registry_ok_def new_registry_def label_map_def blank_def agrees_def
      read_gauge_def read_counter_def read_labeled_def cell_read_def run_updates_def NewMetrics_def
      GetGauge_def counter_value_def LabeledValue_def gm.get_empty)
qed

text \<open>A step that leads a call to its cell, and the write.\<close>

lemma shared_ok_lead:
  assumes "shared_ok s" and "registry_ok R \<and> call_ok R c \<and> extends (sh_reg s) R \<and> same_reads (sh_reg s) R"
  shows "shared_ok (s\<lparr>sh_reg := R, sh_calls := (sh_calls s)(i := c)\<rparr>)"
  using assms calls_ok_extends [of "sh_reg s" "sh_calls s" R c] agrees_same [of "sh_reg s" _ R]
  unfolding shared_ok_def by simp

lemma shared_ok_write:
  assumes "shared_ok s" and "call_ok (sh_reg s) (AtCell u a)"
  shows "shared_ok (s\<lparr>sh_reg := write_cell u a (sh_reg s), sh_calls := (sh_calls s)(i := Idle), sh_done := sh_done s @ [u]\<rparr>)"
proof -
  let ?R = "write_cell u a (sh_reg s)"
  have ok: "registry_ok ?R" "extends (sh_reg s) ?R" "updated u (sh_reg s) ?R"
    using write_cell_ok [OF _ assms(2)] assms(1) by (simp_all add: shared_ok_def)
  have "run_updates (sh_done s @ [u]) = apply_update u (run_updates (sh_done s))" by (simp add: run_updates_def)
  then have "agrees ?R (run_updates (sh_done s @ [u]))"
    using agrees_updated [OF _ run_updates_ok ok(3)] assms(1) by (simp add: shared_ok_def)
  then show ?thesis using ok(1) calls_ok_extends [OF _ ok(2), of "sh_calls s" Idle] assms(1) unfolding shared_ok_def by simp
qed

lemma shared_ok_step:
  assumes "metrics_step s s'" and "shared_ok s"
  shows "shared_ok s'"
  using assms(1)
proof cases
  case (call_begins i u c R)
  then show ?thesis using shared_ok_lead [OF assms(2) begin_update_ok] assms(2) by (simp add: shared_ok_def)
next
  case (call_enters i n l v a c R)
  have "call_ok (sh_reg s) (InMap n l v a)" using assms(2) call_enters(2) unfolding shared_ok_def by metis
  then show ?thesis using shared_ok_lead [OF assms(2) enter_map_ok] assms(2) call_enters by (simp add: shared_ok_def)
next
  case (call_writes i u a)
  have "call_ok (sh_reg s) (AtCell u a)" using assms(2) call_writes(2) unfolding shared_ok_def by metis
  then show ?thesis using shared_ok_write [OF assms(2)] call_writes(1) by simp
qed

text \<open>
  C12: concurrent updates of the metrics linearize. However the steps of any number of calls
  interleave, from a new registry on, the gauges, counters and labelled values that can be read
  are those of the sequential registry after the updates whose write has happened, in the order
  of these writes. So a counter is the sum of the increments that were made, modulo \<open>2^64\<close>, and
  none is lost, also not when two calls create the counter at the same time.
\<close>

theorem concurrent_updates_linearize:
  assumes "metrics_step\<^sup>*\<^sup>* quiet s"
  shows "agrees (sh_reg s) (run_updates (sh_done s))
    \<and> read_counter (sh_reg s) n = (\<Sum>u\<leftarrow>sh_done s. case u of Count k d \<Rightarrow> if k = n then d else 0 | _ \<Rightarrow> 0)"
proof -
  have "shared_ok s" using assms by (induction rule: rtranclp_induct) (auto intro: shared_ok_quiet shared_ok_step)
  then have a: "agrees (sh_reg s) (run_updates (sh_done s))" by (simp add: shared_ok_def)
  have "counter_value n (run_updates us) = (\<Sum>u\<leftarrow>us. case u of Count k d \<Rightarrow> if k = n then d else 0 | _ \<Rightarrow> 0)" for us
  proof (induction us rule: rev_induct)
    case (snoc u us)
    then show ?case using run_updates_ok [of us]
      by (cases u) (simp_all add: run_updates_def counter_value_AddCounter)
  qed (simp add: run_updates_def NewMetrics_def counter_value_def gm.get_empty)
  then show ?thesis using a by (simp add: agrees_def)
qed

text \<open>Two calls that create and add to one counter at the same time.\<close>

theorem concurrent_updates_linearize_witness:
  "\<exists>s. metrics_step\<^sup>*\<^sup>* quiet s \<and> sh_done s = [Count ''n'' 5, Count ''n'' 2] \<and> read_counter (sh_reg s) ''n'' = 7"
proof -
  have add: "s = s0\<lparr>sh_reg := R, sh_calls := (sh_calls s0)(i := c)\<rparr> \<Longrightarrow> sh_calls s0 i = Idle \<Longrightarrow> begin_update u (sh_reg s0) = (c, R)
      \<Longrightarrow> metrics_step s0 s" for s s0 R i c u using call_begins by blast
  define R0 where "R0 = new_registry"
  define R1 where "R1 = R0\<lparr>rg_counters := [''n'' \<mapsto> 0], rg_next := 1\<rparr>"
  define R2 where "R2 = R1\<lparr>rg_next := 2\<rparr>"
  define s1 where "s1 = quiet\<lparr>sh_reg := R1, sh_calls := (sh_calls quiet)(1 := AtCell (Count ''n'' 2) 0)\<rparr>"
  define s2 where "s2 = s1\<lparr>sh_reg := R2, sh_calls := (sh_calls s1)(2 := AtCell (Count ''n'' 5) 0)\<rparr>"
  define s3 where "s3 = s2\<lparr>sh_reg := write_cell (Count ''n'' 5) 0 (sh_reg s2), sh_calls := (sh_calls s2)(2 := Idle), sh_done := sh_done s2 @ [Count ''n'' 5]\<rparr>"
  define s4 where "s4 = s3\<lparr>sh_reg := write_cell (Count ''n'' 2) 0 (sh_reg s3), sh_calls := (sh_calls s3)(1 := Idle), sh_done := sh_done s3 @ [Count ''n'' 2]\<rparr>"
  have "metrics_step quiet s1" by (rule add [OF s1_def, where u = "Count ''n'' 2"]) (simp_all add: quiet_def LoadOrStore_def R1_def R0_def new_registry_def)
  moreover have "metrics_step s1 s2"
    by (rule add [OF s2_def, where u = "Count ''n'' 5"]) (simp_all add: s1_def quiet_def LoadOrStore_def R2_def R1_def)
  moreover have "metrics_step s2 s3" unfolding s3_def by (rule call_writes) (simp add: s2_def)
  moreover have "metrics_step s3 s4" unfolding s4_def by (rule call_writes) (simp add: s3_def s2_def s1_def)
  ultimately have r: "metrics_step\<^sup>*\<^sup>* quiet s4" by (meson converse_rtranclp_into_rtranclp rtranclp.rtrancl_refl)
  have "sh_done s4 = [Count ''n'' 5, Count ''n'' 2]" by (simp add: s4_def s3_def s2_def s1_def quiet_def)
  with r concurrent_updates_linearize [OF r, of "''n''"] show ?thesis by (intro exI [of _ s4]) simp
qed

end
