(* ===== verification/Reports.thy ===== *)
theory Reports
  imports ProgramFacts MetricsConc
begin

text \<open>
  What the service reports about its providers: \<open>handleProviders\<close> and \<open>refreshProviderMetrics\<close> of
  \<^verbatim>\<open>internal/httpapi/httpapi.go\<close>. Both read the stored providers and the usage of the day. The
  metrics are labelled with the quoted name of a provider; quoting (\<open>%q\<close>) is injective, so no
  provider's values replace those of another.
\<close>

section \<open>Quoting is injective\<close>

lemma hexdigit_inj: "a < 16 \<Longrightarrow> b < 16 \<Longrightarrow> hexdigit a = hexdigit b \<Longrightarrow> a = b"
  using hex_digits by (metis option.inject)

lemma hex_pair_inj:
  assumes "hexdigit (of_char c div 16) = hexdigit (of_char d div 16)" and "hexdigit (of_char c mod 16) = hexdigit (of_char d mod 16)"
  shows "c = d"
proof -
  have lt: "(of_char e :: nat) div 16 < 16" for e using nat_of_char_less_256 [of e] by (simp add: less_mult_imp_div_less)
  have "(of_char c :: nat) div 16 = of_char d div 16" "(of_char c :: nat) mod 16 = of_char d mod 16"
    by (rule hexdigit_inj [OF lt lt assms(1)], rule hexdigit_inj [OF _ _ assms(2)]) simp_all
  then have "(of_char c :: nat) = of_char d" by (metis div_mult_mod_eq)
  then show ?thesis by simp
qed

lemma quote_ascii_inj: "quote_ascii c @ x = quote_ascii d @ y \<Longrightarrow> c = d \<and> x = y"
  by (auto simp: quote_ascii_def split: if_splits dest: hex_pair_inj)

lemma quote_ascii_head: "\<exists>e r. quote_ascii c = e # r \<and> of_char e < (0x80 :: nat)"
  by (simp add: quote_ascii_def)

lemma quote_step:
  "utf8_len (c # r) \<le> 1 \<Longrightarrow> quote_chars (c # r) = quote_ascii c @ quote_chars r"
  "1 < utf8_len (c # r) \<Longrightarrow> quote_chars (c # r) = take (utf8_len (c # r)) (c # r) @ quote_chars (drop (utf8_len (c # r)) (c # r))"
  by (simp_all add: Let_def drop_Cons')

lemma wide_char:
  assumes "1 < utf8_len (c # r)"
  shows "utf8_len (take (utf8_len (c # r)) (c # r) @ x) = utf8_len (c # r)"
    and "\<exists>u. take (utf8_len (c # r)) (c # r) @ x = c # u \<and> \<not> of_char c < (0x80 :: nat)"
  using utf8_len_prefix [of "c # r" "utf8_len (c # r)" x] utf8_len_1 [of c r] assms by (auto simp: take_Cons')

declare quote_chars.simps [simp del]

lemma quote_empty: "quote_chars [] = []" "quote_chars t = [] \<Longrightarrow> t = []"
  using quote_ascii_head wide_char(2) by (simp add: quote_chars.simps, cases t) (metis append_is_Nil_conv list.distinct(1) not_le quote_step)+

lemma quote_narrow: "utf8_len (c # r) \<le> 1 \<Longrightarrow> of_char (hd (quote_chars (c # r))) < (0x80 :: nat)"
  using quote_ascii_head [of c] by (auto simp: quote_step)

lemma quote_wide: "1 < utf8_len (c # r) \<Longrightarrow> \<not> of_char (hd (quote_chars (c # r))) < (0x80 :: nat) \<and> utf8_len (quote_chars (c # r)) = utf8_len (c # r)"
  using wide_char(1) [of c r] wide_char(2) [of c r] by (metis list.sel(1) quote_step(2))

lemma quote_chars_inj: "quote_chars s = quote_chars t \<Longrightarrow> s = t"
proof (induction "length s" arbitrary: s t rule: less_induct)
  case less
  show ?case
  proof (cases s; cases t)
    fix c r d u assume st: "s = c # r" "t = d # u"
    show "s = t"
    proof (cases "utf8_len s \<le> 1")
      case True
      then have "utf8_len t \<le> 1" using less.prems st quote_narrow [of c r] quote_wide [of d u] by (metis not_le)
      then have "quote_ascii c @ quote_chars r = quote_ascii d @ quote_chars u"
        using True less.prems st by (simp add: quote_step(1))
      from quote_ascii_inj [OF this] show ?thesis using less.hyps [of r u] st by simp
    next
      case False
      then have "1 < utf8_len t" using less.prems st quote_narrow [of d u] quote_wide [of c r] by (metis not_le)
      moreover define k where "k = utf8_len s"
      ultimately have k: "utf8_len t = k" "1 < k" using False less.prems st quote_wide by (metis not_le)+
      have "take k s @ quote_chars (drop k s) = take k t @ quote_chars (drop k t)"
        using less.prems st k k_def quote_step(2) [of c r] quote_step(2) [of d u] by simp
      moreover have "length (take k s) = length (take k t)" using utf8_len_le [of s] utf8_len_le [of t] k k_def by simp
      ultimately have "take k s = take k t" "quote_chars (drop k s) = quote_chars (drop k t)" by simp_all
      then show ?thesis using less.hyps [of "drop k s" "drop k t"] st k by (metis append_take_drop_id length_drop diff_less length_greater_0_conv list.distinct(1) less_trans zero_less_one)
    qed
  qed (metis less.prems quote_empty)+
qed

lemma budget_label_inj: "budget_label a = budget_label b \<longleftrightarrow> a = b"
  using quote_chars_inj by (auto simp: budget_label_def Quote_def)

section \<open>Reading the usage of the day\<close>

definition faultless :: "engine \<Rightarrow> bool" where
  "faultless E \<longleftrightarrow> (\<forall>n. fault E n = None)"

lemma used_today_count: "faultless E \<Longrightarrow> used_today E p now d = (usage_count d p now, d\<lparr>stmts := Suc (stmts d)\<rparr>)"
  by (simp add: faultless_def used_today_def UsageToday_def stmt_def usage_count_def split: option.split)

definition listed :: "engine \<Rightarrow> db \<Rightarrow> provider list" where
  "listed E d = map (row_provider E) (sort_key (\<lambda>r. - sint (pr_priority r)) (sort_key pr_name (providers d)))"

lemma ListProviders_listed: "faultless E \<Longrightarrow> ListProviders E d = (Inr (listed E d), d\<lparr>stmts := Suc (stmts d)\<rparr>)"
  by (simp add: faultless_def ListProviders_def stmt_def listed_def)

lemma provider_views_counts:
  assumes "faultless E"
  shows "fst (provider_views E now ps d) = map (\<lambda>p. provider_view p (usage_count d (p_ID p) now)) ps
    \<and> same_tables d (snd (provider_views E now ps d))"
proof (induction ps arbitrary: d)
  case (Cons p ps)
  from Cons [of "d\<lparr>stmts := Suc (stmts d)\<rparr>"] show ?case
    by (auto simp: used_today_count [OF assms] case_prod_beta intro: same_tables_trans [rotated])
qed simp

lemma provider_view_Some: "provider_view p n \<noteq> None"
  by (simp add: provider_view_def json_obj_def split: option.split)

section \<open>Refreshing the metrics\<close>

abbreviation used_metric :: string where "used_metric \<equiv> ''argosfx_budget_used_today''"
abbreviation limit_metric :: string where "limit_metric \<equiv> ''argosfx_budget_limit''"

text \<open>What \<open>refresh_budgets\<close> does to a registry, given the usage counts.\<close>

definition budgets_shown :: "(int \<Rightarrow> int) \<Rightarrow> provider list \<Rightarrow> metrics \<Rightarrow> metrics \<Rightarrow> bool" where
  "budgets_shown used ps mx mx' \<longleftrightarrow>
     metrics_ok mx' \<and> (\<forall>k. counter_value k mx' = counter_value k mx) \<and> (\<forall>k. GetGauge k mx' = GetGauge k mx)
     \<and> (\<forall>k n. n \<notin> p_Name ` set ps \<longrightarrow> LabeledValue k (budget_label n) mx' = LabeledValue k (budget_label n) mx)
     \<and> (\<forall>p \<in> set ps. LabeledValue used_metric (budget_label (p_Name p)) mx' = f64_of_int (used (p_ID p))
          \<and> LabeledValue limit_metric (budget_label (p_Name p)) mx'
            = (case p_CallsPerDay p of Some n \<Rightarrow> f64_of_int (sint n) | None \<Rightarrow> LabeledValue limit_metric (budget_label (p_Name p)) mx))"

lemma refresh_budgets_shown:
  assumes "faultless E" and "metrics_ok mx" and "distinct (map p_Name ps)"
  shows "budgets_shown (\<lambda>i. usage_count d i now) ps mx (fst (refresh_budgets E now ps mx d))"
  using assms(2,3)
proof (induction ps arbitrary: mx d)
  case (Cons p ps)
  let ?l = "budget_label (p_Name p)" and ?u = "usage_count d (p_ID p) now"
  define mx2 where "mx2 = SetLabeled used_metric ?l (f64_of_int ?u) (SetLabeled used_metric ?l (Fin 0) mx)"
  define mx3 where "mx3 = (case p_CallsPerDay p of None \<Rightarrow> mx2 | Some n \<Rightarrow> SetLabeled limit_metric ?l (f64_of_int (sint n)) mx2)"
  have ok2: "metrics_ok mx2" and ok3: "metrics_ok mx3"
    using Cons.prems(1) by (simp_all add: mx3_def mx2_def metrics_ok_updates split: option.split)
  have v2: "LabeledValue k j mx2 = (if k = used_metric \<and> j = ?l then f64_of_int ?u else LabeledValue k j mx)" for k j
    using Cons.prems(1) by (simp add: mx2_def LabeledValue_SetLabeled metrics_ok_updates)
  have v3: "LabeledValue k j mx3 = (if k = used_metric \<and> j = ?l then f64_of_int ?u
      else if k = limit_metric \<and> j = ?l then (case p_CallsPerDay p of Some n \<Rightarrow> f64_of_int (sint n) | None \<Rightarrow> LabeledValue k j mx)
      else LabeledValue k j mx)" for k j
    by (simp add: mx3_def LabeledValue_SetLabeled [OF ok2] v2 split: option.split)
  have c: "counter_value k mx3 = counter_value k mx" "GetGauge k mx3 = GetGauge k mx" for k
    by (simp_all add: mx3_def mx2_def split: option.split)
  have ne: "\<forall>q \<in> set ps. p_Name q \<noteq> p_Name p" using Cons.prems(2) by (simp add: image_iff) metis
  have "refresh_budgets E now (p # ps) mx d = refresh_budgets E now ps mx3 (d\<lparr>stmts := Suc (stmts d)\<rparr>)"
    by (cases "p_CallsPerDay p") (simp_all add: used_today_count [OF assms(1)] Let_def mx3_def mx2_def)
  with Cons.IH [OF ok3, of "d\<lparr>stmts := Suc (stmts d)\<rparr>"] Cons.prems(2) ne show ?case
    by (auto simp: budgets_shown_def c v3 budget_label_inj split: option.splits)
qed (simp add: budgets_shown_def)

lemma listed_names: "p_Name ` set (listed E d) = pr_name ` set (providers d)"
  by (simp add: listed_def image_image row_provider_def)

lemma listed_distinct: "db_ok d \<Longrightarrow> distinct (map p_Name (listed E d))"
proof -
  assume "db_ok d"
  then have "distinct (map pr_name (sort_key (\<lambda>r. - sint (pr_priority r)) (sort_key pr_name (providers d))))"
    by (simp add: db_ok_defs distinct_map)
  then show ?thesis by (simp add: listed_def comp_def row_provider_def)
qed

lemma filter_sort_key: "length (filter P (sort_key k xs)) = length (filter P xs)"
  by (metis mset_filter mset_sort size_mset)

lemma listed_enabled: "length (filter p_Enabled (listed E d)) = length (filter (\<lambda>r. pr_enabled r \<noteq> 0) (providers d))"
  by (simp add: listed_def filter_map comp_def row_provider_def filter_sort_key)

text \<open>
  C17: the metrics report the day's usage of every provider. A request of the metrics, while the
  database answers, is answered with the text of the registry as it is then: for every stored
  provider the gauge of the used calls, under the provider's quoted name, is its usage counter of
  the day, and the gauge of the limit its daily budget if it has one, so no provider's values
  are under another's label; the totals are the number of stored and of enabled providers; the
  counters of the fetches are as they were, and the tables are unchanged.
\<close>

theorem metrics_report_usage:
  assumes "faultless E" and "db_ok (sv_db s)" and "sv_store s" and "sv_metrics s = Some mx" and "metrics_ok mx"
    and "metricsHandler E clk s = (r, s')"
  shows "\<exists>mx'. sv_metrics s' = Some mx' \<and> rp_status r = 200 \<and> rp_body r = Text mx' \<and> same_tables (sv_db s) (sv_db s')
    \<and> (\<forall>p \<in> set (providers (sv_db s)).
         LabeledValue used_metric (budget_label (pr_name p)) mx' = f64_of_int (usage_count (sv_db s) (pr_id p) (clk 0))
       \<and> (\<forall>n. pr_calls_per_day p = Some n \<longrightarrow> LabeledValue limit_metric (budget_label (pr_name p)) mx' = f64_of_int (sint n)))
    \<and> GetGauge ''argosfx_providers_total'' mx' = f64_of_int (int (length (providers (sv_db s))))
    \<and> GetGauge ''argosfx_providers_enabled'' mx' = f64_of_int (int (length (filter (\<lambda>p. pr_enabled p \<noteq> 0) (providers (sv_db s)))))
    \<and> (\<forall>k. counter_value k mx' = counter_value k mx)"
proof -
  let ?d = "sv_db s" and ?ps = "listed E (sv_db s)"
  define d1 where "d1 = ?d\<lparr>stmts := Suc (stmts ?d)\<rparr>"
  define mx1 where "mx1 = SetGauge ''argosfx_providers_total'' (f64_of_int (int (length ?ps))) mx"
  obtain mx2 d2 where b: "refresh_budgets E (clk 0) ?ps mx1 d1 = (mx2, d2)" by fastforce
  define mx3 where "mx3 = SetGauge ''argosfx_providers_enabled'' (f64_of_int (int (length (filter p_Enabled ?ps)))) mx2"
  define mx4 where "mx4 = (case sv_cache s of None \<Rightarrow> mx3 | Some c \<Rightarrow> SetGauge ''argosfx_cache_size'' (f64_of_int (cache_Len c)) mx3)"
  have s1: "refreshProviderMetrics E clk s = s\<lparr>sv_db := d2, sv_metrics := Some mx4\<rparr>"
    using assms(3,4) b by (cases "sv_cache s")
      (simp_all add: refreshProviderMetrics_def ListProviders_listed [OF assms(1)] Let_def mx4_def mx3_def flip: d1_def mx1_def)
  have ok1: "metrics_ok mx1" using assms(5) by (simp add: mx1_def metrics_ok_updates)
  have sh: "budgets_shown (\<lambda>i. usage_count d1 i (clk 0)) ?ps mx1 mx2"
    using refresh_budgets_shown [OF assms(1) ok1 listed_distinct [OF assms(2), of E], where d = d1 and now = "clk 0"] b by simp
  then have ok3: "metrics_ok mx3" by (simp add: budgets_shown_def mx3_def metrics_ok_updates)
  have g: "GetGauge k mx4 = (if k = ''argosfx_cache_size'' \<and> sv_cache s \<noteq> None then GetGauge k mx4 else GetGauge k mx3)" for k
    by (simp add: mx4_def GetGauge_SetGauge [OF ok3] split: option.split)
  have l: "LabeledValue k j mx4 = LabeledValue k j mx2" "counter_value k mx4 = counter_value k mx2" for k j
    by (simp_all add: mx4_def mx3_def split: option.split)
  have "same_tables ?d d2" using refresh_budgets_same [of d1 E "clk 0" ?ps mx1] b
    by (auto simp: d1_def intro: same_tables_trans [OF same_tables_refl(2)])
  moreover have "r = fst (metricsHandler E clk s)" "s' = snd (metricsHandler E clk s)" using assms(6) by simp_all
  then have "rp_status r = 200" "rp_body r = Text mx4" "s' = s\<lparr>sv_db := d2, sv_metrics := Some mx4\<rparr>"
    by (simp_all add: metricsHandler_def assms(4) s1 Let_def)
  moreover have "LabeledValue used_metric (budget_label (pr_name p)) mx4 = f64_of_int (usage_count ?d (pr_id p) (clk 0))
      \<and> (\<forall>n. pr_calls_per_day p = Some n \<longrightarrow> LabeledValue limit_metric (budget_label (pr_name p)) mx4 = f64_of_int (sint n))"
    if "p \<in> set (providers ?d)" for p
    using sh that by (auto simp: budgets_shown_def l listed_def d1_def row_provider_def)
  moreover have "GetGauge ''argosfx_providers_total'' mx4 = f64_of_int (int (length (providers ?d)))"
    using sh ok3 by (simp add: g mx3_def budgets_shown_def GetGauge_SetGauge mx1_def assms(5)) (simp add: listed_def)
  moreover have "GetGauge ''argosfx_providers_enabled'' mx4 = f64_of_int (int (length (filter (\<lambda>p. pr_enabled p \<noteq> 0) (providers ?d))))"
    using sh by (simp add: g mx3_def budgets_shown_def GetGauge_SetGauge listed_enabled)
  moreover have "counter_value k mx4 = counter_value k mx" for k using sh by (simp add: l budgets_shown_def mx1_def)
  ultimately show ?thesis by simp
qed

theorem metrics_report_usage_witness:
  "\<exists>mx'. sv_metrics (snd (metricsHandler plain_engine (\<lambda>_. 0) ((sample_server None)\<lparr>sv_metrics := Some NewMetrics\<rparr>))) = Some mx'
     \<and> LabeledValue used_metric (budget_label ''yahoo'') mx' = f64_of_int 0
     \<and> LabeledValue limit_metric (budget_label ''yahoo'') mx' = f64_of_int 1000"
proof -
  let ?s = "(sample_server None)\<lparr>sv_metrics := Some NewMetrics\<rparr>"
  have e: "faultless plain_engine" by (simp add: faultless_def)
  have d: "db_ok (sv_db ?s)" "sv_store ?s" "sv_metrics ?s = Some NewMetrics" by (simp_all add: sample_db_ok)
  have c: "usage_count sample_db i t = 0" for i t by (simp add: usage_count_def sample_db_def gm.get_empty)
  have p: "sample_provider 1 ''yahoo'' \<in> set (providers sample_db)" by (simp add: sample_db_def)
  obtain mx' where m: "sv_metrics (snd (metricsHandler plain_engine (\<lambda>_. 0) ?s)) = Some mx'"
    and v: "\<forall>p \<in> set (providers (sv_db ?s)).
         LabeledValue used_metric (budget_label (pr_name p)) mx' = f64_of_int (usage_count (sv_db ?s) (pr_id p) 0)
       \<and> (\<forall>n. pr_calls_per_day p = Some n \<longrightarrow> LabeledValue limit_metric (budget_label (pr_name p)) mx' = f64_of_int (sint n))"
    using metrics_report_usage [OF e d metrics_ok_new surjective_pairing, of "\<lambda>_. 0"] by blast
  from bspec [OF v, of "sample_provider 1 ''yahoo''"] p have "LabeledValue used_metric (budget_label ''yahoo'') mx' = f64_of_int 0
      \<and> LabeledValue limit_metric (budget_label ''yahoo'') mx' = f64_of_int (sint (1000 :: go_int))"
    by (simp add: c sample_provider_def)
  with m show ?thesis by simp
qed

section \<open>Listing the providers\<close>

text \<open>The entry that reports a row of the table of providers and its usage of a day.\<close>

definition provider_entry :: "db \<Rightarrow> time \<Rightarrow> provider_row \<Rightarrow> json" where
  "provider_entry d now p = JObj
     ([(''name'', JStr (pr_name p)), (''type'', JStr (pr_type p)), (''priority'', json_int (sint (pr_priority p))),
       (''enabled'', JBool (pr_enabled p \<noteq> 0))]
      @ (case pr_calls_per_day p of None \<Rightarrow> [] | Some n \<Rightarrow> [(''calls_per_day'', json_int (sint n))])
      @ (if pr_schedule_cron p = [] then [] else [(''schedule'', JStr (pr_schedule_cron p))])
      @ [(''used_today'', json_int (usage_count d (pr_id p) now))])"

lemma provider_view_row: "provider_view (row_provider E p) (usage_count d (pr_id p) now) = Some (provider_entry d now p)"
  by (simp add: provider_view_def provider_entry_def json_obj_def row_provider_def split: option.split)

text \<open>
  C18: the list of the providers is complete, ordered, and shows the usage of the day. While the
  database answers, the request is answered with a JSON object whose list has one entry for
  every stored provider, disabled ones too, by falling priority, and by name within one priority.
  An entry has the name, the type, the priority and whether the provider is enabled, the daily
  budget and the schedule if there are any, and the usage counter of the provider for the day.
  The tables are unchanged.
\<close>

theorem providers_listed_with_usage:
  assumes "faultless E" and "sv_store s" and "handleProviders E dbtext clk s = (r, s')"
  shows "\<exists>rows. rp_status r = 200
    \<and> rp_body r = json_text (JObj [(''providers'', JArr (map (provider_entry (sv_db s) (clk 0)) rows))]) @ [newline]
    \<and> mset rows = mset (providers (sv_db s))
    \<and> sorted (map (\<lambda>p. - sint (pr_priority p)) rows)
    \<and> (\<forall>v. sorted (map pr_name (filter (\<lambda>p. - sint (pr_priority p) = v) rows)))
    \<and> same_tables (sv_db s) (sv_db s')"
proof -
  let ?d = "sv_db s" and ?ps = "listed E (sv_db s)"
  define rows where "rows = sort_key (\<lambda>r. - sint (pr_priority r)) (sort_key pr_name (providers ?d))"
  define d1 where "d1 = ?d\<lparr>stmts := Suc (stmts ?d)\<rparr>"
  define vs where "vs = map (provider_entry ?d (clk 0)) rows"
  have ps: "?ps = map (row_provider E) rows" by (simp add: listed_def rows_def)
  have id: "p_ID (row_provider E p) = pr_id p" for p by (simp add: row_provider_def)
  have v: "fst (provider_views E (clk 0) ?ps d1) = map Some vs" "same_tables d1 (snd (provider_views E (clk 0) ?ps d1))"
    using provider_views_counts [OF assms(1), of "clk 0" ?ps d1]
    by (simp_all add: d1_def ps vs_def id provider_view_row)
  have j: "json_obj [(''providers'', json_list (map Some vs))] = Some (JObj [(''providers'', JArr vs)])"
    by (simp add: json_obj_def json_list_def list_all_iff comp_def)
  have "same_tables ?d (snd (provider_views E (clk 0) ?ps d1))"
    using same_tables_trans [OF _ v(2), of ?d] by (simp add: d1_def)
  moreover have "handleProviders E dbtext clk s = (writeJSON 200 [] (Some (JObj [(''providers'', JArr vs)])),
      s\<lparr>sv_db := snd (provider_views E (clk 0) ?ps d1)\<rparr>)"
    using assms(2) by (simp add: handleProviders_def ListProviders_listed [OF assms(1)] case_prod_beta v(1) j flip: d1_def)
  moreover have "sorted (map pr_name (filter (\<lambda>p. - sint (pr_priority p) = v) rows))" for v
    using sort_key_stable [of "\<lambda>r. - sint (pr_priority r)" v "sort_key pr_name (providers ?d)"] by (simp add: rows_def sorted_filter)
  ultimately show ?thesis using assms(3)
    by (intro exI [of _ rows]) (auto simp: writeJSON_def vs_def rows_def)
qed

text \<open>A database on which the provider with id 2 has been called three times on the first day.\<close>

definition used_server :: server where
  "used_server = (sample_server None)\<lparr>sv_db := sample_db\<lparr>usage := [((2, fmt_day 0), 3)]\<rparr>\<rparr>"

theorem providers_listed_with_usage_witness:
  "rp_body (fst (handleProviders plain_engine (\<lambda>_. []) (\<lambda>_. 0) used_server))
    = json_text (JObj [(''providers'', JArr
        (map (\<lambda>(name, used). JObj [(''name'', JStr name), (''type'', JStr name), (''priority'', json_int 1), (''enabled'', JBool True),
           (''calls_per_day'', json_int 1000), (''used_today'', json_int used)]) [(''frankfurter'', 3), (''yahoo'', 0)]))]) @ [newline]"
proof -
  have "faultless plain_engine" by (simp add: faultless_def)
  from providers_listed_with_usage [OF this _ surjective_pairing, of used_server "\<lambda>_. []" "\<lambda>_. 0"]
  obtain rows where body: "rp_body (fst (handleProviders plain_engine (\<lambda>_. []) (\<lambda>_. 0) used_server))
      = json_text (JObj [(''providers'', JArr (map (provider_entry (sv_db used_server) 0) rows))]) @ [newline]"
    and m: "mset rows = mset (providers sample_db)" and s: "\<forall>v. sorted (map pr_name (filter (\<lambda>p. - sint (pr_priority p) = v) rows))"
    by (auto simp: used_server_def)
  have set: "\<forall>p \<in> set rows. sint (pr_priority p) = 1"
    using mset_eq_setD [OF m] by (simp add: sample_db_def sample_provider_def)
  then have "filter (\<lambda>p. - sint (pr_priority p) = - 1) rows = rows" by (simp add: filter_id_conv)
  then have "sorted (map pr_name rows)" using s [rule_format, of "- 1"] by simp
  moreover have "\<not> ''yahoo'' \<le> ''frankfurter''" by code_simp
  moreover have "set rows = {sample_provider 1 ''yahoo'', sample_provider 2 ''frankfurter''}" "length rows = 2"
    using mset_eq_setD [OF m] mset_eq_length [OF m] by (simp_all add: sample_db_def)
  moreover from this(2) obtain x y where "rows = [x, y]" by (auto simp: numeral_2_eq_2 length_Suc_conv)
  ultimately have "rows = [sample_provider 2 ''frankfurter'', sample_provider 1 ''yahoo'']"
    by (auto simp: doubleton_eq_iff sample_provider_def)
  then show ?thesis unfolding body
    by (simp add: provider_entry_def sample_provider_def used_server_def usage_count_def map_get_def)
qed

end
