(* ===== verification/SortLoops.thy ===== *)
theory SortLoops
  imports HttpFacts
begin

text \<open>
  The loops of \<open>sortedKeys\<close> in \<^verbatim>\<open>internal/httpapi/httpapi.go\<close> as they are written: each evaluates
  its condition on the slice as it is at that moment, and an access outside of the slice panics.
  Nothing in their definitions says that they end; \<open>None\<close> is a loop that does not return, or a
  panic. \<open>HttpApi.sortedKeys\<close>, which the handlers use, walks the ranges the loops pass.
\<close>

definition exchange_at :: "nat \<Rightarrow> nat \<Rightarrow> string list \<Rightarrow> string list option" where
  "exchange_at i j out = (if i < length out \<and> j < length out then Some (exchange i j out) else None)"

partial_function (option) inner_loop :: "nat \<Rightarrow> nat \<Rightarrow> string list \<Rightarrow> string list option" where
  "inner_loop i j out =
     (if j < length out then Option.bind (exchange_at i j out) (inner_loop i (j + 1)) else Some out)"

partial_function (option) outer_loop :: "nat \<Rightarrow> string list \<Rightarrow> string list option" where
  "outer_loop i out =
     (if i < length out then Option.bind (inner_loop i (i + 1) out) (outer_loop (i + 1)) else Some out)"

definition sort_keys_loops :: "(string, unit) go_map \<Rightarrow> string list option" where
  "sort_keys_loops m = outer_loop 0 (map fst m)"

section \<open>The loops end\<close>

lemma length_exchange [simp]: "length (exchange i j out) = length out"
  by (simp add: exchange_def)

lemma length_exchanges [simp]: "length (fold (exchange i) js out) = length out"
  by (induction js arbitrary: out) simp_all

lemma inner_loop_fold: "i < j \<Longrightarrow> inner_loop i j out = Some (fold (exchange i) [j..<length out] out)"
proof (induction "length out - j" arbitrary: j out)
  case 0
  then show ?case by (simp add: inner_loop.simps)
next
  case (Suc n)
  then have "j < length out" "n = length (exchange i j out) - (j + 1)" "i < j + 1" by simp_all
  with Suc(1) [OF this(2,3)] Suc.prems show ?case
    by (subst inner_loop.simps) (simp add: exchange_at_def upt_conv_Cons)
qed

lemma outer_loop_fold:
  "outer_loop i out = Some (fold (\<lambda>i. fold (exchange i) [Suc i..<length out]) [i..<length out] out)"
proof (induction "length out - i" arbitrary: i out)
  case 0
  then show ?case by (simp add: outer_loop.simps)
next
  case (Suc n)
  define out' where "out' = fold (exchange i) [Suc i..<length out] out"
  have "i < length out" "n = length out' - (i + 1)" using Suc(2) by (simp_all add: out'_def)
  with Suc(1) [OF this(2)] show ?case
    by (subst outer_loop.simps) (simp add: inner_loop_fold upt_conv_Cons out'_def)
qed

text \<open>
  C30: \<open>sortedKeys\<close> returns, and sorts. Whatever the order in which Go iterates over the map, both
  loops end without an access outside of the slice, and the slice is then the ascending list of
  the keys, which is what the handlers' \<open>sortedKeys\<close> returns.
\<close>

theorem sort_loops_end:
  "sort_keys_loops m = Some (sort (map fst m)) \<and> sortedKeys m = sort (map fst m)"
  using sorted_keys_sorts [of m] by (simp add: sort_keys_loops_def outer_loop_fold sortedKeys_def Let_def)

end
