(* ===== verification/Spec2Isabelle.thy ===== *)
theory Spec2Isabelle
  imports Adapters Aggregator CacheKeys Config Durations Float64 GoTime GoValues HttpApi HttpFacts Json Metrics
    MetricsConc MetricsText Migrate PairFacts Prelude Program ProgramFacts Provider RateCache RateFacts Reports
    Scheduler SchedulerFacts SortLoops Stats Store StoreFacts Strconv
begin

text \<open>
  ArgosFX is a service that polls several providers of foreign exchange rates, stores their
  readings in SQLite, and answers HTTP requests with the median of the newest readings. This
  development models its Go code.

  \<^bold>\<open>The program.\<close> \<^verbatim>\<open>cmd/argosfx/main.go\<close> loads the configuration and the allowed currencies
  (\<^verbatim>\<open>internal/config\<close>), opens and migrates the store (\<^verbatim>\<open>internal/store\<close>), builds the client of
  every enabled provider (\<^verbatim>\<open>internal/provider/adapters\<close>), registers a fetch job for it with the
  scheduler (\<^verbatim>\<open>internal/scheduler\<close>), schedules the pruning of old readings, and starts the HTTP
  server (\<^verbatim>\<open>internal/httpapi\<close>). A job checks the provider's daily budget, fetches, stores the
  readings and counts the fetch, in the store and in the metrics (\<^verbatim>\<open>internal/obs\<close>). A request is
  answered from the response cache (\<^verbatim>\<open>internal/ratelookup\<close>) or by the aggregator
  (\<^verbatim>\<open>internal/aggregator\<close>), which reads the newest fresh reading of every provider, drops
  outliers, and takes the median; a pair without the base currency is the quotient of two such
  medians. All rates are quoted against \<open>USD\<close>.

  \<^bold>\<open>Values.\<close>
  \<^item> \<open>Prelude\<close>: Go's 64-bit integers (\<open>go_int\<close>, \<open>duration\<close> are words read by \<open>sint\<close>, so that
    arithmetic wraps), the clock (\<open>nat \<Rightarrow> time\<close>, one number per reading), lists and orders.
  \<^item> \<open>Float64\<close>: binary64 as \<open>Fin\<close> of a rational, infinities and NaN, with round-to-nearest-even;
    \<open>Strconv\<close>: the shortest decimal text of a float and its parsing.
  \<^item> \<open>GoTime\<close>: \<open>time.Time\<close> as nanoseconds since the year 1, RFC 3339 text, truncation, saturating
    differences. \<open>GoValues\<close>: strings as bytes, and Go maps as association lists in insertion
    order behind the locale \<open>finite_map\<close>. \<open>Json\<close>: encoding and decoding of documents.

  \<^bold>\<open>Components.\<close> Every operation is one definition with the name of the Go function.
  \<^item> \<open>Stats\<close> (\<^verbatim>\<open>stats.go\<close>): \<open>Median\<close>, \<open>FilterOutliers\<close>. A minority of arbitrary values cannot
    move the median out of the range of the majority.
  \<^item> \<open>Store\<close>, \<open>StoreFacts\<close> (\<^verbatim>\<open>store.go\<close>, \<^verbatim>\<open>0001_init.sql\<close>): the tables are the record \<open>db\<close>, every
    query and update is a state function that may fail with a \<open>db_error\<close>. The tables stay
    consistent; the newest readings per provider, the usage counters, the history and the
    round trip of a provider are what the SQL says.
  \<^item> \<open>Migrate\<close>: \<open>Open\<close> and \<open>migrate\<close>, on the file that \<open>schema_migrations\<close> describes.
  \<^item> \<open>Aggregator\<close>, \<open>RateFacts\<close>, \<open>PairFacts\<close> (\<^verbatim>\<open>aggregator.go\<close>): \<open>Compute\<close> refines the
    specification \<open>rate_spec\<close> over the stored rates; bounds of direct, inverse and cross rates;
    the minimum number of readings and providers; what pruning leaves alone. The aggregator reads the store
    through the locale \<open>rate_source\<close>, which the store's queries interpret.
  \<^item> \<open>RateCache\<close> (\<^verbatim>\<open>cache.go\<close>): sequentially (locale \<open>ttl_cache\<close>), and as the step relation
    \<open>cache_step\<close> in which the two lock regions of \<open>Get\<close> interleave with other calls.
  \<^item> \<open>Metrics\<close>, \<open>MetricsConc\<close>, \<open>MetricsText\<close> (\<^verbatim>\<open>metrics.go\<close>, \<^verbatim>\<open>format.go\<close>): the registry as a
    value; the registry as maps to shared cells, where the steps of concurrent calls interleave
    and every interleaving linearizes; and its text exposition, which reads back as the registry.
  \<^item> \<open>Provider\<close>, \<open>Adapters\<close> (\<^verbatim>\<open>provider.go\<close>, \<^verbatim>\<open>frankfurter.go\<close>, \<^verbatim>\<open>moneyconvert.go\<close>, \<^verbatim>\<open>yahoo.go\<close>,
    \<^verbatim>\<open>registry.go\<close>): the three clients meet the locale \<open>rate_adapter\<close>: they report asked
    currencies against the asked base, dated at the fetch.
  \<^item> \<open>Scheduler\<close>, \<open>SchedulerFacts\<close> (\<^verbatim>\<open>scheduler.go\<close>, \<^verbatim>\<open>manager.go\<close>): the cadence, the budget and
    \<open>RunOnce\<close>, with its effects on every branch. Runs one after the other never exceed the budget
    (over the locale \<open>usage_ledger\<close>); \<open>n\<close> runs that overlap exceed it by at most \<open>n - 1\<close>. They move
    by \<open>overlap_step\<close>, of which a \<open>RunOnce\<close> on one day is a sequence (\<open>RunOnce_steps\<close>).
  \<^item> \<open>Config\<close> (\<^verbatim>\<open>config.go\<close>): defaults, validation, and the allowed currencies.
  \<^item> \<open>HttpApi\<close>, \<open>HttpFacts\<close> (\<^verbatim>\<open>httpapi.go\<close>): every handler as a function from the server's state
    to a response and the new state, including \<open>time.ParseDuration\<close> and the exchange sort of
    \<open>sortedKeys\<close>, whose loops, as they are written, end (\<open>SortLoops\<close>). Bodies read back as the
    computed rates, tables hold exactly the rates of the specification and only allowed
    currencies, \<open>failure\<close> says which requests fail and how, readiness is freshness.
  \<^item> \<open>Durations\<close>: the text of a duration is read back exactly, fractions included. So the interval
    of a provider survives its way to the cron library, and a client can ask again for the
    window and the step an answer reports.
  \<^item> \<open>Program\<close>, \<open>ProgramFacts\<close> (\<^verbatim>\<open>main.go\<close>): \<open>startup\<close> composes the components into a
    \<open>program\<close>; \<open>program_step\<close> runs a scheduled entry or serves a request; \<open>life_step\<close> adds the
    phases of \<open>main\<close>: serving, shutting down after a signal, and finished with its exit code. An
    invariant holds in every reachable state, a start schedules every usable provider and books
    it on the row that \<open>books_on\<close> names, and a fetched rate is served while it is fresh.
  \<^item> \<open>Reports\<close>: what the providers endpoint and the metrics show of the stored providers and their
    usage; the quoting of names in labels is injective.
  \<^item> \<open>CacheKeys\<close>: pairs, tables and histories share one response cache under different keys; in
    every reachable state, what is found under the key of a pair is the document of that pair.

  \<^bold>\<open>What is assumed of the surroundings.\<close> The argument \<open>engine\<close> stands for SQLite and its driver:
  which statement fails with which error, in which order a scan without ORDER BY returns its
  rows (\<open>engine_ok\<close>: it returns all of them, once), how far an AUTOINCREMENT id jumps, and the
  JSON text of a provider's configuration. The network, the URL parser, the file system, the
  YAML parser, the environment, the order in which Go iterates over a map, the text of a driver
  error and the expressions the cron library rejects are arguments as well. Contexts that time
  out show up as failing statements and requests. Theorems about times assume years 1 to 9999
  (\<open>fmt_range\<close>), where the RFC 3339 text sorts like the times; \<open>stamped\<close> says the stored
  times are such texts, which every insert preserves.

  \<^bold>\<open>Termination.\<close> Every definition is total: the loops of the code recurse on their list or have
  a measure; JSON documents nest at most to Go's limit (\<open>max_depth\<close>), which is the only bound. The
  index loops of \<open>sortedKeys\<close> are also given as partial functions, and proved to return.

  \<^bold>\<open>Not modelled.\<close> The sockets, the router's matching of paths and the limits of \<open>http.Server\<close>;
  logging, and with it the values that are only logged; the cron library's clock (an entry may
  run at any time once the manager is started, and until the program has finished); the handle
  of the database, which \<open>Close\<close> releases at the end. A signal may arrive at any time while the
  program serves; how long the running requests may take after it is left open. Requests and
  runs are atomic in \<open>program_step\<close>; their interleaving is modelled where the code is sensitive to
  it, in \<open>cache_step\<close>, \<open>metrics_step\<close> and \<open>overlap_step\<close>. \<open>strings.ToUpper\<close> maps ASCII letters
  only. Statements of SQL are modelled by what they compute, not by SQL text.
\<close>

end
